(* ===== verification/Prelude.thy ===== *)
theory Prelude
  imports Main "HOL-Library.Word" "HOL-Library.Sublist" "HOL-Library.Code_Target_Nat"
    "HOL-Library.Monad_Syntax"
begin

text \<open>
  What the edit engines use of Rust's standard library, shared by every component.

  A \<^verbatim>\<open>char\<close> is its Unicode scalar value, a \<^verbatim>\<open>&str\<close> or \<^verbatim>\<open>String\<close> is the list of its
  characters, and a \<^verbatim>\<open>u8\<close> is an \<open>8 word\<close>. Byte lengths and byte buffers go through UTF-8,
  which is written out here with its decoder and the round trip between the two. A \<^verbatim>\<open>usize\<close>
  is a \<open>nat\<close>: indices and lengths are bounded by the memory that holds the buffers, so the
  only place where the width of \<^verbatim>\<open>usize\<close> shows is \<^verbatim>\<open>str::parse::<usize>\<close>.

  The theory also holds the lemma collections of the development and the generic facts on
  lists that several components share.
\<close>

section \<open>Lemma collections\<close>

named_theorems text_simps \<open>evaluation of the text operations on constructors and appends\<close>
named_theorems len_bounds \<open>length and position bounds of searches and scans\<close>

section \<open>Characters and strings\<close>

type_synonym byte = "8 word"
type_synonym uchar = nat
type_synonym rstr = "uchar list"

definition lit :: "string \<Rightarrow> rstr" where
  "lit s = map of_char s"

text \<open>The characters the sources name in literals.\<close>

abbreviation (input) LF :: uchar where "LF \<equiv> 10"
abbreviation (input) CR :: uchar where "CR \<equiv> 13"
abbreviation (input) SP :: uchar where "SP \<equiv> 32"
abbreviation (input) TAB :: uchar where "TAB \<equiv> 9"

definition is_scalar :: "uchar \<Rightarrow> bool" where
  "is_scalar c \<longleftrightarrow> c < 0x110000 \<and> \<not> (0xD800 \<le> c \<and> c \<le> 0xDFFF)"

text \<open>\<^verbatim>\<open>char::is_whitespace\<close>: the Unicode property White_Space.\<close>

definition is_whitespace :: "uchar \<Rightarrow> bool" where
  "is_whitespace c \<longleftrightarrow> (9 \<le> c \<and> c \<le> 13) \<or> c = 0x20 \<or> c = 0x85 \<or> c = 0xA0 \<or> c = 0x1680
     \<or> (0x2000 \<le> c \<and> c \<le> 0x200A) \<or> c = 0x2028 \<or> c = 0x2029 \<or> c = 0x202F \<or> c = 0x205F
     \<or> c = 0x3000"

definition trim_start :: "rstr \<Rightarrow> rstr" where
  "trim_start s = dropWhile is_whitespace s"

definition trim_end :: "rstr \<Rightarrow> rstr" where
  "trim_end s = rev (dropWhile is_whitespace (rev s))"

definition trim :: "rstr \<Rightarrow> rstr" where
  "trim s = trim_end (trim_start s)"

definition starts_with :: "'a list \<Rightarrow> 'a list \<Rightarrow> bool" where
  "starts_with s p \<longleftrightarrow> take (length p) s = p"

definition ends_with :: "'a list \<Rightarrow> 'a list \<Rightarrow> bool" where
  "ends_with s p \<longleftrightarrow> length p \<le> length s \<and> drop (length s - length p) s = p"

definition strip_prefix :: "'a list \<Rightarrow> 'a list \<Rightarrow> 'a list option" where
  "strip_prefix s p = (if starts_with s p then Some (drop (length p) s) else None)"

definition strip_suffix :: "'a list \<Rightarrow> 'a list \<Rightarrow> 'a list option" where
  "strip_suffix s p = (if ends_with s p then Some (take (length s - length p) s) else None)"

text \<open>\<^verbatim>\<open>str::split(char)\<close>: always at least one piece.\<close>

fun split_on :: "'a \<Rightarrow> 'a list \<Rightarrow> 'a list list" where
  "split_on d [] = [[]]"
| "split_on d (x # xs) =
     (if x = d then [] # split_on d xs
      else (case split_on d xs of [] \<Rightarrow> [[x]] | p # ps \<Rightarrow> (x # p) # ps))"

text \<open>\<^verbatim>\<open>[T]::join\<close> and \<^verbatim>\<open>[String]::join\<close>.\<close>

fun join :: "'a list \<Rightarrow> 'a list list \<Rightarrow> 'a list" where
  "join sep [] = []"
| "join sep [p] = p"
| "join sep (p # q # ps) = p @ sep @ join sep (q # ps)"

text \<open>\<^verbatim>\<open>line.strip_suffix('\r').unwrap_or(line)\<close>.\<close>

definition strip_cr :: "rstr \<Rightarrow> rstr" where
  "strip_cr s = (case strip_suffix s [CR] of Some t \<Rightarrow> t | None \<Rightarrow> s)"

text \<open>\<^verbatim>\<open>str::lines\<close>: pieces between line feeds, without a final empty piece, each without a
  final carriage return.\<close>

definition str_lines :: "rstr \<Rightarrow> rstr list" where
  "str_lines s = (let ps = split_on LF s in
     map strip_cr (butlast ps) @ (if last ps = [] then [] else [last ps]))"

text \<open>\<^verbatim>\<open>Iterator::position\<close> and \<^verbatim>\<open>Vec::splice\<close>.\<close>

fun position :: "('a \<Rightarrow> bool) \<Rightarrow> 'a list \<Rightarrow> nat option" where
  "position P [] = None"
| "position P (x # xs) = (if P x then Some 0 else map_option Suc (position P xs))"

definition splice :: "'a list \<Rightarrow> nat \<Rightarrow> nat \<Rightarrow> 'a list \<Rightarrow> 'a list" where
  "splice xs from to ys = take from xs @ ys @ drop to xs"

definition nth_opt :: "'a list \<Rightarrow> nat \<Rightarrow> 'a option" where
  "nth_opt xs i = (if i < length xs then Some (xs ! i) else None)"

text \<open>\<^verbatim>\<open>Vec::remove\<close> at an index in range.\<close>

definition remove_at :: "nat \<Rightarrow> 'a list \<Rightarrow> 'a list" where
  "remove_at i xs = take i xs @ drop (Suc i) xs"

text \<open>\<^verbatim>\<open>Iterator::min_by_key\<close>: the first element with the least key.\<close>

fun min_by_key :: "('a \<Rightarrow> 'k :: linorder) \<Rightarrow> 'a list \<Rightarrow> 'a option" where
  "min_by_key key [] = None"
| "min_by_key key (x # xs) =
     (case min_by_key key xs of None \<Rightarrow> Some x
      | Some y \<Rightarrow> if key x \<le> key y then Some x else Some y)"

text \<open>Saturating arithmetic on a 64-bit \<^verbatim>\<open>usize\<close> or \<^verbatim>\<open>u64\<close>; subtraction on \<open>nat\<close> saturates by itself.\<close>

definition usize_max :: nat where
  "usize_max = 18446744073709551615"

definition saturating_add :: "nat \<Rightarrow> nat \<Rightarrow> nat" where
  "saturating_add a b = min (a + b) usize_max"

section \<open>Decimal numbers\<close>

text \<open>
  \<^verbatim>\<open>str::parse::<usize>\<close> on a 64-bit target: an optional plus sign, then one or more ASCII
  digits, with an error when the value does not fit.
\<close>

definition is_ascii_digit :: "uchar \<Rightarrow> bool" where
  "is_ascii_digit c \<longleftrightarrow> 48 \<le> c \<and> c \<le> 57"

definition is_ascii_hexdigit :: "uchar \<Rightarrow> bool" where
  "is_ascii_hexdigit c \<longleftrightarrow> is_ascii_digit c \<or> (65 \<le> c \<and> c \<le> 70) \<or> (97 \<le> c \<and> c \<le> 102)"

definition is_ascii_alphanumeric :: "uchar \<Rightarrow> bool" where
  "is_ascii_alphanumeric c \<longleftrightarrow>
     is_ascii_digit c \<or> (65 \<le> c \<and> c \<le> 90) \<or> (97 \<le> c \<and> c \<le> 122)"

definition to_ascii_uppercase :: "rstr \<Rightarrow> rstr" where
  "to_ascii_uppercase s = map (\<lambda>c. if 97 \<le> c \<and> c \<le> 122 then c - 32 else c) s"

definition to_ascii_lowercase :: "rstr \<Rightarrow> rstr" where
  "to_ascii_lowercase s = map (\<lambda>c. if 65 \<le> c \<and> c \<le> 90 then c + 32 else c) s"

definition digits_value :: "rstr \<Rightarrow> nat" where
  "digits_value s = foldl (\<lambda>v c. v * 10 + (c - 48)) 0 s"

definition parse_usize :: "rstr \<Rightarrow> nat option" where
  "parse_usize s =
     (let ds = (case s of c # r \<Rightarrow> if c = 43 then r else s | [] \<Rightarrow> s) in
      if ds \<noteq> [] \<and> list_all is_ascii_digit ds \<and> digits_value ds \<le> usize_max
      then Some (digits_value ds) else None)"

text \<open>\<^verbatim>\<open>usize::to_string\<close>.\<close>

fun show_nat :: "nat \<Rightarrow> rstr" where
  "show_nat n = (if n < 10 then [48 + n] else show_nat (n div 10) @ [48 + n mod 10])"

declare show_nat.simps [simp del]

section \<open>UTF-8\<close>

definition utf8_len :: "uchar \<Rightarrow> nat" where
  "utf8_len c = (if c < 0x80 then 1 else if c < 0x800 then 2 else if c < 0x10000 then 3 else 4)"

definition utf8_char :: "uchar \<Rightarrow> byte list" where
  "utf8_char c =
     (if c < 0x80 then [of_nat c]
      else if c < 0x800 then [of_nat (192 + c div 64), of_nat (128 + c mod 64)]
      else if c < 0x10000 then
        [of_nat (224 + c div 4096), of_nat (128 + c div 64 mod 64), of_nat (128 + c mod 64)]
      else [of_nat (240 + c div 262144), of_nat (128 + c div 4096 mod 64),
            of_nat (128 + c div 64 mod 64), of_nat (128 + c mod 64)])"

text \<open>\<^verbatim>\<open>str::as_bytes\<close> and \<^verbatim>\<open>str::len\<close>.\<close>

definition as_bytes :: "rstr \<Rightarrow> byte list" where
  "as_bytes s = concat (map utf8_char s)"

definition str_len :: "rstr \<Rightarrow> nat" where
  "str_len s = sum_list (map utf8_len s)"

definition cont_bits :: "byte \<Rightarrow> nat option" where
  "cont_bits b = (if 128 \<le> unat b \<and> unat b < 192 then Some (unat b - 128) else None)"

text \<open>\<^verbatim>\<open>String::from_utf8\<close>: overlong forms, surrogates and values past U+10FFFF are errors.\<close>

fun from_utf8 :: "byte list \<Rightarrow> rstr option" where
  "from_utf8 [] = Some []"
| "from_utf8 (a # r) =
     (let x = unat a in
      if x < 128 then map_option (Cons x) (from_utf8 r)
      else if x < 194 then None
      else if x < 224 then
        (case r of b # r' \<Rightarrow>
           (case cont_bits b of Some y \<Rightarrow> map_option (Cons ((x - 192) * 64 + y)) (from_utf8 r')
            | None \<Rightarrow> None)
         | _ \<Rightarrow> None)
      else if x < 240 then
        (case r of b # c # r' \<Rightarrow>
           (case (cont_bits b, cont_bits c) of (Some y, Some z) \<Rightarrow>
              (let v = (x - 224) * 4096 + y * 64 + z in
               if 0x800 \<le> v \<and> is_scalar v then map_option (Cons v) (from_utf8 r') else None)
            | _ \<Rightarrow> None)
         | _ \<Rightarrow> None)
      else if x < 245 then
        (case r of b # c # d # r' \<Rightarrow>
           (case (cont_bits b, cont_bits c, cont_bits d) of (Some y, Some z, Some w) \<Rightarrow>
              (let v = (x - 240) * 262144 + y * 4096 + z * 64 + w in
               if 0x10000 \<le> v \<and> is_scalar v then map_option (Cons v) (from_utf8 r') else None)
            | _ \<Rightarrow> None)
         | _ \<Rightarrow> None)
      else None)"

section \<open>Facts on the text operations\<close>

lemma length_utf8_char: "length (utf8_char c) = utf8_len c"
  by (simp add: utf8_char_def utf8_len_def)

lemma length_as_bytes: "length (as_bytes s) = str_len s"
  by (induction s) (simp_all add: as_bytes_def str_len_def length_utf8_char)

lemma as_bytes_simps [simp]:
  "as_bytes [] = []" "as_bytes (c # s) = utf8_char c @ as_bytes s"
  "as_bytes (s @ t) = as_bytes s @ as_bytes t"
  by (simp_all add: as_bytes_def)

lemma unat_byte: "n < 256 \<Longrightarrow> unat (of_nat n :: byte) = n"
  by (simp add: unat_of_nat)

lemma cont_bits_of_nat: "n < 64 \<Longrightarrow> cont_bits (of_nat (128 + n)) = Some n"
  by (simp add: cont_bits_def unat_byte del: of_nat_add)

lemma from_utf8_char:
  assumes "is_scalar c"
  shows "from_utf8 (utf8_char c @ r) = map_option (Cons c) (from_utf8 r)"
proof -
  consider "c < 0x80" | "0x80 \<le> c" "c < 0x800" | "0x800 \<le> c" "c < 0x10000" | "0x10000 \<le> c"
    by linarith
  then show ?thesis
  proof cases
    case 1
    then show ?thesis by (simp add: utf8_char_def unat_byte)
  next
    case 2
    then have "c div 64 < 32" "2 \<le> c div 64" by auto
    then show ?thesis using 2
      by (simp add: utf8_char_def unat_byte cont_bits_of_nat Let_def del: of_nat_add)
  next
    case 3
    have "c div 4096 < 16" "c div 64 mod 64 < 64" using 3 by auto
    moreover have "c div 4096 * 4096 + c div 64 mod 64 * 64 + c mod 64 = c"
    proof -
      have "c div 4096 = c div 64 div 64" by (simp add: div_mult2_eq)
      then show ?thesis using div_mult_mod_eq [of c 64] div_mult_mod_eq [of "c div 64" 64] by linarith
    qed
    ultimately show ?thesis using 3 assms
      by (simp add: utf8_char_def unat_byte cont_bits_of_nat Let_def del: of_nat_add)
  next
    case 4
    have "c div 262144 < 5" using assms by (simp add: is_scalar_def less_mult_imp_div_less)
    moreover have "c div 262144 * 262144 + c div 4096 mod 64 * 4096 + c div 64 mod 64 * 64 + c mod 64 = c"
    proof -
      have "c div 4096 mod 64 = c div 64 div 64 mod 64" "c div 262144 = c div 64 div 64 div 64"
        by (simp_all add: div_mult2_eq [symmetric])
      then show ?thesis
        using div_mult_mod_eq [of c 64] div_mult_mod_eq [of "c div 64" 64]
          div_mult_mod_eq [of "c div 64 div 64" 64] by linarith
    qed
    ultimately show ?thesis using 4 assms
      by (simp add: utf8_char_def unat_byte cont_bits_of_nat Let_def del: of_nat_add)
  qed
qed

lemma from_utf8_as_bytes: "list_all is_scalar s \<Longrightarrow> from_utf8 (as_bytes s) = Some s"
  by (induction s) (simp_all add: from_utf8_char)

lemma as_bytes_inject:
  "list_all is_scalar s \<Longrightarrow> list_all is_scalar t \<Longrightarrow> as_bytes s = as_bytes t \<longleftrightarrow> s = t"
  using from_utf8_as_bytes by (metis option.inject)

lemma byte_of_nat: "n = unat (a :: byte) \<Longrightarrow> of_nat n = a"
  by simp

lemma radix64 [simp]: "y < 64 \<Longrightarrow> (k * 64 + y) div 64 = k" "y < 64 \<Longrightarrow> (k * 64 + y) mod 64 = y"
  for k y :: nat
  by simp_all

lemma cont_bits_Some: "cont_bits b = Some y \<longleftrightarrow> y < 64 \<and> b = of_nat (128 + y)"
proof
  assume "cont_bits b = Some y"
  then have "unat b = 128 + y" "y < 64" by (auto simp: cont_bits_def split: if_splits)
  then show "y < 64 \<and> b = of_nat (128 + y)" using byte_of_nat [of "128 + y" b] by simp
qed (use cont_bits_of_nat in blast)

lemma utf8_char2:
  assumes "194 \<le> unat a" "unat a < 224" "y < 64"
  shows "utf8_char ((unat a - 192) * 64 + y) = [a, of_nat (128 + y)]"
proof -
  let ?c = "(unat a - 192) * 64 + y"
  have "0x80 \<le> ?c" "?c < 0x800" "192 + ?c div 64 = unat a" "?c mod 64 = y"
    using assms by auto
  then show ?thesis by (simp add: utf8_char_def byte_of_nat del: of_nat_add)
qed

lemma utf8_char3:
  assumes "224 \<le> unat a" "unat a < 240" "y < 64" "z < 64"
    and c: "c = (unat a - 224) * 4096 + y * 64 + z" "0x800 \<le> c"
  shows "utf8_char c = [a, of_nat (128 + y), of_nat (128 + z)]"
proof -
  obtain k where k: "unat a = 224 + k" "k < 16" using assms le_Suc_ex [of 224 "unat a"] by auto
  have c': "c = (k * 64 + y) * 64 + z" using c k by simp
  have d: "c div 64 = k * 64 + y" "c mod 64 = z" using assms(4) unfolding c' by (rule radix64)+
  have "c div 4096 = c div 64 div 64" by (simp add: div_mult2_eq [symmetric])
  then have t: "224 + c div 4096 = unat a" "c div 64 mod 64 = y" using d k assms(3) by auto
  have "k \<le> 15" "y \<le> 63" "z \<le> 63" using k assms(3,4) by auto
  moreover have "c = k * 4096 + y * 64 + z" using c k by simp
  ultimately have "c < 0x10000" by linarith
  then show ?thesis using c(2) d t by (simp add: utf8_char_def byte_of_nat del: of_nat_add)
qed

lemma utf8_char4:
  assumes "240 \<le> unat a" "unat a < 245" "y < 64" "z < 64" "w < 64"
    and c: "c = (unat a - 240) * 262144 + y * 4096 + z * 64 + w" "0x10000 \<le> c"
  shows "utf8_char c = [a, of_nat (128 + y), of_nat (128 + z), of_nat (128 + w)]"
proof -
  obtain k where k: "unat a = 240 + k" using assms le_Suc_ex [of 240 "unat a"] by auto
  have c': "c = ((k * 64 + y) * 64 + z) * 64 + w" using c k by simp
  have d: "c div 64 = (k * 64 + y) * 64 + z" "c mod 64 = w"
    using assms(5) unfolding c' by (rule radix64)+
  have "c div 4096 = c div 64 div 64" by (simp add: div_mult2_eq [symmetric])
  then have e: "c div 4096 = k * 64 + y" "c div 64 mod 64 = z"
    using assms(4) unfolding d by (simp_all only: radix64)
  have "c div 262144 = c div 4096 div 64" by (simp add: div_mult2_eq [symmetric])
  then have "240 + c div 262144 = unat a" "c div 4096 mod 64 = y" using e k assms(3) by auto
  then show ?thesis using c(2) d e by (simp add: utf8_char_def byte_of_nat del: of_nat_add)
qed

lemma from_utf8_Some: "from_utf8 bs = Some s \<Longrightarrow> as_bytes s = bs \<and> list_all is_scalar s"
proof (induction bs arbitrary: s rule: from_utf8.induct)
  case 1
  then show ?case by simp
next
  case (2 a r)
  consider "unat a < 128" | "194 \<le> unat a" "unat a < 224" | "224 \<le> unat a" "unat a < 240"
    | "240 \<le> unat a" "unat a < 245"
    using "2.prems" by (fastforce simp: Let_def split: if_splits)
  then show ?case
  proof cases
    case 1
    then obtain t where "from_utf8 r = Some t" "s = unat a # t" using "2.prems" by auto
    then show ?thesis using 1 "2.IH"(1) by (auto simp: utf8_char_def is_scalar_def)
  next
    case c2: 2
    then obtain b r' y t where *: "r = b # r'" "cont_bits b = Some y" "from_utf8 r' = Some t"
      "s = ((unat a - 192) * 64 + y) # t"
      using "2.prems" by (auto simp: Let_def split: list.splits option.splits)
    then have "as_bytes t = r'" "list_all is_scalar t" using "2.IH"(2) c2 by auto
    moreover have "is_scalar ((unat a - 192) * 64 + y)"
      using c2 *(2) by (auto simp: is_scalar_def cont_bits_Some)
    ultimately show ?thesis using * c2 by (auto simp: utf8_char2 cont_bits_Some simp del: of_nat_add)
  next
    case c3: 3
    then obtain b c r' y z t where *: "r = b # c # r'" "cont_bits b = Some y" "cont_bits c = Some z"
      "from_utf8 r' = Some t" "s = ((unat a - 224) * 4096 + y * 64 + z) # t"
      "0x800 \<le> (unat a - 224) * 4096 + y * 64 + z" "is_scalar ((unat a - 224) * 4096 + y * 64 + z)"
      using "2.prems" by (auto simp: Let_def split: list.splits option.splits if_splits)
    then have "as_bytes t = r'" "list_all is_scalar t" using "2.IH"(3) c3 by auto
    then show ?thesis using * c3 by (auto simp: utf8_char3 cont_bits_Some simp del: of_nat_add)
  next
    case c4: 4
    then obtain b c d r' y z w t where *: "r = b # c # d # r'" "cont_bits b = Some y"
      "cont_bits c = Some z" "cont_bits d = Some w" "from_utf8 r' = Some t"
      "s = ((unat a - 240) * 262144 + y * 4096 + z * 64 + w) # t"
      "0x10000 \<le> (unat a - 240) * 262144 + y * 4096 + z * 64 + w"
      "is_scalar ((unat a - 240) * 262144 + y * 4096 + z * 64 + w)"
      using "2.prems" by (auto simp: Let_def split: list.splits option.splits if_splits)
    then have "as_bytes t = r'" "list_all is_scalar t" using "2.IH"(4) c4 by auto
    then show ?thesis using * c4 by (auto simp: utf8_char4 cont_bits_Some simp del: of_nat_add)
  qed
qed

lemma from_utf8_iff: "from_utf8 bs = Some s \<longleftrightarrow> list_all is_scalar s \<and> bs = as_bytes s"
  using from_utf8_Some from_utf8_as_bytes by auto

subsection \<open>Splitting and joining\<close>

lemma split_on_not_Nil [simp]: "split_on d s \<noteq> []"
  by (cases s) (auto split: list.splits)

lemma join_Cons: "ps \<noteq> [] \<Longrightarrow> join sep (p # ps) = p @ sep @ join sep ps"
  by (cases ps) auto

lemma join_split_on [simp]: "join [d] (split_on d s) = s"
proof (induction s)
  case (Cons x s)
  then show ?case
    by (cases "split_on d s") (auto simp: join_Cons split: list.splits, metis append_Cons join.simps(2) join_Cons list.exhaust)
qed simp

lemma split_on_append: "d \<notin> set p \<Longrightarrow> split_on d (p @ d # s) = p # split_on d s"
  by (induction p) auto

lemma split_on_single: "d \<notin> set p \<Longrightarrow> split_on d p = [p]"
  by (induction p) auto

lemma split_on_join:
  "ps \<noteq> [] \<Longrightarrow> \<forall>p \<in> set ps. d \<notin> set p \<Longrightarrow> split_on d (join [d] ps) = ps"
proof (induction ps)
  case (Cons p ps)
  then show ?case by (cases ps) (auto simp: split_on_single split_on_append)
qed simp

lemma split_on_pieces: "p \<in> set (split_on d s) \<Longrightarrow> d \<notin> set p"
  by (induction s arbitrary: p) (auto split: if_splits list.splits)

lemma set_join: "set (join sep ps) \<subseteq> set sep \<union> \<Union> (set ` set ps)"
  by (induction sep ps rule: join.induct) auto

subsection \<open>Prefixes, suffixes and trimming\<close>

lemma starts_with_prefix: "starts_with s p \<longleftrightarrow> prefix p s"
  by (metis append_eq_conv_conj prefix_def starts_with_def)

lemma ends_with_suffix: "ends_with s p \<longleftrightarrow> suffix p s"
  unfolding ends_with_def suffix_def
  by (metis append_take_drop_id diff_diff_cancel drop_append length_append length_drop le_add2 append_eq_conv_conj add_diff_cancel_right' append_Nil diff_self_eq_0 drop0 drop_all order_refl)

lemma strip_prefix_Some: "strip_prefix s p = Some r \<longleftrightarrow> s = p @ r"
  by (auto simp: strip_prefix_def starts_with_def) (metis append_take_drop_id)

lemma strip_suffix_Some: "strip_suffix s p = Some r \<longleftrightarrow> s = r @ p"
  by (auto simp: strip_suffix_def ends_with_def) (metis append_take_drop_id)

lemma trim_end_append_ws: "list_all is_whitespace w \<Longrightarrow> trim_end (s @ w) = trim_end s"
proof -
  assume "list_all is_whitespace w"
  then have "dropWhile is_whitespace (rev w @ rev s) = dropWhile is_whitespace (rev s)"
    by (intro dropWhile_append2) (auto simp: list_all_iff)
  then show ?thesis by (simp add: trim_end_def)
qed

lemma trim_end_id: "s = [] \<or> \<not> is_whitespace (last s) \<Longrightarrow> trim_end s = s"
  by (cases s rule: rev_cases) (auto simp: trim_end_def)

lemma trim_start_id: "s = [] \<or> \<not> is_whitespace (hd s) \<Longrightarrow> trim_start s = s"
  by (cases s) (auto simp: trim_start_def)

lemma trim_id:
  "s = [] \<or> (\<not> is_whitespace (hd s) \<and> \<not> is_whitespace (last s)) \<Longrightarrow> trim s = s"
  by (auto simp: trim_def trim_start_id trim_end_id)

lemma set_trim_end: "set (trim_end s) \<subseteq> set s"
  using set_dropWhileD by (fastforce simp: trim_end_def)

lemma set_trim_start: "set (trim_start s) \<subseteq> set s"
  using set_dropWhileD by (fastforce simp: trim_start_def)

lemma set_trim: "set (trim s) \<subseteq> set s"
  unfolding trim_def using set_trim_end set_trim_start by blast

lemma trim_Nil_iff: "trim s = [] \<longleftrightarrow> list_all is_whitespace s"
proof -
  have "trim_end t = [] \<longleftrightarrow> list_all is_whitespace t" for t
    by (auto simp: trim_end_def list_all_iff)
  moreover have "list_all is_whitespace (trim_start s) \<longleftrightarrow> list_all is_whitespace s"
    by (induction s) (auto simp: trim_start_def)
  ultimately show ?thesis by (simp add: trim_def)
qed

lemma trim_end_prefix: "prefix (trim_end s) s"
  unfolding trim_end_def suffix_to_prefix [symmetric] rev_rev_ident suffix_dropWhile
  by (metis rev_rev_ident suffix_dropWhile suffix_to_prefix)

lemma hd_trim: "trim s \<noteq> [] \<Longrightarrow> \<not> is_whitespace (hd (trim s))"
proof -
  assume "trim s \<noteq> []"
  moreover from this obtain z where "trim_start s = trim s @ z"
    using trim_end_prefix [of "trim_start s"] by (auto simp: trim_def prefix_def)
  ultimately have "hd (trim s) = hd (trim_start s)" "trim_start s \<noteq> []" by auto
  then show ?thesis by (metis hd_dropWhile trim_start_def)
qed

lemma last_trim: "trim s \<noteq> [] \<Longrightarrow> \<not> is_whitespace (last (trim s))"
  by (metis hd_dropWhile last_rev rev_is_Nil_conv trim_def trim_end_def)

lemma trim_trim [simp]: "trim (trim s) = trim s"
  using hd_trim last_trim by (intro trim_id) blast

subsection \<open>Positions\<close>

lemma position_Some:
  "position P xs = Some i \<longleftrightarrow> i < length xs \<and> P (xs ! i) \<and> (\<forall>j<i. \<not> P (xs ! j))"
proof (induction xs arbitrary: i)
  case (Cons x xs)
  show ?case
    by (cases i) (auto simp: Cons.IH nth_Cons split: nat.splits)
qed simp

lemma position_None: "position P xs = None \<longleftrightarrow> (\<forall>x \<in> set xs. \<not> P x)"
  by (induction xs) auto

subsection \<open>Decimal round trip\<close>

lemma show_nat_digits: "list_all is_ascii_digit (show_nat n) \<and> show_nat n \<noteq> []"
proof (induction n rule: show_nat.induct)
  case (1 n)
  then show ?case
    by (subst (1 2) show_nat.simps) (auto, auto simp: is_ascii_digit_def)
qed

lemma digits_value_show_nat: "digits_value (show_nat n) = n"
proof (induction n rule: show_nat.induct)
  case (1 n)
  then show ?case by (subst show_nat.simps) (auto simp: digits_value_def)
qed

lemma parse_usize_show_nat: "n \<le> usize_max \<Longrightarrow> parse_usize (show_nat n) = Some n"
proof -
  assume n: "n \<le> usize_max"
  obtain c r where cr: "show_nat n = c # r" using show_nat_digits [of n] by (cases "show_nat n") auto
  then have "is_ascii_digit c" using show_nat_digits [of n] by simp
  then have "c \<noteq> 43" by (simp add: is_ascii_digit_def)
  then show ?thesis using n show_nat_digits [of n] digits_value_show_nat [of n] cr
    by (simp add: parse_usize_def)
qed

section \<open>Joined lines and positions\<close>

lemma lit_Nil_iff [simp]: "lit s = [] \<longleftrightarrow> s = []"
  by (simp add: lit_def)

lemma drop_after: "drop i xs = a @ b \<Longrightarrow> drop (i + length a) xs = b"
  using drop_drop [of "length a" i xs] by (simp add: add.commute)

lemma concat_join: "concat (map (\<lambda>l. l @ sep) xs) @ y = join sep (xs @ [y])"
proof (induction xs)
  case (Cons x xs)
  then show ?case by (simp add: join_Cons)
qed simp

lemma concat_lines: "ls \<noteq> [] \<Longrightarrow> concat (map (\<lambda>l. l @ [d]) ls) = join [d] ls @ [d]"
proof (induction ls)
  case (Cons l ls)
  then show ?case by (cases ls) auto
qed simp

lemma position_append: "list_all (\<lambda>x. \<not> P x) xs \<Longrightarrow> P y \<Longrightarrow> position P (xs @ y # ys) = Some (length xs)"
  by (induction xs) auto

lemma min_by_key_None [simp]: "min_by_key key xs = None \<longleftrightarrow> xs = []"
  by (cases xs) (auto split: option.splits)

lemma min_by_key_Some:
  "min_by_key key xs = Some x \<Longrightarrow> x \<in> set xs \<and> (\<forall>y \<in> set xs. key x \<le> key y)"
  by (induction xs arbitrary: x) (auto split: option.splits if_splits intro: order_trans)

lemma min_by_key_exists: "xs \<noteq> [] \<Longrightarrow> \<exists>x. min_by_key key xs = Some x"
  by (cases "min_by_key key xs") simp_all

lemma length_remove_at: "i < length xs \<Longrightarrow> Suc (length (remove_at i xs)) = length xs"
  by (simp add: remove_at_def)

lemma remove_at_split: "i < length xs \<Longrightarrow> set xs = insert (xs ! i) (set (remove_at i xs))"
  using arg_cong [OF id_take_nth_drop [of i xs], of set] by (simp add: remove_at_def)

lemma sum_remove_at:
  "i < length xs \<Longrightarrow> sum_list (map f (remove_at i xs)) + f (xs ! i) = sum_list (map f xs)" for f :: "'a \<Rightarrow> nat"
  using arg_cong [OF id_take_nth_drop [of i xs], of "\<lambda>ys. sum_list (map f ys)"]
  by (simp only: remove_at_def map_append list.map sum_list.append sum_list.Cons)

lemma set_remove_at: "set (remove_at i xs) \<subseteq> set xs"
  by (auto simp: remove_at_def dest: in_set_takeD in_set_dropD)

lemma map_remove_at: "map f (remove_at i xs) = remove_at i (map f xs)"
  by (simp add: remove_at_def take_map drop_map)

lemma distinct_remove_at: "distinct xs \<Longrightarrow> distinct (remove_at i xs)"
  using set_take_disj_set_drop_if_distinct [of xs i "Suc i"] by (simp add: remove_at_def)

end
