(* ===== verification/Line_Search.thy ===== *)
theory Line_Search
  imports Prelude
begin

text \<open>
  The line-sequence search of \<^verbatim>\<open>crates/aft/src/patch/matcher.rs\<close> (\<^verbatim>\<open>normalized_sequence_match\<close>,
  \<^verbatim>\<open>try_match\<close>) and its all-occurrences form in \<^verbatim>\<open>crates/aft/src/fuzzy_match.rs\<close>
  (\<^verbatim>\<open>find_line_matches\<close>): a Knuth-Morris-Pratt scan over lines whose equality is a
  caller-supplied comparator. The inner fall-back loop is a \<^verbatim>\<open>loop\<close> over a table, so the model
  keeps it partial: \<open>None\<close> is an index panic or a loop that never breaks.

  The comparator's contract, an equivalence relation, is the locale \<open>line_comparator\<close>. Inside
  it the scan is proved to return, and to return what trying every start in turn returns.
\<close>

section \<open>The scan as the code has it\<close>

partial_function (option) kmp_advance ::
    "('a \<Rightarrow> 'a \<Rightarrow> bool) \<Rightarrow> 'a list \<Rightarrow> nat list \<Rightarrow> 'a \<Rightarrow> nat \<Rightarrow> nat option" where
  "kmp_advance compare pattern tbl x matched =
     (case nth_opt pattern matched of None \<Rightarrow> None
      | Some p \<Rightarrow>
          if compare x p then Some (matched + 1)
          else if matched = 0 then Some 0
          else (case nth_opt tbl (matched - 1) of None \<Rightarrow> None
                | Some m \<Rightarrow> kmp_advance compare pattern tbl x m))"

declare kmp_advance.simps [code]

fun kmp_fill :: "('a \<Rightarrow> 'a \<Rightarrow> bool) \<Rightarrow> 'a list \<Rightarrow> nat list \<Rightarrow> nat list \<Rightarrow> nat list option" where
  "kmp_fill compare pattern [] tbl = Some tbl"
| "kmp_fill compare pattern (i # is) tbl =
     do { m \<leftarrow> kmp_advance compare pattern tbl (pattern ! i) (tbl ! (i - 1));
          kmp_fill compare pattern is (tbl[i := m]) }"

definition kmp_table :: "('a \<Rightarrow> 'a \<Rightarrow> bool) \<Rightarrow> 'a list \<Rightarrow> nat list option" where
  "kmp_table compare pattern =
     kmp_fill compare pattern [1..<length pattern] (replicate (length pattern) 0)"

fun kmp_scan ::
    "('a \<Rightarrow> 'a \<Rightarrow> bool) \<Rightarrow> 'a list \<Rightarrow> nat list \<Rightarrow> nat \<Rightarrow> (nat \<times> 'a) list \<Rightarrow> nat option option" where
  "kmp_scan compare pattern tbl matched [] = Some None"
| "kmp_scan compare pattern tbl matched ((i, line) # rest) =
     do { m \<leftarrow> kmp_advance compare pattern tbl line matched;
          if m = length pattern then Some (Some (i + 1 - length pattern))
          else kmp_scan compare pattern tbl m rest }"

definition normalized_sequence_match ::
    "'a list \<Rightarrow> 'a list \<Rightarrow> nat \<Rightarrow> bool \<Rightarrow> ('a \<Rightarrow> 'a \<Rightarrow> bool) \<Rightarrow> nat option option" where
  "normalized_sequence_match lines pattern start_index eof compare =
     (if pattern = [] \<or> length pattern > length lines then Some None
      else if eof then
        (let start = length lines - length pattern in
         Some (if start_index \<le> start
                  \<and> list_all (\<lambda>(line, expected). compare line expected)
                      (zip (drop start lines) pattern)
               then Some start else None))
      else
        do { tbl \<leftarrow> kmp_table compare pattern;
             kmp_scan compare pattern tbl 0 (drop start_index (List.enumerate 0 lines)) })"

definition try_match ::
    "'a list \<Rightarrow> 'a list \<Rightarrow> nat \<Rightarrow> ('a \<Rightarrow> 'a \<Rightarrow> bool) \<Rightarrow> bool \<Rightarrow> nat option option" where
  "try_match lines pattern start_index compare eof =
     normalized_sequence_match lines pattern start_index eof compare"

section \<open>The specification: try every start in turn\<close>

definition matches_at :: "('a \<Rightarrow> 'a \<Rightarrow> bool) \<Rightarrow> 'a list \<Rightarrow> 'a list \<Rightarrow> nat \<Rightarrow> bool" where
  "matches_at compare lines pattern s \<longleftrightarrow>
     s + length pattern \<le> length lines
     \<and> list_all2 compare (take (length pattern) (drop s lines)) pattern"

definition first_match ::
    "('a \<Rightarrow> 'a \<Rightarrow> bool) \<Rightarrow> 'a list \<Rightarrow> 'a list \<Rightarrow> nat \<Rightarrow> bool \<Rightarrow> nat option" where
  "first_match compare lines pattern start_index eof =
     (if pattern = [] then None
      else List.find (\<lambda>s. matches_at compare lines pattern s \<and>
                          (eof \<longrightarrow> s + length pattern = length lines))
             [start_index..<length lines])"

section \<open>Borders and scan states\<close>

text \<open>
  \<open>scan_state P w k\<close>: \<open>k\<close> is the length of the longest prefix of the pattern \<open>P\<close> that is a
  suffix of the text \<open>w\<close> read so far. A failure-table entry is the scan state of the pattern
  read against itself without its first element.
\<close>

definition scan_state :: "'k list \<Rightarrow> 'k list \<Rightarrow> nat \<Rightarrow> bool" where
  "scan_state P w k \<longleftrightarrow> k \<le> length P \<and> suffix (take k P) w
     \<and> (\<forall>j \<le> length P. suffix (take j P) w \<longrightarrow> j \<le> k)"

definition failure_upto :: "'k list \<Rightarrow> nat list \<Rightarrow> nat \<Rightarrow> bool" where
  "failure_upto P tbl n \<longleftrightarrow> n \<le> length tbl \<and> (\<forall>j<n. scan_state P (tl (take (Suc j) P)) (tbl ! j))"

text \<open>The state a scan resumes from: as \<open>scan_state\<close>, but a complete match does not count.\<close>

definition proper_state :: "'k list \<Rightarrow> 'k list \<Rightarrow> nat \<Rightarrow> bool" where
  "proper_state P w m \<longleftrightarrow> m < length P \<and> suffix (take m P) w
     \<and> (\<forall>j < length P. suffix (take j P) w \<longrightarrow> j \<le> m)"

definition line_class :: "('a \<Rightarrow> 'a \<Rightarrow> bool) \<Rightarrow> 'a \<Rightarrow> 'a set" where
  "line_class compare x = {y. compare x y}"

lemma scan_state_Nil: "scan_state P [] 0"
  by (auto simp: scan_state_def)

lemma scan_state_unique: "scan_state P w k \<Longrightarrow> scan_state P w l \<Longrightarrow> k = l"
  by (auto simp: scan_state_def intro: le_antisym)

lemma scan_state_full: "scan_state P w k \<Longrightarrow> k = length P \<longleftrightarrow> suffix P w"
  unfolding scan_state_def by (metis le_antisym order_refl take_all)

lemma suffix_take_Suc:
  assumes "j < length P"
  shows "suffix (take (Suc j) P) (w @ [x]) \<longleftrightarrow> P ! j = x \<and> suffix (take j P) w"
  using assms by (auto simp: take_Suc_conv_app_nth)

lemma scan_state_extend_bound:
  assumes "scan_state P w m" and "j \<le> length P" and "suffix (take j P) (w @ [x])"
  shows "j \<le> Suc m"
proof (cases j)
  case (Suc i)
  then have "suffix (take i P) w" using assms suffix_take_Suc [of i P w x] by auto
  then show ?thesis using assms(1,2) Suc by (auto simp: scan_state_def)
qed simp

lemma failure_less:
  assumes "failure_upto P tbl n" "0 < m" "m \<le> n" "m \<le> length P"
  shows "tbl ! (m - 1) < m" and "m - 1 < length tbl"
proof -
  from assms have "suffix (take (tbl ! (m - 1)) P) (tl (take m P))" "tbl ! (m - 1) \<le> length P"
    by (auto simp: failure_upto_def scan_state_def dest!: spec [of _ "m - 1"])
  then have "tbl ! (m - 1) \<le> m - 1"
    using assms(4) by (auto dest!: suffix_length_le simp: min_def split: if_splits)
  then show "tbl ! (m - 1) < m" using assms(2) by simp
  show "m - 1 < length tbl" using assms by (auto simp: failure_upto_def)
qed

text \<open>Falling back once loses no border: every shorter match of the text is one of the table's.\<close>

lemma failure_complete:
  assumes tbl: "failure_upto P tbl n" and m: "0 < m" "m \<le> n" "m \<le> length P"
    and w: "suffix (take m P) w" and j: "suffix (take j P) w" "j < m"
  shows "j \<le> tbl ! (m - 1)"
proof -
  have st: "scan_state P (tl (take m P)) (tbl ! (m - 1))"
    using tbl m by (auto simp: failure_upto_def dest!: spec [of _ "m - 1"])
  have "suffix (take j P) (take m P)"
    using suffix_length_suffix [OF j(1) w] j(2) m(3) by simp
  moreover have "take j P \<noteq> take m P" using j(2) m(3)
    by (metis length_take min.absorb2 nat_neq_iff order.strict_implies_order order_trans)
  ultimately have "suffix (take j P) (tl (take m P))"
    by (metis suffix_ConsD2 suffix_Cons list.collapse list.sel(2) suffix_order.eq_iff)
  then show ?thesis using st j(2) m(3) by (auto simp: scan_state_def)
qed

lemma proper_state_Nil: "P \<noteq> [] \<Longrightarrow> proper_state P [] 0"
  by (auto simp: proper_state_def)

lemma proper_state_resume:
  assumes "P \<noteq> []" "failure_upto P tbl (length P)" "scan_state P w k"
  shows "proper_state P w (if k < length P then k else tbl ! (k - 1))"
proof (cases "k < length P")
  case True
  then show ?thesis using assms(3) by (auto simp: proper_state_def scan_state_def)
next
  case False
  then have k: "k = length P" "suffix (take (length P) P) w" using assms(3) by (auto simp: scan_state_def)
  let ?m = "tbl ! (length P - 1)"
  have lt: "?m < length P" using failure_less [OF assms(2), of "length P"] assms(1) by simp
  have "scan_state P (tl P) ?m"
    using assms(1,2) by (auto simp: failure_upto_def dest!: spec [of _ "length P - 1"])
  then have "suffix (take ?m P) w"
    using k(2) by (metis scan_state_def suffix_order.trans suffix_tl take_all_iff order_refl)
  moreover have "j \<le> ?m" if "j < length P" "suffix (take j P) w" for j
    using failure_complete [OF assms(2), of "length P" w j] that k(2) assms(1) by simp
  ultimately show ?thesis using k(1) lt by (simp add: proper_state_def)
qed

lemma least_zero:
  fixes B :: "nat \<Rightarrow> bool"
  assumes "B 0"
  shows "(\<exists>k<Suc n. A k \<and> B k \<and> (\<forall>k'<k. \<not> B k')) \<longleftrightarrow> A 0"
proof
  assume "\<exists>k<Suc n. A k \<and> B k \<and> (\<forall>k'<k. \<not> B k')"
  then obtain k where "A k" "\<forall>k'<k. \<not> B k'" by blast
  then show "A 0" using assms by (cases k) auto
qed (use assms in auto)

lemma find_upt:
  "List.find Q [a..<b] = Some s \<longleftrightarrow> a \<le> s \<and> s < b \<and> Q s \<and> (\<forall>s'. a \<le> s' \<and> s' < s \<longrightarrow> \<not> Q s')"
  (is "_ \<longleftrightarrow> ?R a")
proof (induction "b - a" arbitrary: a)
  case (Suc d)
  then have b: "d = b - Suc a" "a < b" by auto
  have fnd: "List.find Q [a..<b] = (if Q a then Some a else List.find Q [Suc a..<b])"
    using b(2) by (simp add: upt_conv_Cons)
  show ?case
  proof (cases "Q a")
    case True
    show ?thesis unfolding fnd if_P [OF True] option.inject
    proof (rule iffI)
      assume "?R a"
      then show "a = s" using True by (cases "a < s") auto
    qed (use True b(2) in auto)
  next
    case False
    show ?thesis unfolding fnd if_not_P [OF False] Suc.hyps(1) [OF b(1)]
    proof (rule iffI)
      assume r: "?R (Suc a)"
      have "\<not> Q s'" if "a \<le> s'" "s' < s" for s' using r False that by (cases "s' = a") auto
      then show "?R a" using r by simp
    next
      assume "?R a"
      then show "?R (Suc a)" using False by (cases "s = a") auto
    qed
  qed
qed simp

lemma first_match_Some:
  "first_match compare lines pattern start_index eof = Some s \<longleftrightarrow>
     pattern \<noteq> [] \<and> start_index \<le> s \<and> matches_at compare lines pattern s
     \<and> (eof \<longrightarrow> s + length pattern = length lines)
     \<and> (\<forall>s'. start_index \<le> s' \<and> s' < s \<longrightarrow>
          \<not> (matches_at compare lines pattern s' \<and> (eof \<longrightarrow> s' + length pattern = length lines)))"
proof -
  have len: "matches_at compare lines pattern s \<and> pattern \<noteq> [] \<Longrightarrow> s < length lines" for s
    by (cases pattern) (auto simp: matches_at_def)
  show ?thesis using len by (auto simp: first_match_def find_upt)
qed

section \<open>The comparator's contract\<close>

locale line_comparator =
  fixes compare :: "'a \<Rightarrow> 'a \<Rightarrow> bool"
  assumes compare_refl: "compare x x"
    and compare_sym: "compare x y \<Longrightarrow> compare y x"
    and compare_trans: "compare x y \<Longrightarrow> compare y z \<Longrightarrow> compare x z"
begin

lemma compare_class: "compare x y \<longleftrightarrow> line_class compare x = line_class compare y"
  using compare_refl compare_sym compare_trans unfolding line_class_def by blast

lemma list_all2_class:
  "list_all2 compare xs ys \<longleftrightarrow> map (line_class compare) xs = map (line_class compare) ys"
  by (induction xs arbitrary: ys) (auto simp: list_all2_Cons1 compare_class Cons_eq_map_conv)

lemma kmp_advance_state:
  fixes pattern :: "'a list"
  defines "P \<equiv> map (line_class compare) pattern"
  assumes tbl: "failure_upto P tbl n" and m: "m \<le> n" "m < length P" "suffix (take m P) w"
    and top: "\<forall>j \<le> length P. suffix (take j P) (w @ [line_class compare x]) \<longrightarrow> j \<le> Suc m"
  shows "\<exists>k. kmp_advance compare pattern tbl x m = Some k
             \<and> scan_state P (w @ [line_class compare x]) k"
  using m top
proof (induction m rule: less_induct)
  case (less m)
  let ?x = "line_class compare x"
  have len: "m < length pattern" using less.prems(2) by (simp add: P_def)
  have hit: "compare x (pattern ! m) \<longleftrightarrow> P ! m = ?x"
    using len by (auto simp: P_def compare_class)
  show ?case
  proof (cases "P ! m = ?x")
    case True
    then have "scan_state P (w @ [?x]) (Suc m)"
      using less.prems suffix_take_Suc [of m P w ?x] by (auto simp: scan_state_def)
    then show ?thesis using True hit len
      by (subst kmp_advance.simps) (simp add: nth_opt_def)
  next
    case miss: False
    show ?thesis
    proof (cases "m = 0")
      case True
      have "j = 0" if "j \<le> length P" "suffix (take j P) (w @ [?x])" for j
      proof (cases j)
        case (Suc i)
        then have "i = 0" using less.prems(4) that True by auto
        moreover have "P ! i = ?x" using that Suc suffix_take_Suc [of i P w ?x] by simp
        ultimately show ?thesis using miss True by simp
      qed simp
      then have "scan_state P (w @ [?x]) 0" by (auto simp: scan_state_def)
      then show ?thesis using True miss hit len
        by (subst kmp_advance.simps) (simp add: nth_opt_def)
    next
      case False
      let ?m = "tbl ! (m - 1)"
      have less: "?m < m" "m - 1 < length tbl"
        using failure_less [OF tbl, of m] False less.prems(1,2) by auto
      have suf: "suffix (take ?m P) w"
      proof -
        have "scan_state P (tl (take m P)) ?m"
          using tbl less.prems(1) False by (auto simp: failure_upto_def dest!: spec [of _ "m - 1"])
        then have "suffix (take ?m P) (take m P)"
          by (metis scan_state_def suffix_tl suffix_order.trans)
        then show ?thesis using less.prems(3) suffix_order.trans by blast
      qed
      have "\<forall>j \<le> length P. suffix (take j P) (w @ [?x]) \<longrightarrow> j \<le> Suc ?m"
      proof (intro allI impI)
        fix j assume j: "j \<le> length P" "suffix (take j P) (w @ [?x])"
        show "j \<le> Suc ?m"
        proof (cases j)
          case (Suc i)
          then have i: "P ! i = ?x" "suffix (take i P) w" using j suffix_take_Suc [of i P w ?x] by auto
          then have "i < m" using less.prems(4) j Suc miss by (metis Suc_le_mono le_neq_implies_less)
          then show ?thesis
            using failure_complete [OF tbl, of m w i] i(2) less.prems False Suc by auto
        qed simp
      qed
      then obtain k where "kmp_advance compare pattern tbl x ?m = Some k" "scan_state P (w @ [?x]) k"
        using less.IH [OF less(1)] less.prems suf less by (meson le_trans less_imp_le_nat order.strict_trans1)
      then show ?thesis using False miss hit len less(2)
        by (subst kmp_advance.simps) (simp add: nth_opt_def)
    qed
  qed
qed

lemma kmp_advance_scan_state:
  fixes pattern :: "'a list"
  defines "P \<equiv> map (line_class compare) pattern"
  assumes "failure_upto P tbl n" and "m \<le> n" "m < length P" "scan_state P w m"
  shows "\<exists>k. kmp_advance compare pattern tbl x m = Some k
             \<and> scan_state P (w @ [line_class compare x]) k"
  using assms kmp_advance_state [of pattern tbl n m w x] scan_state_extend_bound
  unfolding P_def by (metis scan_state_def)

lemma kmp_advance_proper_state:
  fixes pattern :: "'a list"
  defines "P \<equiv> map (line_class compare) pattern"
  assumes "failure_upto P tbl (length P)" and m: "proper_state P w m"
  shows "\<exists>k. kmp_advance compare pattern tbl x m = Some k
             \<and> scan_state P (w @ [line_class compare x]) k"
proof -
  have "j \<le> Suc m" if "j \<le> length P" "suffix (take j P) (w @ [line_class compare x])" for j
  proof (cases j)
    case (Suc i)
    then show ?thesis using that m suffix_take_Suc [of i P w] by (auto simp: proper_state_def)
  qed simp
  then show ?thesis using kmp_advance_state [of pattern tbl "length P" m w x] assms
    by (auto simp: proper_state_def)
qed

lemma kmp_fill_failure:
  fixes pattern :: "'a list"
  defines "P \<equiv> map (line_class compare) pattern"
  assumes "failure_upto P tbl i" "0 < i" "i \<le> length P" "length tbl = length P"
  shows "\<exists>tbl'. kmp_fill compare pattern [i..<length pattern] tbl = Some tbl'
                \<and> length tbl' = length P \<and> failure_upto P tbl' (length P)"
  using assms(2-)
proof (induction "length P - i" arbitrary: i tbl)
  case 0
  then show ?case by (auto simp: P_def)
next
  case (Suc d)
  then have i: "i < length pattern" "i < length P" by (auto simp: P_def)
  let ?w = "tl (take i P)"
  have st: "scan_state P ?w (tbl ! (i - 1))"
    using Suc.prems by (auto simp: failure_upto_def dest!: spec [of _ "i - 1"])
  have lt: "tbl ! (i - 1) < i"
    using failure_less [OF Suc.prems(1), of i] Suc.prems by auto
  have "take i P \<noteq> []" using i Suc.prems(2) by (cases P) auto
  then have w: "?w @ [line_class compare (pattern ! i)] = tl (take (Suc i) P)"
    using i by (simp add: take_Suc_conv_app_nth P_def)
  obtain m where m: "kmp_advance compare pattern tbl (pattern ! i) (tbl ! (i - 1)) = Some m"
      "scan_state P (tl (take (Suc i) P)) m"
    using kmp_advance_scan_state [of pattern tbl i "tbl ! (i - 1)" ?w "pattern ! i"]
      Suc.prems st lt i w unfolding P_def by auto
  have "failure_upto P (tbl[i := m]) (Suc i)"
    using Suc.prems i m(2) by (auto simp: failure_upto_def less_Suc_eq nth_list_update)
  moreover have "d = length P - Suc i" using Suc.hyps(2) by simp
  ultimately obtain tbl' where "kmp_fill compare pattern [Suc i..<length pattern] (tbl[i := m]) = Some tbl'"
      "length tbl' = length P" "failure_upto P tbl' (length P)"
    using Suc.hyps(1) [of "Suc i" "tbl[i := m]"] Suc.prems i by auto
  then show ?case using i m(1) by (simp add: upt_conv_Cons)
qed

lemma kmp_table_failure:
  assumes "pattern \<noteq> []"
  shows "\<exists>tbl. kmp_table compare pattern = Some tbl
               \<and> failure_upto (map (line_class compare) pattern) tbl (length pattern)"
proof -
  let ?P = "map (line_class compare) pattern"
  have "scan_state ?P (tl (take (Suc 0) ?P)) 0"
    by (cases ?P) (auto simp: scan_state_Nil)
  then have "failure_upto ?P (replicate (length pattern) 0) 1"
    using assms by (auto simp: failure_upto_def Suc_leI)
  then show ?thesis
    using kmp_fill_failure [of pattern "replicate (length pattern) 0" 1] assms
    by (auto simp: kmp_table_def Suc_leI)
qed

lemma kmp_scan_first:
  fixes pattern :: "'a list"
  defines "P \<equiv> map (line_class compare) pattern"
  assumes tbl: "failure_upto P tbl (length P)" and "m < length P" "scan_state P w m"
  shows "\<exists>r. kmp_scan compare pattern tbl m (List.enumerate i rest) = Some r \<and>
    (\<forall>s. r = Some s \<longleftrightarrow>
       (\<exists>k<length rest. s = i + k + 1 - length pattern
          \<and> suffix P (w @ map (line_class compare) (take (Suc k) rest))
          \<and> (\<forall>k'<k. \<not> suffix P (w @ map (line_class compare) (take (Suc k') rest)))))"
  using assms(3-)
proof (induction rest arbitrary: i m w)
  case Nil
  then show ?case by simp
next
  case (Cons x rest)
  let ?x = "line_class compare x"
  obtain k where k: "kmp_advance compare pattern tbl x m = Some k" "scan_state P (w @ [?x]) k"
    using kmp_advance_scan_state [of pattern tbl "length P" m w x] tbl Cons.prems
    unfolding P_def by auto
  have full: "k = length P \<longleftrightarrow> suffix P (w @ [?x])"
    using scan_state_full [OF k(2)] .
  show ?case
  proof (cases "k = length P")
    case True
    then have B0: "suffix P (w @ map (line_class compare) (take (Suc 0) (x # rest)))" using full by simp
    show ?thesis using True k(1)
        least_zero [of "\<lambda>k. suffix P (w @ map (line_class compare) (take (Suc k) (x # rest)))", OF B0]
      by (auto simp: P_def)
  next
    case False
    then have "k < length P" using k(2) by (simp add: scan_state_def)
    then obtain r where r: "kmp_scan compare pattern tbl k (List.enumerate (Suc i) rest) = Some r"
      "\<And>s. r = Some s \<longleftrightarrow>
       (\<exists>k<length rest. s = Suc i + k + 1 - length pattern
          \<and> suffix P ((w @ [?x]) @ map (line_class compare) (take (Suc k) rest))
          \<and> (\<forall>k'<k. \<not> suffix P ((w @ [?x]) @ map (line_class compare) (take (Suc k') rest))))"
      using Cons.IH [OF _ k(2), of "Suc i"] by blast
    have "r = Some s \<longleftrightarrow>
       (\<exists>k<length (x # rest). s = i + k + 1 - length pattern
          \<and> suffix P (w @ map (line_class compare) (take (Suc k) (x # rest)))
          \<and> (\<forall>k'<k. \<not> suffix P (w @ map (line_class compare) (take (Suc k') (x # rest)))))" for s
      unfolding r(2) using False full by (simp add: Ex_less_Suc2 All_less_Suc2 del: suffix_snoc)
    then show ?thesis using r(1) k(1) False by (auto simp: P_def)
  qed
qed

lemma suffix_class_matches_at:
  assumes "pattern \<noteq> []" "k < length lines - start"
  shows "suffix (map (line_class compare) pattern)
           (map (line_class compare) (take (Suc k) (drop start lines)))
         \<longleftrightarrow> length pattern \<le> Suc k \<and>
             matches_at compare lines pattern (start + Suc k - length pattern)"
proof (cases "length pattern \<le> Suc k")
  case True
  let ?n = "Suc k - length pattern"
  have n: "min (length lines - start) (Suc k) = Suc k" using assms(2) by simp
  have "suffix (map (line_class compare) pattern)
           (map (line_class compare) (take (Suc k) (drop start lines)))
        \<longleftrightarrow> map (line_class compare) (drop ?n (take (Suc k) (drop start lines)))
            = map (line_class compare) pattern"
    using True n by (simp add: ends_with_suffix [symmetric] ends_with_def drop_map)
  also have "drop ?n (take (Suc k) (drop start lines))
             = take (length pattern) (drop (start + Suc k - length pattern) lines)"
    using True by (simp add: drop_take add.commute)
  finally show ?thesis using True assms(2)
    by (auto simp: matches_at_def list_all2_class)
next
  case False
  then show ?thesis using assms(2) by (auto dest!: suffix_length_le)
qed

lemma kmp_scan_lines:
  assumes "pattern \<noteq> []"
    and tbl: "failure_upto (map (line_class compare) pattern) tbl (length pattern)"
  shows "kmp_scan compare pattern tbl 0 (List.enumerate start (drop start lines))
         = Some (first_match compare lines pattern start False)"
proof -
  let ?P = "map (line_class compare) pattern" and ?n = "length pattern"
  let ?Q = "\<lambda>k. suffix ?P (map (line_class compare) (take (Suc k) (drop start lines)))"
  obtain r where r: "kmp_scan compare pattern tbl 0 (List.enumerate start (drop start lines)) = Some r"
    "\<And>s. r = Some s \<longleftrightarrow> (\<exists>k<length lines - start. s = start + k + 1 - ?n \<and> ?Q k \<and> (\<forall>k'<k. \<not> ?Q k'))"
    using kmp_scan_first [of pattern tbl 0 "[]" start "drop start lines"] assms
    by (auto simp: scan_state_Nil)
  have Q: "?Q k \<longleftrightarrow> ?n \<le> Suc k \<and> matches_at compare lines pattern (start + Suc k - ?n)"
    if "k < length lines - start" for k
    using suffix_class_matches_at [OF assms(1) that] .
  have "r = Some s \<longleftrightarrow> first_match compare lines pattern start False = Some s" for s
  proof
    assume "r = Some s"
    then obtain k where k: "k < length lines - start" "s = start + k + 1 - ?n" "?Q k" "\<forall>k'<k. \<not> ?Q k'"
      using r(2) by blast
    have "\<not> matches_at compare lines pattern s'" if "start \<le> s'" "s' < s" for s'
    proof -
      obtain n where n: "?n = Suc n" using assms(1) by (cases pattern) auto
      let ?k = "s' - start + n"
      have "?k < k" using that k(2) Q [OF k(1)] k(3) n by simp
      then have "\<not> ?Q ?k" "?k < length lines - start" using k by auto
      then show ?thesis using Q [of ?k] n that by simp
    qed
    then show "first_match compare lines pattern start False = Some s"
      unfolding first_match_Some using k Q [OF k(1)] assms(1) by auto
  next
    assume "first_match compare lines pattern start False = Some s"
    then have s: "start \<le> s" "matches_at compare lines pattern s"
      "\<forall>s'. start \<le> s' \<and> s' < s \<longrightarrow> \<not> matches_at compare lines pattern s'"
      unfolding first_match_Some by auto
    obtain n where n: "?n = Suc n" using assms(1) by (cases pattern) auto
    let ?k = "s - start + n"
    have lt: "?k < length lines - start" using s n by (auto simp: matches_at_def)
    have "\<not> ?Q k'" if "k' < ?k" for k'
    proof -
      have "start + Suc k' - ?n < s" if "?n \<le> Suc k'" using that \<open>k' < ?k\<close> s(1) n by simp
      moreover have "start \<le> start + Suc k' - ?n" if "?n \<le> Suc k'" using that by simp
      ultimately show ?thesis using Q [of k'] that lt s(3) by auto
    qed
    then show "r = Some s" unfolding r(2) using lt Q [OF lt] s n by (intro exI [of _ ?k]) simp
  qed
  then have "r = first_match compare lines pattern start False" by (metis not_Some_eq)
  then show ?thesis using r(1) by simp
qed

lemma eof_match:
  assumes "pattern \<noteq> []" "length pattern \<le> length lines"
  shows "first_match compare lines pattern start_index True
    = (let start = length lines - length pattern in
       if start_index \<le> start
          \<and> list_all (\<lambda>(line, expected). compare line expected) (zip (drop start lines) pattern)
       then Some start else None)"
proof -
  let ?start = "length lines - length pattern"
  have "matches_at compare lines pattern ?start \<longleftrightarrow>
        list_all (\<lambda>(line, expected). compare line expected) (zip (drop ?start lines) pattern)"
    using assms(2) by (simp add: matches_at_def list_all2_iff list_all_iff)
  moreover have "first_match compare lines pattern start_index True = Some s \<longleftrightarrow>
      s = ?start \<and> start_index \<le> ?start \<and> matches_at compare lines pattern ?start" for s
  proof -
    have "s + length pattern = length lines \<longleftrightarrow> s = ?start" for s using assms(2) by auto
    then show ?thesis unfolding first_match_Some using assms by auto
  qed
  ultimately show ?thesis
    by (cases "first_match compare lines pattern start_index True") (auto simp: Let_def)
qed

lemma normalized_sequence_match_correct:
  "normalized_sequence_match lines pattern start_index eof compare
     = Some (first_match compare lines pattern start_index eof)"
proof (cases "pattern = [] \<or> length pattern > length lines")
  case True
  then have "first_match compare lines pattern start_index eof \<noteq> Some s" for s
    unfolding first_match_Some by (auto simp: matches_at_def)
  then have "first_match compare lines pattern start_index eof = None" by (meson not_Some_eq)
  then show ?thesis using True by (auto simp: normalized_sequence_match_def)
next
  case False
  then obtain tbl where "kmp_table compare pattern = Some tbl"
      "failure_upto (map (line_class compare) pattern) tbl (length pattern)"
    using kmp_table_failure by blast
  moreover have "drop start_index (List.enumerate 0 lines) = List.enumerate start_index (drop start_index lines)"
    by (cases "start_index \<le> length lines") (simp_all add: enumerate_eq_zip drop_zip)
  ultimately show ?thesis using False kmp_scan_lines [of pattern tbl start_index lines] eof_match
    by (auto simp: normalized_sequence_match_def Let_def)
qed

lemma try_match_correct:
  "try_match lines pattern start_index compare eof
     = Some (first_match compare lines pattern start_index eof)"
  by (simp add: try_match_def normalized_sequence_match_correct)

end

end
