(* ===== verification/Reflow.thy ===== *)
theory Reflow
  imports Line_Search
begin

text \<open>
  The whitespace-reflow search of \<^verbatim>\<open>crates/aft/src/patch/matcher.rs\<close>: \<^verbatim>\<open>ReflowCandidates\<close> (the
  stream built once per file, the byte-level Knuth-Morris-Pratt iterator with its two forward-only
  cursors) and \<^verbatim>\<open>find_reflow_match\<close>. The main result is the claim of the type's doc comment: the
  iterator yields exactly the line windows whose normalised text is the needle, in ascending
  order, although it never looks at a window.
\<close>

section \<open>Whitespace normalisation\<close>

text \<open>The loop of \<^verbatim>\<open>normalize_reflow_whitespace\<close>; the flag is \<^verbatim>\<open>in_whitespace\<close>.\<close>

fun collapse :: "bool \<Rightarrow> rstr \<Rightarrow> rstr" where
  "collapse in_whitespace [] = []"
| "collapse in_whitespace (ch # s) =
     (if is_whitespace ch
      then (if in_whitespace then collapse True s else SP # collapse True s)
      else ch # collapse False s)"

definition normalize_reflow_whitespace :: "rstr \<Rightarrow> rstr" where
  "normalize_reflow_whitespace input = trim (collapse False input)"

definition strip_reflow_whitespace :: "rstr \<Rightarrow> rstr" where
  "strip_reflow_whitespace input = filter (\<lambda>ch. \<not> is_whitespace ch) input"

definition has_reflow_content :: "rstr \<Rightarrow> bool" where
  "has_reflow_content input \<longleftrightarrow> list_ex (\<lambda>ch. \<not> is_whitespace ch) input"

section \<open>The candidate iterator\<close>

record reflow_candidates =
  stream :: "byte list"
  needle :: "byte list"
  failure :: "nat list"
  starts :: "(nat \<times> nat) list"
  ends :: "(nat \<times> nat) list"
  position_at :: nat
  matched :: nat
  start_cursor :: nat
  end_cursor :: nat

text \<open>One character of one line: the stream, the owed space, and the line's first and last
  offsets.\<close>

fun reflow_char ::
    "byte list \<times> bool \<times> nat option \<times> nat \<Rightarrow> uchar \<Rightarrow> byte list \<times> bool \<times> nat option \<times> nat" where
  "reflow_char (strm, owe_space, first, lst) ch =
     (if is_whitespace ch then (strm, strm \<noteq> [], first, lst)
      else
        (let strm1 = (if owe_space then strm @ [32] else strm);
             first1 = (case first of None \<Rightarrow> Some (length strm1) | Some f \<Rightarrow> Some f);
             strm2 = strm1 @ utf8_char ch
         in (strm2, False, first1, length strm2)))"

fun reflow_lines ::
    "(nat \<times> rstr) list \<Rightarrow> byte list \<times> bool \<times> (nat \<times> nat) list \<times> (nat \<times> nat) list
      \<Rightarrow> byte list \<times> (nat \<times> nat) list \<times> (nat \<times> nat) list" where
  "reflow_lines [] (strm, owe_space, ss, es) = (strm, ss, es)"
| "reflow_lines ((index, line) # rest) (strm, owe_space, ss, es) =
     (case foldl reflow_char (strm, owe_space, None, 0) line of
        (strm', _, first, lst) \<Rightarrow>
          (case first of
             Some f \<Rightarrow> reflow_lines rest (strm', strm' \<noteq> [], ss @ [(f, index)], es @ [(lst, index)])
           | None \<Rightarrow> reflow_lines rest (strm', strm' \<noteq> [], ss, es)))"

text \<open>The fall-back loop \<^verbatim>\<open>while matched > 0 && needle[matched] != byte\<close>.\<close>

partial_function (option) reflow_fall :: "byte list \<Rightarrow> nat list \<Rightarrow> byte \<Rightarrow> nat \<Rightarrow> nat option" where
  "reflow_fall ndl fail b m =
     (if m = 0 then Some m
      else (case nth_opt ndl m of None \<Rightarrow> None
            | Some c \<Rightarrow>
                if c \<noteq> b then
                  (case nth_opt fail (m - 1) of None \<Rightarrow> None | Some m' \<Rightarrow> reflow_fall ndl fail b m')
                else Some m))"

declare reflow_fall.simps [code]

definition reflow_advance :: "byte list \<Rightarrow> nat list \<Rightarrow> byte \<Rightarrow> nat \<Rightarrow> nat option" where
  "reflow_advance ndl fail b m =
     do { m \<leftarrow> reflow_fall ndl fail b m;
          c \<leftarrow> nth_opt ndl m;
          Some (if c = b then m + 1 else m) }"

fun reflow_failure :: "byte list \<Rightarrow> nat list \<Rightarrow> nat \<Rightarrow> nat list \<Rightarrow> nat list option" where
  "reflow_failure ndl [] len fail = Some fail"
| "reflow_failure ndl (index # is) len fail =
     do { len' \<leftarrow> reflow_advance ndl fail (ndl ! index) len;
          reflow_failure ndl is len' (fail[index := len']) }"

definition reflow_new :: "rstr list \<Rightarrow> rstr \<Rightarrow> reflow_candidates option" where
  "reflow_new lines needle_normalized =
     (let ndl = as_bytes needle_normalized in
      case reflow_lines (List.enumerate 0 lines) ([], False, [], []) of
        (strm, ss, es) \<Rightarrow>
          do { fail \<leftarrow> reflow_failure ndl [1..<length ndl] 0 (replicate (length ndl) 0);
               Some \<lparr>stream = strm, needle = ndl, failure = fail, starts = ss, ends = es,
                     position_at = 0, matched = 0, start_cursor = 0, end_cursor = 0\<rparr> })"

text \<open>The forward-only cursor loops: skip the entries whose offset is below the bound.\<close>

function advance_cursor :: "(nat \<times> nat) list \<Rightarrow> nat \<Rightarrow> nat \<Rightarrow> nat" where
  "advance_cursor es bound cursor =
     (if cursor < length es \<and> fst (es ! cursor) < bound
      then advance_cursor es bound (cursor + 1) else cursor)"
  by auto
termination by (relation "measure (\<lambda>(es, _, c). length es - c)") auto

declare advance_cursor.simps [simp del]

text \<open>\<^verbatim>\<open>Iterator::next\<close>: \<open>None\<close> is an index panic; otherwise the item, if any, and the new state.\<close>

function reflow_next ::
    "reflow_candidates \<Rightarrow> ((nat \<times> nat) option \<times> reflow_candidates) option" where
  "reflow_next s =
     (if needle s = [] \<or> \<not> position_at s < length (stream s) then Some (None, s)
      else
        (let b = stream s ! position_at s; pos = position_at s + 1 in
         case reflow_advance (needle s) (failure s) b (matched s) of
           None \<Rightarrow> None
         | Some m \<Rightarrow>
             if m < length (needle s) then reflow_next (s\<lparr>position_at := pos, matched := m\<rparr>)
             else
               (case nth_opt (failure s) (m - 1) of
                  None \<Rightarrow> None
                | Some m' \<Rightarrow>
                    (let end_at = pos; start = end_at - length (needle s);
                         sc = advance_cursor (starts s) start (start_cursor s);
                         ec = advance_cursor (ends s) end_at (end_cursor s);
                         s' = s\<lparr>position_at := pos, matched := m', start_cursor := sc,
                                end_cursor := ec\<rparr>
                     in case (nth_opt (starts s) sc, nth_opt (ends s) ec) of
                          (Some (first_offset, first), Some (last_offset, lst)) \<Rightarrow>
                            if first_offset \<noteq> start \<or> last_offset \<noteq> end_at then reflow_next s'
                            else Some (Some (first, lst + 1), s')
                        | _ \<Rightarrow> reflow_next s'))))"
  by auto
termination
  by (relation "measure (\<lambda>s. length (stream s) - position_at s)") auto

declare reflow_next.simps [simp del]

partial_function (option) reflow_items :: "reflow_candidates \<Rightarrow> (nat \<times> nat) list option" where
  "reflow_items s =
     do { (item, s') \<leftarrow> reflow_next s;
          case item of None \<Rightarrow> Some []
          | Some w \<Rightarrow> do { ws \<leftarrow> reflow_items s'; Some (w # ws) } }"

text \<open>The iterator run to its end.\<close>

definition reflow_windows :: "rstr list \<Rightarrow> rstr \<Rightarrow> (nat \<times> nat) list option" where
  "reflow_windows lines text = do { st \<leftarrow> reflow_new lines text; reflow_items st }"

text \<open>The loop of \<^verbatim>\<open>find_reflow_match\<close>: it leaves at the second item.\<close>

partial_function (option) reflow_unique ::
    "nat \<Rightarrow> (nat \<times> nat) option \<Rightarrow> reflow_candidates \<Rightarrow> (nat \<times> nat) option option" where
  "reflow_unique start_index first s =
     do { (item, s') \<leftarrow> reflow_next s;
          case item of None \<Rightarrow> Some first
          | Some w \<Rightarrow>
              if first \<noteq> None then Some None
              else reflow_unique start_index (Some (start_index + fst w, snd w - fst w)) s' }"

declare reflow_items.simps [code] reflow_unique.simps [code]

definition find_reflow_match :: "rstr list \<Rightarrow> rstr list \<Rightarrow> nat \<Rightarrow> (nat \<times> nat) option option" where
  "find_reflow_match lines pattern start_index =
     (let normalized_needle = normalize_reflow_whitespace (join [LF] pattern) in
      if normalized_needle = [] then Some None
      else
        (let searched = drop start_index lines in
         do { s \<leftarrow> reflow_new searched normalized_needle;
              reflow_unique start_index None s }))"

section \<open>The specification\<close>

text \<open>A window of lines and its normalised text, as the doc comment of \<^verbatim>\<open>ReflowCandidates\<close> words
  it.\<close>

definition window :: "rstr list \<Rightarrow> nat \<Rightarrow> nat \<Rightarrow> rstr list" where
  "window lines s e = take (e - s) (drop s lines)"

definition reflow_window :: "rstr list \<Rightarrow> rstr \<Rightarrow> nat \<times> nat \<Rightarrow> bool" where
  "reflow_window lines text w \<longleftrightarrow>
     (case w of (s, e) \<Rightarrow>
        s < e \<and> e \<le> length lines \<and> has_reflow_content (lines ! s) \<and> has_reflow_content (lines ! (e - 1))
        \<and> normalize_reflow_whitespace (join [LF] (window lines s e)) = text)"

section \<open>Normalisation over concatenation\<close>

lemma collapse_append:
  "collapse b (u @ v) = collapse b u @ collapse (if u = [] then b else is_whitespace (last u)) v"
  by (induction u arbitrary: b) auto

lemma collapse_content: "list_ex (\<lambda>c. \<not> is_whitespace c) (collapse b u) \<longleftrightarrow> has_reflow_content u"
  by (induction b u rule: collapse.induct) (auto simp: has_reflow_content_def is_whitespace_def)

lemma collapse_flag: "v \<noteq> [] \<Longrightarrow> \<not> is_whitespace (hd v) \<Longrightarrow> collapse b v = collapse False v"
  by (cases v) auto

lemma trim_start_append:
  "trim_start (u @ v) = (if list_ex (\<lambda>c. \<not> is_whitespace c) u then trim_start u @ v else trim_start v)"
  by (induction u) (auto simp: trim_start_def)

lemma trim_end_append:
  "trim_end (u @ v) = (if list_ex (\<lambda>c. \<not> is_whitespace c) v then u @ trim_end v else trim_end u)"
  using trim_start_append [of "rev v" "rev u"] by (simp add: trim_end_def trim_start_def list_ex_iff)

lemma collapse_last:
  "has_reflow_content u \<Longrightarrow>
     collapse b u = trim_end (collapse b u) @ (if is_whitespace (last u) then [SP] else [])"
proof (induction u arbitrary: b rule: rev_induct)
  case (snoc c u)
  have sp: "is_whitespace SP" by (simp add: is_whitespace_def)
  show ?case
  proof (cases "is_whitespace c")
    case True
    then have "has_reflow_content u" using snoc.prems by (simp add: has_reflow_content_def)
    moreover from this have "u \<noteq> []" by (auto simp: has_reflow_content_def)
    ultimately show ?thesis using snoc.IH [of b] True sp
      by (auto simp: collapse_append trim_end_append)
  next
    case False
    then show ?thesis by (auto simp: collapse_append trim_end_append trim_end_def)
  qed
qed (simp add: has_reflow_content_def)

lemma trim_start_content: "list_ex (\<lambda>c. \<not> is_whitespace c) (trim_start s) \<longleftrightarrow> list_ex (\<lambda>c. \<not> is_whitespace c) s"
  by (induction s) (auto simp: trim_start_def)

lemma trim_end_content: "list_ex (\<lambda>c. \<not> is_whitespace c) (trim_end s) \<longleftrightarrow> list_ex (\<lambda>c. \<not> is_whitespace c) s"
  using trim_start_content [of "rev s"] by (simp add: trim_end_def trim_start_def list_ex_iff)

lemma trim_end_trim_start: "trim_end (trim_start s) = trim_start (trim_end s)"
proof (cases "list_ex (\<lambda>c. \<not> is_whitespace c) s")
  case True
  then obtain a c z where "s = a @ c # z" "list_all is_whitespace a" "\<not> is_whitespace c"
    by (auto simp: list_ex_iff list_all_iff dest!: split_list_first_prop)
  then show ?thesis
    by (auto simp: trim_start_append trim_end_append list_ex_iff list_all_iff trim_start_def
      trim_end_append [of "[c]" z, simplified] trim_end_def [of "[c]"])
next
  case False
  then have "trim_start s = []" "trim_end s = []"
    by (auto simp: trim_start_def trim_end_def list_ex_iff)
  then show ?thesis by (simp only:) (simp add: trim_start_def trim_end_def)
qed

lemma normalize_Nil_iff: "normalize_reflow_whitespace u = [] \<longleftrightarrow> \<not> has_reflow_content u"
proof -
  have "list_all is_whitespace (collapse False u) \<longleftrightarrow> \<not> has_reflow_content u"
    unfolding collapse_content [of False u, symmetric] by (auto simp: list_all_iff list_ex_iff)
  then show ?thesis by (simp add: normalize_reflow_whitespace_def trim_Nil_iff)
qed

text \<open>Text that starts with a character appended to any text: the run between them is one space.\<close>

lemma normalize_append:
  assumes "v \<noteq> []" "\<not> is_whitespace (hd v)"
  shows "normalize_reflow_whitespace (u @ v) =
    normalize_reflow_whitespace u
    @ (if has_reflow_content u \<and> is_whitespace (last u) then [SP] else [])
    @ normalize_reflow_whitespace v"
proof -
  let ?U = "collapse False u" and ?V = "collapse False v"
  have app: "collapse False (u @ v) = ?U @ ?V"
    unfolding collapse_append using collapse_flag [OF assms] by metis
  have cv: "list_ex (\<lambda>c. \<not> is_whitespace c) ?V"
    unfolding collapse_content using assms by (cases v) (auto simp: has_reflow_content_def)
  have "trim_start ?V = ?V" using assms by (cases v) (auto simp: trim_start_def)
  then have nv: "normalize_reflow_whitespace v = trim_end ?V"
    by (simp add: normalize_reflow_whitespace_def trim_def)
  show ?thesis
  proof (cases "has_reflow_content u")
    case True
    then have cu: "list_ex (\<lambda>c. \<not> is_whitespace c) ?U" by (simp add: collapse_content)
    have "trim_start ?U = trim ?U @ (if is_whitespace (last u) then [SP] else [])"
    proof -
      have "list_ex (\<lambda>c. \<not> is_whitespace c) (trim_end ?U)"
        using cu by (simp add: trim_end_content)
      then show ?thesis
        by (subst collapse_last [OF True]) (simp add: trim_start_append trim_def trim_end_trim_start)
    qed
    moreover have "trim (?U @ ?V) = trim_start ?U @ trim_end ?V"
      using cu cv by (simp add: trim_def trim_start_append trim_end_append)
    ultimately show ?thesis using nv True
      by (simp add: normalize_reflow_whitespace_def app)
  next
    case False
    then have "normalize_reflow_whitespace u = []" by (simp add: normalize_Nil_iff)
    moreover have "\<not> list_ex (\<lambda>c. \<not> is_whitespace c) ?U" using False by (simp add: collapse_content)
    ultimately show ?thesis using nv False \<open>trim_start ?V = ?V\<close>
      by (simp add: normalize_reflow_whitespace_def app trim_def trim_start_append)
  qed
qed

lemma normalize_append_ws:
  assumes "list_all is_whitespace a"
  shows "normalize_reflow_whitespace (u @ a) = normalize_reflow_whitespace u"
proof -
  have "\<not> list_ex (\<lambda>c. \<not> is_whitespace c) (collapse b a)" for b
    unfolding collapse_content using assms by (auto simp: has_reflow_content_def list_ex_iff list_all_iff)
  then have "trim_end (collapse False (u @ a)) = trim_end (collapse False u)"
    by (simp add: collapse_append trim_end_append)
  then show ?thesis by (simp add: normalize_reflow_whitespace_def trim_def trim_end_trim_start)
qed

lemma normalize_ws_append:
  assumes "list_all is_whitespace a"
  shows "normalize_reflow_whitespace (a @ v) = normalize_reflow_whitespace v"
proof (induction v rule: rev_induct)
  case Nil
  then show ?case using normalize_append_ws [OF assms, of "[]"] by simp
next
  case (snoc c v)
  show ?case
  proof (cases "is_whitespace c")
    case True
    then show ?thesis using snoc normalize_append_ws [of "[c]" "a @ v"] normalize_append_ws [of "[c]" v] by simp
  next
    case False
    have "has_reflow_content (a @ v) = has_reflow_content v"
      using assms by (auto simp: has_reflow_content_def list_ex_iff list_all_iff)
    moreover have "has_reflow_content v \<Longrightarrow> last (a @ v) = last v"
      by (cases v) (auto simp: has_reflow_content_def)
    ultimately show ?thesis using normalize_append [of "[c]" "a @ v"] normalize_append [of "[c]" v]
      snoc False by auto
  qed
qed

lemma normalize_single: "\<not> is_whitespace c \<Longrightarrow> normalize_reflow_whitespace [c] = [c]"
  by (simp add: normalize_reflow_whitespace_def trim_def trim_start_def trim_end_def)

lemma normalize_mono: "prefix (normalize_reflow_whitespace u) (normalize_reflow_whitespace (u @ v))"
proof (induction v rule: rev_induct)
  case (snoc c v)
  show ?case
  proof (cases "is_whitespace c")
    case True
    then show ?thesis using snoc normalize_append_ws [of "[c]" "u @ v"] by simp
  next
    case False
    then show ?thesis using snoc normalize_append [of "[c]" "u @ v"]
      by (auto intro: prefix_order.trans)
  qed
qed simp

lemma list_all_scalar_normalize:
  "list_all is_scalar u \<Longrightarrow> list_all is_scalar (normalize_reflow_whitespace u)"
proof -
  assume u: "list_all is_scalar u"
  have "list_all is_scalar (collapse b u)" for b
    using u by (induction b u rule: collapse.induct) (auto simp: is_scalar_def)
  then show ?thesis unfolding normalize_reflow_whitespace_def list_all_iff
    using set_trim by blast
qed

section \<open>The stream and its line offsets\<close>

text \<open>The text of the first \<open>i\<close> lines with their breaks, and where line \<open>i\<close>'s content starts and
  ends in the stream.\<close>

definition text_before :: "rstr list \<Rightarrow> nat \<Rightarrow> rstr" where
  "text_before lines i = concat (map (\<lambda>l. l @ [LF]) (take i lines))"

definition stream_of :: "rstr \<Rightarrow> byte list" where
  "stream_of u = as_bytes (normalize_reflow_whitespace u)"

definition start_of :: "rstr list \<Rightarrow> nat \<Rightarrow> nat" where
  "start_of lines i =
     (if has_reflow_content (text_before lines i)
      then length (stream_of (text_before lines i)) + 1 else 0)"

definition end_of :: "rstr list \<Rightarrow> nat \<Rightarrow> nat" where
  "end_of lines i = length (stream_of (text_before lines i @ lines ! i))"

definition content_lines :: "rstr list \<Rightarrow> nat list" where
  "content_lines lines = filter (\<lambda>i. has_reflow_content (lines ! i)) [0..<length lines]"

lemma utf8_char_not_Nil [simp]: "utf8_char c \<noteq> []"
  by (simp add: utf8_char_def)

lemma as_bytes_Nil_iff [simp]: "as_bytes s = [] \<longleftrightarrow> s = []"
  by (cases s) auto

lemma utf8_char_SP [simp]: "utf8_char SP = [32]"
  by (simp add: utf8_char_def)

lemma stream_of_Nil_iff: "stream_of u = [] \<longleftrightarrow> \<not> has_reflow_content u"
  by (simp add: stream_of_def normalize_Nil_iff)

lemma stream_of_ws: "list_all is_whitespace a \<Longrightarrow> stream_of (u @ a) = stream_of u"
  by (simp add: stream_of_def normalize_append_ws)

lemma stream_of_snoc:
  "\<not> is_whitespace c \<Longrightarrow> stream_of (u @ [c]) =
     stream_of u @ (if has_reflow_content u \<and> is_whitespace (last u) then [32] else []) @ utf8_char c"
  by (simp add: stream_of_def normalize_append normalize_single)

lemma is_whitespace_LF: "is_whitespace LF"
  by (simp add: is_whitespace_def)

text \<open>The state of the character loop after the part \<open>x\<close> of the current line, \<open>u\<close> being the text
  before the line.\<close>

definition char_state :: "rstr \<Rightarrow> rstr \<Rightarrow> byte list \<times> bool \<times> nat option \<times> nat" where
  "char_state u x =
     (stream_of (u @ x), has_reflow_content (u @ x) \<and> is_whitespace (last (u @ x)),
      if has_reflow_content x
      then Some (if has_reflow_content u then length (stream_of u) + 1 else 0) else None,
      if has_reflow_content x then length (stream_of (u @ x)) else 0)"

lemma has_reflow_content_simps [simp]:
  "\<not> has_reflow_content []"
  "has_reflow_content (a @ b) \<longleftrightarrow> has_reflow_content a \<or> has_reflow_content b"
  "has_reflow_content (c # b) \<longleftrightarrow> \<not> is_whitespace c \<or> has_reflow_content b"
  by (simp_all add: has_reflow_content_def)

lemma no_content: "\<not> has_reflow_content a \<longleftrightarrow> list_all is_whitespace a"
  by (auto simp: has_reflow_content_def list_ex_iff list_all_iff)

lemma char_state_snoc:
  assumes "has_reflow_content u \<Longrightarrow> is_whitespace (last u)"
  shows "reflow_char (char_state u x) ch = char_state u (x @ [ch])"
proof (cases "is_whitespace ch")
  case True
  then have "stream_of (u @ x @ [ch]) = stream_of (u @ x)" using stream_of_ws [of "[ch]" "u @ x"] by simp
  then show ?thesis using True by (auto simp: char_state_def stream_of_Nil_iff)
next
  case False
  have str: "stream_of (u @ x @ [ch]) = stream_of (u @ x)
      @ (if has_reflow_content (u @ x) \<and> is_whitespace (last (u @ x)) then [32] else []) @ utf8_char ch"
    using stream_of_snoc [OF False, of "u @ x"] by simp
  have "stream_of (u @ x) = stream_of u" "has_reflow_content u \<Longrightarrow> is_whitespace (last (u @ x))"
    if "\<not> has_reflow_content x"
    using that assms stream_of_ws [of x u] no_content [of x]
    by (auto simp: list_all_iff last_append)
  then show ?thesis using False str
    by (auto simp: char_state_def Let_def stream_of_Nil_iff)
qed

lemma foldl_char_state:
  assumes "has_reflow_content u \<Longrightarrow> is_whitespace (last u)"
  shows "foldl reflow_char (char_state u []) x = char_state u x"
  by (induction x rule: rev_induct) (simp_all add: char_state_snoc assms)

lemma text_before_Suc: "i < length lines \<Longrightarrow> text_before lines (Suc i) = text_before lines i @ lines ! i @ [LF]"
  by (simp add: text_before_def take_Suc_conv_app_nth)

lemma text_before_last: "has_reflow_content (text_before lines i) \<Longrightarrow> is_whitespace (last (text_before lines i))"
proof (induction i)
  case (Suc i)
  then show ?case
    by (cases "i < length lines") (auto simp: text_before_Suc is_whitespace_LF, simp add: text_before_def)
qed (simp add: text_before_def)

lemma reflow_lines_spec:
  assumes "i \<le> length lines" "u = text_before lines i"
  shows "reflow_lines (List.enumerate i (drop i lines))
      (stream_of u, has_reflow_content u, ss, es) =
    (stream_of (text_before lines (length lines)),
     ss @ map (\<lambda>j. (start_of lines j, j)) (filter (\<lambda>j. has_reflow_content (lines ! j)) [i..<length lines]),
     es @ map (\<lambda>j. (end_of lines j, j)) (filter (\<lambda>j. has_reflow_content (lines ! j)) [i..<length lines]))"
  using assms
proof (induction "length lines - i" arbitrary: i u ss es)
  case 0
  then show ?case by simp
next
  case (Suc d)
  then have i: "i < length lines" "d = length lines - Suc i" by auto
  let ?x = "lines ! i" and ?u' = "text_before lines (Suc i)"
  have last_u: "has_reflow_content u \<Longrightarrow> is_whitespace (last u)"
    using text_before_last Suc.prems by blast
  have "(stream_of u, has_reflow_content u, None, 0) = char_state u []"
    using last_u by (auto simp: char_state_def)
  then have fold: "foldl reflow_char (stream_of u, has_reflow_content u, None, 0) ?x = char_state u ?x"
    using foldl_char_state [OF last_u] by simp
  have u': "?u' = u @ ?x @ [LF]" "stream_of ?u' = stream_of (u @ ?x)"
    using i Suc.prems stream_of_ws [of "[LF]" "u @ ?x"] is_whitespace_LF by (simp_all add: text_before_Suc)
  have ne: "stream_of (u @ ?x) \<noteq> [] \<longleftrightarrow> has_reflow_content ?u'"
    using u' is_whitespace_LF by (simp add: stream_of_Nil_iff)
  have cons: "List.enumerate i (drop i lines) = (i, ?x) # List.enumerate (Suc i) (drop (Suc i) lines)"
    using i by (simp add: Cons_nth_drop_Suc [symmetric])
  have upt: "[i..<length lines] = i # [Suc i..<length lines]" using i by (simp add: upt_conv_Cons)
  have offs: "start_of lines i = (if has_reflow_content u then Suc (length (stream_of u)) else 0)"
    "end_of lines i = length (stream_of (u @ ?x))"
    using Suc.prems(2) by (simp_all add: start_of_def end_of_def)
  have IH: "reflow_lines (List.enumerate (Suc i) (drop (Suc i) lines))
      (stream_of (u @ ?x), stream_of (u @ ?x) \<noteq> [], ss, es) =
    (stream_of (text_before lines (length lines)),
     ss @ map (\<lambda>j. (start_of lines j, j)) (filter (\<lambda>j. has_reflow_content (lines ! j)) [Suc i..<length lines]),
     es @ map (\<lambda>j. (end_of lines j, j)) (filter (\<lambda>j. has_reflow_content (lines ! j)) [Suc i..<length lines]))"
    for ss es
    using Suc.hyps(1) [OF i(2), of ?u' ss es] i(1) ne u'(2) by simp
  show ?case
    unfolding cons upt reflow_lines.simps fold char_state_def
    by (simp add: IH offs)
qed

lemma text_before_window:
  assumes "s \<le> l" "l < length lines"
  shows "text_before lines l @ lines ! l = text_before lines s @ join [LF] (window lines s (Suc l))"
proof -
  have "take l lines = take s lines @ take (l - s) (drop s lines)"
    using assms(1) by (metis le_add_diff_inverse take_add)
  moreover have "window lines s (Suc l) = take (l - s) (drop s lines) @ [lines ! l]"
    using assms by (simp add: window_def Suc_diff_le take_Suc_conv_app_nth)
  ultimately show ?thesis by (simp add: text_before_def concat_join [symmetric])
qed

lemma stream_of_mono: "prefix (stream_of u) (stream_of (u @ v))"
  using normalize_mono [of u v] by (auto simp: stream_of_def prefix_def)

lemma join_window_content:
  assumes "s < e" "s < length lines" "has_reflow_content (lines ! s)"
  obtains a v where "join [LF] (window lines s e) = a @ v" "list_all is_whitespace a"
    "v \<noteq> []" "\<not> is_whitespace (hd v)"
proof -
  obtain rest where "window lines s e = lines ! s # rest"
    using assms by (cases "e - s") (auto simp: window_def Cons_nth_drop_Suc [symmetric])
  then have "has_reflow_content (join [LF] (window lines s e))"
    using assms(3) by (cases rest) auto
  then obtain a c z where "join [LF] (window lines s e) = a @ c # z" "list_all is_whitespace a"
      "\<not> is_whitespace c"
    by (auto simp: has_reflow_content_def list_ex_iff list_all_iff dest!: split_list_first_prop)
  then show thesis using that [of a "c # z"] by simp
qed

text \<open>The heart of the search: a window's normalised bytes are a slice of the file's stream.\<close>

lemma stream_split:
  assumes "s \<le> l" "l < length lines" "has_reflow_content (lines ! s)"
  shows "stream_of (text_before lines l @ lines ! l) =
    stream_of (text_before lines s) @ (if has_reflow_content (text_before lines s) then [32] else [])
    @ stream_of (join [LF] (window lines s (Suc l)))"
proof -
  obtain a v where v: "join [LF] (window lines s (Suc l)) = a @ v" "list_all is_whitespace a"
    "v \<noteq> []" "\<not> is_whitespace (hd v)"
    using join_window_content [of s "Suc l" lines] assms by auto
  let ?u = "text_before lines s"
  have content: "has_reflow_content (?u @ a) \<longleftrightarrow> has_reflow_content ?u"
    using v(2) no_content by auto
  have last: "has_reflow_content ?u \<Longrightarrow> is_whitespace (last (?u @ a))"
    using v(2) text_before_last by (cases a rule: rev_cases) auto
  have "normalize_reflow_whitespace (?u @ a @ v) = normalize_reflow_whitespace ?u
      @ (if has_reflow_content ?u then [SP] else []) @ normalize_reflow_whitespace (a @ v)"
    using normalize_append [OF v(3,4), of "?u @ a"] content last
      normalize_append_ws [OF v(2), of ?u] normalize_ws_append [OF v(2), of v] by auto
  then show ?thesis unfolding text_before_window [OF assms(1,2)] v(1) stream_of_def by simp
qed

lemma end_of_le: "l < length lines \<Longrightarrow> l < s \<Longrightarrow> s \<le> length lines \<Longrightarrow>
  prefix (stream_of (text_before lines l @ lines ! l)) (stream_of (text_before lines s))"
proof -
  assume *: "l < length lines" "l < s" "s \<le> length lines"
  have "text_before lines s = text_before lines l @ lines ! l @ [LF]
      @ concat (map (\<lambda>l. l @ [LF]) (take (s - Suc l) (drop (Suc l) lines)))"
    using * take_add [of "Suc l" "s - Suc l" lines] text_before_Suc [of l lines]
    by (simp add: text_before_def take_Suc_conv_app_nth)
  then show ?thesis using stream_of_mono [of "text_before lines l @ lines ! l"] by simp
qed

lemma window_slice:
  assumes "s \<le> l" "l < length lines" "has_reflow_content (lines ! s)"
  shows "drop (start_of lines s) (take (end_of lines l) (stream_of (text_before lines (length lines))))
         = stream_of (join [LF] (window lines s (Suc l)))"
    and "start_of lines s < end_of lines l"
    and "end_of lines l \<le> length (stream_of (text_before lines (length lines)))"
proof -
  let ?T = "stream_of (text_before lines (length lines))"
  have pre: "prefix (stream_of (text_before lines l @ lines ! l)) ?T"
    using end_of_le [of l lines "length lines"] assms by simp
  then have t: "take (end_of lines l) ?T = stream_of (text_before lines l @ lines ! l)"
    by (auto simp: end_of_def prefix_def)
  have ne: "stream_of (join [LF] (window lines s (Suc l))) \<noteq> []"
    using assms join_window_content [of s "Suc l" lines] stream_of_Nil_iff
    by (metis le_imp_less_Suc le_less_trans has_reflow_content_simps(2,3) list.collapse)
  show "drop (start_of lines s) (take (end_of lines l) ?T) = stream_of (join [LF] (window lines s (Suc l)))"
    unfolding t stream_split [OF assms] by (simp add: start_of_def stream_of_Nil_iff)
  show "start_of lines s < end_of lines l"
    using ne stream_of_Nil_iff [of "text_before lines s"]
    unfolding end_of_def stream_split [OF assms] by (simp add: start_of_def)
  show "end_of lines l \<le> length ?T" using pre by (simp add: end_of_def prefix_length_le)
qed

lemma end_before_start:
  assumes "l < s" "s < length lines" "has_reflow_content (lines ! l)"
  shows "end_of lines l < start_of lines s"
proof -
  have pre: "prefix (stream_of (text_before lines l @ lines ! l)) (stream_of (text_before lines s))"
    using end_of_le assms by simp
  moreover have "stream_of (text_before lines l @ lines ! l) \<noteq> []"
    using assms(3) by (simp add: stream_of_Nil_iff)
  ultimately have "has_reflow_content (text_before lines s)"
    using stream_of_Nil_iff by (metis prefix_Nil)
  then show ?thesis using prefix_length_le [OF pre] by (simp add: start_of_def end_of_def)
qed

lemma content_lines_in [simp]:
  "i \<in> set (content_lines lines) \<longleftrightarrow> i < length lines \<and> has_reflow_content (lines ! i)"
  by (auto simp: content_lines_def)

lemma sorted_offsets:
  "sorted_wrt (<) (map fst (map (\<lambda>j. (start_of lines j, j)) (content_lines lines)))"
  "sorted_wrt (<) (map fst (map (\<lambda>j. (end_of lines j, j)) (content_lines lines)))"
proof -
  have "start_of lines i < start_of lines j \<and> end_of lines i < end_of lines j"
    if "i < j" "j < length lines" "has_reflow_content (lines ! i)" "has_reflow_content (lines ! j)" for i j
    using end_before_start [OF that(1,2,3)] window_slice(2) [of i i lines] window_slice(2) [of j j lines] that
    by simp
  moreover have "sorted_wrt (<) (content_lines lines)"
    unfolding content_lines_def by (intro sorted_wrt_filter) simp
  ultimately show "sorted_wrt (<) (map fst (map (\<lambda>j. (start_of lines j, j)) (content_lines lines)))"
    "sorted_wrt (<) (map fst (map (\<lambda>j. (end_of lines j, j)) (content_lines lines)))"
    by (auto simp: sorted_wrt_map elim!: sorted_wrt_mono_rel [rotated])
qed

section \<open>The byte scan is the line scan\<close>

interpretation byte_eq: line_comparator "(=) :: byte \<Rightarrow> byte \<Rightarrow> bool"
  by unfold_locales auto

definition decreasing :: "nat list \<Rightarrow> bool" where
  "decreasing tbl \<longleftrightarrow> (\<forall>j<length tbl. tbl ! j \<le> j)"

lemma reflow_advance_kmp:
  "decreasing tbl \<Longrightarrow> reflow_advance ndl tbl b m = kmp_advance (=) ndl tbl b m"
proof (induction m rule: less_induct)
  case (less m)
  show ?case
  proof (cases "m = 0 \<or> nth_opt ndl m = None \<or> nth_opt ndl m = Some b \<or> nth_opt tbl (m - 1) = None")
    case True
    then show ?thesis unfolding reflow_advance_def
      by (subst kmp_advance.simps, subst reflow_fall.simps) (auto split: option.splits)
  next
    case False
    then obtain c m' where c: "nth_opt ndl m = Some c" "c \<noteq> b" "nth_opt tbl (m - 1) = Some m'" "m \<noteq> 0"
      by auto
    then have "m' < m" using less.prems by (auto simp: decreasing_def nth_opt_def split: if_splits)
    then have "reflow_advance ndl tbl b m' = kmp_advance (=) ndl tbl b m'" using less by blast
    moreover have "reflow_advance ndl tbl b m = reflow_advance ndl tbl b m'"
      unfolding reflow_advance_def using c by (subst reflow_fall.simps) simp
    moreover have "kmp_advance (=) ndl tbl b m = kmp_advance (=) ndl tbl b m'"
      using c by (subst kmp_advance.simps) simp
    ultimately show ?thesis by simp
  qed
qed

lemma kmp_advance_le:
  "decreasing tbl \<Longrightarrow> kmp_advance cmp ndl tbl b m = Some k \<Longrightarrow> k \<le> Suc m"
proof (induction m rule: less_induct)
  case (less m)
  obtain p where p: "nth_opt ndl m = Some p"
    using less.prems(2) by (subst (asm) kmp_advance.simps) (auto split: option.splits)
  show ?case
  proof (cases "cmp b p \<or> m = 0")
    case True
    then show ?thesis using less.prems(2) p
      by (subst (asm) kmp_advance.simps) (auto split: if_splits)
  next
    case False
    then obtain m' where m': "nth_opt tbl (m - 1) = Some m'" "kmp_advance cmp ndl tbl b m' = Some k"
      using less.prems(2) p by (subst (asm) kmp_advance.simps) (auto split: option.splits)
    then have "m' < m" using less.prems(1) False
      by (auto simp: decreasing_def nth_opt_def split: if_splits)
    then show ?thesis using less.IH [OF _ less.prems(1) m'(2)] by simp
  qed
qed

lemma reflow_failure_kmp:
  "decreasing tbl \<Longrightarrow> 0 < i \<Longrightarrow> i \<le> length tbl \<Longrightarrow> length tbl = n \<Longrightarrow>
   reflow_failure ndl [i..<n] (tbl ! (i - 1)) tbl = kmp_fill (=) ndl [i..<n] tbl"
proof (induction "n - i" arbitrary: i tbl)
  case (Suc d)
  then have i: "i < n" "d = n - Suc i" by auto
  have step: "reflow_failure ndl [Suc i..<n] k (tbl[i := k]) = kmp_fill (=) ndl [Suc i..<n] (tbl[i := k])"
    if "kmp_advance (=) ndl tbl (ndl ! i) (tbl ! (i - 1)) = Some k" for k
  proof -
    have "k \<le> Suc (tbl ! (i - 1))" using kmp_advance_le [OF Suc.prems(1) that] .
    also have "\<dots> \<le> i" using Suc.prems i by (auto simp: decreasing_def dest!: spec [of _ "i - 1"])
    finally have "decreasing (tbl[i := k])"
      using Suc.prems i by (auto simp: decreasing_def nth_list_update)
    then show ?thesis using Suc.hyps(1) [OF i(2), of "tbl[i := k]"] Suc.prems i by simp
  qed
  then show ?case using i Suc.prems
    by (cases "kmp_advance (=) ndl tbl (ndl ! i) (tbl ! (i - 1))")
      (simp_all add: upt_conv_Cons reflow_advance_kmp)
qed simp

lemma suffix_map_inj: "inj f \<Longrightarrow> suffix (map f xs) (map f ys) \<longleftrightarrow> suffix xs ys"
proof
  assume "inj f" "suffix (map f xs) (map f ys)"
  then show "suffix xs ys"
    by (metis inj_map_eq_map map_append map_eq_append_conv suffix_def)
qed (rule map_mono_suffix)

lemma scan_state_map:
  assumes "inj f"
  shows "scan_state (map f P) (map f w) k \<longleftrightarrow> scan_state P w k"
    and "proper_state (map f P) (map f w) k \<longleftrightarrow> proper_state P w k"
    and "failure_upto (map f P) tbl n \<longleftrightarrow> failure_upto P tbl n"
proof -
  show st: "scan_state (map f P) (map f w) k \<longleftrightarrow> scan_state P w k" for P w k
    using assms by (simp add: scan_state_def take_map suffix_map_inj)
  show "proper_state (map f P) (map f w) k \<longleftrightarrow> proper_state P w k"
    using assms by (simp add: proper_state_def take_map suffix_map_inj)
  show "failure_upto (map f P) tbl n \<longleftrightarrow> failure_upto P tbl n"
    using st by (simp add: failure_upto_def take_map map_tl [symmetric])
qed

lemma inj_line_class_eq: "inj (line_class (=))"
  by (auto simp: inj_def line_class_def)

lemma failure_decreasing:
  assumes "failure_upto P tbl (length P)" "length tbl = length P"
  shows "decreasing tbl"
  unfolding decreasing_def
proof (intro allI impI)
  fix j assume "j < length tbl"
  then show "tbl ! j \<le> j" using failure_less(1) [OF assms(1), of "Suc j"] assms(2) by simp
qed

lemma kmp_fill_length: "kmp_fill cmp ndl is tbl = Some tbl' \<Longrightarrow> length tbl' = length tbl"
  by (induction "is" arbitrary: tbl) (auto split: option.splits bind_splits)

lemma reflow_failure_spec:
  assumes "ndl \<noteq> []"
  shows "\<exists>fail. reflow_failure ndl [1..<length ndl] 0 (replicate (length ndl) 0) = Some fail
    \<and> failure_upto ndl fail (length ndl) \<and> length fail = length ndl"
proof -
  obtain tbl where tbl: "kmp_table (=) ndl = Some tbl" "failure_upto ndl tbl (length ndl)"
    using byte_eq.kmp_table_failure [OF assms] by (auto simp: scan_state_map inj_line_class_eq)
  moreover have "reflow_failure ndl [1..<length ndl] 0 (replicate (length ndl) 0) = Some tbl"
    using reflow_failure_kmp [of "replicate (length ndl) 0" 1 "length ndl" ndl] tbl(1) assms
    by (simp add: decreasing_def kmp_table_def Suc_leI)
  ultimately show ?thesis
    using kmp_fill_length [of "(=)" ndl "[1..<length ndl]" "replicate (length ndl) 0" tbl] by (auto simp: kmp_table_def)
qed

lemma reflow_advance_state:
  assumes "failure_upto ndl fail (length ndl)" "length fail = length ndl" "proper_state ndl w m"
  shows "\<exists>k. reflow_advance ndl fail b m = Some k \<and> scan_state ndl (w @ [b]) k"
proof -
  let ?f = "line_class (=) :: byte \<Rightarrow> byte set"
  have "\<exists>k. kmp_advance (=) ndl fail b m = Some k \<and> scan_state (map ?f ndl) (map ?f (w @ [b])) k"
    using byte_eq.kmp_advance_proper_state [of ndl fail "map ?f w" m b] assms
    by (simp add: scan_state_map inj_line_class_eq)
  then show ?thesis
    using reflow_advance_kmp [OF failure_decreasing [OF assms(1,2)]]
    by (simp only: scan_state_map(1) [OF inj_line_class_eq])
qed

section \<open>The iterator\<close>

text \<open>What an occurrence ending at stream offset \<open>e\<close> contributes, and the items still to come
  after offset \<open>p\<close>.\<close>

definition window_at :: "reflow_candidates \<Rightarrow> nat \<Rightarrow> (nat \<times> nat) option" where
  "window_at st e =
     (if suffix (needle st) (take e (stream st)) then
        (case (map_of (starts st) (e - length (needle st)), map_of (ends st) e) of
           (Some f, Some l) \<Rightarrow> Some (f, l + 1) | _ \<Rightarrow> None)
      else None)"

definition hits_after :: "reflow_candidates \<Rightarrow> nat \<Rightarrow> (nat \<times> nat) list" where
  "hits_after st p = List.map_filter (window_at st) [Suc p..<Suc (length (stream st))]"

definition reflow_inv :: "reflow_candidates \<Rightarrow> bool" where
  "reflow_inv st \<longleftrightarrow>
     needle st \<noteq> [] \<and> position_at st \<le> length (stream st)
     \<and> failure_upto (needle st) (failure st) (length (needle st))
     \<and> length (failure st) = length (needle st)
     \<and> proper_state (needle st) (take (position_at st) (stream st)) (matched st)
     \<and> sorted_wrt (<) (map fst (starts st)) \<and> sorted_wrt (<) (map fst (ends st))
     \<and> (\<forall>j < min (start_cursor st) (length (starts st)).
          fst (starts st ! j) < position_at st - length (needle st))
     \<and> (\<forall>j < min (end_cursor st) (length (ends st)). fst (ends st ! j) < position_at st)"

definition same_search :: "reflow_candidates \<Rightarrow> reflow_candidates \<Rightarrow> bool" where
  "same_search st st' \<longleftrightarrow> stream st' = stream st \<and> needle st' = needle st \<and> starts st' = starts st
     \<and> ends st' = ends st"

lemma advance_cursor_spec:
  "\<forall>j < min c (length es). fst (es ! j) < bound \<Longrightarrow>
   (\<forall>j < min (advance_cursor es bound c) (length es). fst (es ! j) < bound)
   \<and> (advance_cursor es bound c < length es \<longrightarrow> bound \<le> fst (es ! advance_cursor es bound c))"
proof (induction es bound c rule: advance_cursor.induct)
  case (1 es bound c)
  show ?case
  proof (cases "c < length es \<and> fst (es ! c) < bound")
    case True
    then have "\<forall>j < min (c + 1) (length es). fst (es ! j) < bound"
      using "1.prems" by (auto simp: less_Suc_eq)
    then show ?thesis using "1.IH" True by (subst (1 2 3) advance_cursor.simps) auto
  next
    case False
    then show ?thesis using "1.prems" by (subst (1 2 3) advance_cursor.simps) auto
  qed
qed

lemma map_of_cursor:
  fixes es :: "(nat \<times> nat) list"
  assumes "sorted_wrt (<) (map fst es)" "\<forall>j < min c (length es). fst (es ! j) < bound"
    "c < length es \<longrightarrow> bound \<le> fst (es ! c)"
  shows "map_of es bound = (case nth_opt es c of None \<Rightarrow> None
           | Some (off, i) \<Rightarrow> if off \<noteq> bound then None else Some i)"
proof -
  have "fst x < bound" if "x \<in> set (take c es)" for x
    using that assms(2) by (auto simp: in_set_conv_nth)
  then have "bound \<notin> fst ` set (take c es)" by force
  then have "map_of (take c es) bound = None" by (simp add: map_of_eq_None_iff)
  then have t: "map_of es bound = map_of (drop c es) bound"
    using map_of_append [of "take c es" "drop c es"] by (simp add: map_add_def)
  show ?thesis
  proof (cases "c < length es")
    case True
    obtain off i where oi: "es ! c = (off, i)" by (cases "es ! c")
    have dr: "drop c es = (off, i) # drop (Suc c) es" using True oi by (simp add: Cons_nth_drop_Suc [symmetric])
    have "off < fst x" if x: "x \<in> set (drop (Suc c) es)" for x
    proof -
      obtain i where "x = es ! (Suc c + i)" "Suc c + i < length es"
        using x by (auto simp: in_set_conv_nth)
      then show ?thesis using sorted_wrt_nth_less [OF assms(1), of c "Suc c + i"] oi by simp
    qed
    then have "bound \<notin> fst ` set (drop (Suc c) es)"
      using assms(3) True oi by force
    then show ?thesis using t dr oi True by (auto simp: nth_opt_def map_of_eq_None_iff)
  next
    case False
    then show ?thesis using t by (simp add: nth_opt_def)
  qed
qed

lemma hits_after_Cons:
  "p < length (stream st) \<Longrightarrow>
   hits_after st p = (case window_at st (Suc p) of None \<Rightarrow> hits_after st (Suc p)
                      | Some w \<Rightarrow> w # hits_after st (Suc p))"
  unfolding hits_after_def
  by (subst upt_conv_Cons) (simp_all add: List.map_filter_simps split: option.splits)

lemma same_search_hits: "same_search st st' \<Longrightarrow> hits_after st' p = hits_after st p"
proof -
  assume s: "same_search st st'"
  then have "window_at st' = window_at st" by (intro ext) (simp add: same_search_def window_at_def)
  then show ?thesis using s by (simp add: same_search_def hits_after_def)
qed

text \<open>One step of the scan: the byte at the current position either completes no window or
  yields exactly the window that ends there.\<close>

definition scan_step :: "reflow_candidates \<Rightarrow> reflow_candidates \<Rightarrow> (nat \<times> nat) option \<Rightarrow> bool" where
  "scan_step st st' w \<longleftrightarrow> reflow_inv st' \<and> same_search st st' \<and> position_at st' = Suc (position_at st)
     \<and> window_at st (Suc (position_at st)) = w
     \<and> (w = None \<longrightarrow> reflow_next st = reflow_next st')
     \<and> (w \<noteq> None \<longrightarrow> reflow_next st = Some (w, st'))"

lemma scan_step_ex:
  assumes inv: "reflow_inv st" and lt: "position_at st < length (stream st)"
  shows "\<exists>st' w. scan_step st st' w"
proof -
  let ?N = "needle st" and ?p = "position_at st" and ?T = "stream st"
  let ?b = "?T ! ?p" and ?pos = "Suc ?p"
  have N: "?N \<noteq> []" and fu: "failure_upto ?N (failure st) (length ?N)" "length (failure st) = length ?N"
    using inv by (auto simp: reflow_inv_def)
  have w: "take ?p ?T @ [?b] = take ?pos ?T" using lt by (simp add: take_Suc_conv_app_nth)
  have st: "proper_state ?N (take ?p ?T) (matched st)" using inv by (simp add: reflow_inv_def)
  obtain k where k: "reflow_advance ?N (failure st) ?b (matched st) = Some k" "scan_state ?N (take ?pos ?T) k"
    using reflow_advance_state [OF fu st, of ?b] unfolding w by blast
  have full: "k = length ?N \<longleftrightarrow> suffix ?N (take ?pos ?T)"
    using scan_state_full [OF k(2)] .
  have proper: "proper_state ?N (take ?pos ?T) (if k < length ?N then k else failure st ! (k - 1))"
    using proper_state_resume [OF N fu(1) k(2)] .
  show ?thesis
  proof (cases "k < length ?N")
    case True
    let ?st = "st\<lparr>position_at := ?pos, matched := k\<rparr>"
    have "reflow_inv ?st" using inv lt proper True by (auto simp: reflow_inv_def)
    moreover have "window_at st ?pos = None" using True full by (simp add: window_at_def)
    moreover have "reflow_next st = reflow_next ?st"
      using k(1) True N lt by (subst reflow_next.simps) (simp add: Let_def)
    ultimately have "scan_step st ?st None" by (simp add: scan_step_def same_search_def)
    then show ?thesis by blast
  next
    case False
    then have kN: "k = length ?N" using k(2) by (simp add: scan_state_def)
    let ?start = "?pos - length ?N"
    let ?sc = "advance_cursor (starts st) ?start (start_cursor st)"
    let ?ec = "advance_cursor (ends st) ?pos (end_cursor st)"
    let ?m = "failure st ! (length ?N - 1)"
    let ?st = "st\<lparr>position_at := ?pos, matched := ?m, start_cursor := ?sc, end_cursor := ?ec\<rparr>"
    have "\<forall>j < min (start_cursor st) (length (starts st)). fst (starts st ! j) < ?start"
      "\<forall>j < min (end_cursor st) (length (ends st)). fst (ends st ! j) < ?pos"
      using inv by (fastforce simp: reflow_inv_def)+
    note cs = this[THEN advance_cursor_spec]
    have "reflow_inv ?st" using inv lt proper kN cs by (simp add: reflow_inv_def)
    moreover have ss: "map_of (starts st) ?start = (case nth_opt (starts st) ?sc of None \<Rightarrow> None
           | Some (off, i) \<Rightarrow> if off \<noteq> ?start then None else Some i)"
      "map_of (ends st) ?pos = (case nth_opt (ends st) ?ec of None \<Rightarrow> None
           | Some (off, i) \<Rightarrow> if off \<noteq> ?pos then None else Some i)"
      using inv cs by (auto intro!: map_of_cursor simp: reflow_inv_def)
    have "nth_opt (failure st) (k - 1) = Some ?m" using fu(2) N kN by (simp add: nth_opt_def)
    then have nx: "reflow_next st =
      (case (nth_opt (starts st) ?sc, nth_opt (ends st) ?ec) of
          (Some (first_offset, first), Some (last_offset, lst)) \<Rightarrow>
            if first_offset \<noteq> ?start \<or> last_offset \<noteq> ?pos then reflow_next ?st
            else Some (Some (first, lst + 1), ?st)
        | _ \<Rightarrow> reflow_next ?st)"
      using k(1) N lt kN by (subst reflow_next.simps) (simp add: Let_def split: option.split prod.split)
    have "suffix ?N (take ?pos ?T)" using full kN by simp
    then have "scan_step st ?st (window_at st ?pos)"
      using \<open>reflow_inv ?st\<close> unfolding scan_step_def nx
      by (auto simp: same_search_def window_at_def ss split: option.splits)
    then show ?thesis by blast
  qed
qed

lemma reflow_next_spec:
  assumes "reflow_inv st"
  shows "\<exists>item st'. reflow_next st = Some (item, st')
    \<and> (item = None \<longrightarrow> hits_after st (position_at st) = [])
    \<and> (item \<noteq> None \<longrightarrow> reflow_inv st' \<and> same_search st st' \<and> position_at st < position_at st'
         \<and> hits_after st (position_at st) = the item # hits_after st (position_at st'))"
  using assms
proof (induction "length (stream st) - position_at st" arbitrary: st rule: less_induct)
  case less
  show ?case
  proof (cases "position_at st < length (stream st)")
    case True
    obtain st' w where st': "scan_step st st' w" using scan_step_ex [OF less.prems True] by blast
    note hits = hits_after_Cons [OF True]
    show ?thesis
    proof (cases w)
      case None
      have eq: "reflow_next st = reflow_next st'" "same_search st st'" "position_at st' = Suc (position_at st)"
        "hits_after st (position_at st) = hits_after st (position_at st')"
        using st' None hits by (auto simp: scan_step_def)
      have inv': "reflow_inv st'" and dec: "length (stream st') - position_at st' < length (stream st) - position_at st"
        using st' True eq(2,3) by (simp_all add: scan_step_def same_search_def)
      obtain item st'' where IH: "reflow_next st' = Some (item, st'')"
        "item = None \<longrightarrow> hits_after st' (position_at st') = []"
        "item \<noteq> None \<longrightarrow> reflow_inv st'' \<and> same_search st' st'' \<and> position_at st' < position_at st''
         \<and> hits_after st' (position_at st') = the item # hits_after st' (position_at st'')"
        using less.hyps [OF _ inv'] dec by blast
      show ?thesis
        using IH eq same_search_hits [OF eq(2)]
        by (intro exI [of _ item] exI [of _ st'']) (auto simp: same_search_def)
    next
      case (Some x)
      then show ?thesis using st' hits by (auto simp: scan_step_def)
    qed
  next
    case False
    then have "reflow_next st = Some (None, st)" by (subst reflow_next.simps) simp
    moreover have "hits_after st (position_at st) = []" using False by (simp add: hits_after_def List.map_filter_simps)
    ultimately show ?thesis by simp
  qed
qed

lemma reflow_items_spec:
  "reflow_inv st \<Longrightarrow> reflow_items st = Some (hits_after st (position_at st))"
proof (induction "length (stream st) - position_at st" arbitrary: st rule: less_induct)
  case less
  obtain item st' where nx: "reflow_next st = Some (item, st')"
    "item = None \<longrightarrow> hits_after st (position_at st) = []"
    "item \<noteq> None \<longrightarrow> reflow_inv st' \<and> same_search st st' \<and> position_at st < position_at st'
         \<and> hits_after st (position_at st) = the item # hits_after st (position_at st')"
    using reflow_next_spec [OF less.prems] by blast
  show ?case
  proof (cases item)
    case (Some w)
    then have st': "reflow_inv st'" "same_search st st'" "position_at st < position_at st'" using nx by auto
    then have "length (stream st') - position_at st' < length (stream st) - position_at st"
      by (auto simp: reflow_inv_def same_search_def)
    then have "reflow_items st' = Some (hits_after st (position_at st'))"
      using less.hyps [OF _ st'(1)] same_search_hits [OF st'(2)] by simp
    then show ?thesis using nx Some by (subst reflow_items.simps) simp
  qed (use nx in \<open>subst reflow_items.simps, simp\<close>)
qed

lemma reflow_unique_spec:
  assumes "reflow_inv st"
  shows "reflow_unique start_index None st = Some (case hits_after st (position_at st) of
      [(a, e)] \<Rightarrow> Some (start_index + a, e - a) | _ \<Rightarrow> None)"
proof -
  have second: "reflow_unique start_index (Some w) st =
      Some (if hits_after st (position_at st) = [] then Some w else None)" if "reflow_inv st" for st w
    using reflow_next_spec [OF that] by (subst reflow_unique.simps) (auto split: option.splits)
  obtain item st' where nx: "reflow_next st = Some (item, st')"
    "item = None \<longrightarrow> hits_after st (position_at st) = []"
    "item \<noteq> None \<longrightarrow> reflow_inv st' \<and> same_search st st' \<and> position_at st < position_at st'
         \<and> hits_after st (position_at st) = the item # hits_after st (position_at st')"
    using reflow_next_spec [OF assms] by blast
  show ?thesis
  proof (cases item)
    case (Some w)
    then have h: "hits_after st (position_at st) = w # hits_after st' (position_at st')" "reflow_inv st'"
      using nx same_search_hits by auto
    show ?thesis using nx(1) Some h(1) second [OF h(2)]
      by (cases w, subst reflow_unique.simps) (simp split: list.split)
  qed (use nx in \<open>subst reflow_unique.simps, simp\<close>)
qed

section \<open>The candidates are the matching windows\<close>

abbreviation content_starts :: "rstr list \<Rightarrow> (nat \<times> nat) list" where
  "content_starts lines \<equiv> map (\<lambda>j. (start_of lines j, j)) (content_lines lines)"

abbreviation content_ends :: "rstr list \<Rightarrow> (nat \<times> nat) list" where
  "content_ends lines \<equiv> map (\<lambda>j. (end_of lines j, j)) (content_lines lines)"

lemma reflow_new_spec:
  assumes "text \<noteq> []"
  shows "\<exists>st. reflow_new lines text = Some st \<and> reflow_inv st \<and> position_at st = 0
    \<and> stream st = stream_of (text_before lines (length lines)) \<and> needle st = as_bytes text
    \<and> starts st = content_starts lines \<and> ends st = content_ends lines"
proof -
  have lines: "reflow_lines (List.enumerate 0 lines) ([], False, [], [])
      = (stream_of (text_before lines (length lines)), content_starts lines, content_ends lines)"
    using reflow_lines_spec [of 0 lines "[]" "[]" "[]"] stream_of_Nil_iff [of "[]"]
    by (simp add: text_before_def [of lines 0] content_lines_def)
  obtain fail where fail: "reflow_failure (as_bytes text) [1..<length (as_bytes text)] 0
      (replicate (length (as_bytes text)) 0) = Some fail"
    "failure_upto (as_bytes text) fail (length (as_bytes text))" "length fail = length (as_bytes text)"
    using reflow_failure_spec [of "as_bytes text"] assms by auto
  let ?st = "\<lparr>stream = stream_of (text_before lines (length lines)), needle = as_bytes text,
    failure = fail, starts = content_starts lines, ends = content_ends lines,
    position_at = 0, matched = 0, start_cursor = 0, end_cursor = 0\<rparr>"
  have "reflow_inv ?st"
    using fail assms sorted_offsets [of lines] proper_state_Nil [of "as_bytes text"]
    by (simp add: reflow_inv_def)
  moreover have "reflow_new lines text = Some ?st"
    using fail(1) by (simp add: reflow_new_def lines Let_def)
  ultimately show ?thesis by simp
qed

lemma map_of_content:
  assumes "sorted_wrt (<) (map fst (map (\<lambda>j. (g j, j)) js))"
  shows "map_of (map (\<lambda>j. (g j, j)) js) (k :: nat) = Some (i :: nat) \<longleftrightarrow> i \<in> set js \<and> g i = k"
proof -
  have "distinct (map fst (map (\<lambda>j. (g j, j)) js))"
    using assms strict_sorted_iff by blast
  then show ?thesis by (subst map_of_eq_Some_iff) auto
qed

definition search_of :: "rstr list \<Rightarrow> rstr \<Rightarrow> reflow_candidates \<Rightarrow> bool" where
  "search_of lines text st \<longleftrightarrow> text \<noteq> [] \<and> list_all is_scalar text \<and> (\<forall>l \<in> set lines. list_all is_scalar l)
    \<and> stream st = stream_of (text_before lines (length lines)) \<and> needle st = as_bytes text
    \<and> starts st = content_starts lines \<and> ends st = content_ends lines"

lemma offset_less_iff:
  assumes "i \<in> set (content_lines lines)" "j \<in> set (content_lines lines)"
  shows "start_of lines i < start_of lines j \<longleftrightarrow> i < j" and "end_of lines i < end_of lines j \<longleftrightarrow> i < j"
proof -
  have "start_of lines i < start_of lines j \<and> end_of lines i < end_of lines j"
    if "i < j" "j \<in> set (content_lines lines)" "i \<in> set (content_lines lines)" for i j
    using end_before_start [of i j lines] window_slice(2) [of i i lines] window_slice(2) [of j j lines] that
    by simp
  then show "start_of lines i < start_of lines j \<longleftrightarrow> i < j" "end_of lines i < end_of lines j \<longleftrightarrow> i < j"
    using assms by (metis less_asym linorder_neqE_nat less_irrefl)+
qed

lemma reflow_window_length:
  assumes "reflow_window lines text (s, e)"
  shows "start_of lines s + str_len text = end_of lines (e - 1)"
    and "0 < end_of lines (e - 1)"
    and "end_of lines (e - 1) \<le> length (stream_of (text_before lines (length lines)))"
proof -
  let ?T = "stream_of (text_before lines (length lines))"
  have sl: "drop (start_of lines s) (take (end_of lines (e - 1)) ?T) = as_bytes text"
    "start_of lines s < end_of lines (e - 1)" "end_of lines (e - 1) \<le> length ?T"
    using assms window_slice [of s "e - 1" lines] by (auto simp: stream_of_def reflow_window_def)
  have "length (drop (start_of lines s) (take (end_of lines (e - 1)) ?T)) = str_len text"
    by (simp only: sl(1) length_as_bytes)
  then show "start_of lines s + str_len text = end_of lines (e - 1)" using sl(2,3) by simp
  show "0 < end_of lines (e - 1)" "end_of lines (e - 1) \<le> length ?T" using sl by auto
qed

lemma window_scalar:
  assumes "\<forall>l \<in> set lines. list_all is_scalar l"
  shows "list_all is_scalar (join [LF] (window lines s e))"
proof -
  have "set (window lines s e) \<subseteq> set lines"
    unfolding window_def by (meson order_trans set_drop_subset set_take_subset)
  moreover have "is_scalar LF" by (simp add: is_scalar_def)
  ultimately show ?thesis
    using assms set_join [of "[LF]" "window lines s e"] unfolding list_all_iff by fastforce
qed

lemma window_at_spec:
  assumes st: "search_of lines text st"
  shows "window_at st e = Some (f, x) \<longleftrightarrow>
    reflow_window lines text (f, x) \<and> e = end_of lines (x - 1) \<and> start_of lines f = e - str_len text"
    (is "?L \<longleftrightarrow> ?R")
proof -
  let ?T = "stream_of (text_before lines (length lines))" and ?N = "as_bytes text"
  have T: "stream st = ?T" and N: "needle st = ?N" using st by (auto simp: search_of_def)
  have L: "?L \<longleftrightarrow> (\<exists>l. x = Suc l \<and> suffix ?N (take e ?T)
      \<and> f \<in> set (content_lines lines) \<and> start_of lines f = e - str_len text
      \<and> l \<in> set (content_lines lines) \<and> end_of lines l = e)"
  proof -
    have ss: "starts st = content_starts lines" "ends st = content_ends lines"
      using st by (simp_all add: search_of_def)
    have "map_of (starts st) k = Some i \<longleftrightarrow> i \<in> set (content_lines lines) \<and> start_of lines i = k"
      "map_of (ends st) k = Some i \<longleftrightarrow> i \<in> set (content_lines lines) \<and> end_of lines i = k" for k i
      unfolding ss by (rule map_of_content, rule sorted_offsets)+
    moreover have "?L \<longleftrightarrow> suffix ?N (take e ?T) \<and>
        (\<exists>l. x = Suc l \<and> map_of (starts st) (e - str_len text) = Some f \<and> map_of (ends st) e = Some l)"
      unfolding window_at_def T N length_as_bytes by (auto split: option.splits)
    ultimately show ?thesis by blast
  qed
  have slice: "suffix ?N (take e ?T) \<and> start_of lines f = e - str_len text \<longleftrightarrow>
      normalize_reflow_whitespace (join [LF] (window lines f (Suc l))) = text"
    if "f \<le> l" "l < length lines" "has_reflow_content (lines ! f)" "end_of lines l = e" for l
  proof -
    let ?W = "join [LF] (window lines f (Suc l))"
    have sl: "drop (start_of lines f) (take e ?T) = as_bytes (normalize_reflow_whitespace ?W)"
      "start_of lines f < e" "e \<le> length ?T"
      using window_slice [OF that(1-3)] that(4) by (simp_all add: stream_of_def)
    have inj: "as_bytes (normalize_reflow_whitespace ?W) = ?N \<longleftrightarrow> normalize_reflow_whitespace ?W = text"
      using st as_bytes_inject list_all_scalar_normalize window_scalar by (simp add: search_of_def)
    have "start_of lines f = e - str_len text \<and> suffix ?N (take e ?T)"
      if "drop (start_of lines f) (take e ?T) = ?N"
    proof -
      have "length (drop (start_of lines f) (take e ?T)) = str_len text"
        unfolding that by (rule length_as_bytes)
      moreover have "suffix ?N (take e ?T)" unfolding that [symmetric] by (rule suffix_drop)
      ultimately show ?thesis using sl(2,3) by simp
    qed
    moreover have "drop (start_of lines f) (take e ?T) = ?N"
      if "suffix ?N (take e ?T)" "start_of lines f = e - str_len text"
      using that sl(3) unfolding ends_with_suffix [symmetric] ends_with_def length_as_bytes by simp
    ultimately show ?thesis unfolding inj [symmetric] sl(1) by blast
  qed
  show ?thesis
  proof
    assume ?L
    then obtain l where l: "x = Suc l" "suffix ?N (take e ?T)" "f \<in> set (content_lines lines)"
      "start_of lines f = e - str_len text" "l \<in> set (content_lines lines)" "end_of lines l = e"
      unfolding L by blast
    have "f \<le> l" using end_before_start [of l f lines] l by (cases "f \<le> l") auto
    then show ?R using slice [of l] l by (auto simp: reflow_window_def)
  next
    assume ?R
    then show ?L unfolding L using slice [of "x - 1"]
      by (intro exI [of _ "x - 1"]) (auto simp: reflow_window_def)
  qed
qed

lemma set_map_filter: "y \<in> set (List.map_filter g xs) \<longleftrightarrow> (\<exists>x \<in> set xs. g x = Some y)"
  by (induction xs) (auto split: option.splits)

lemma sorted_wrt_map_filter:
  assumes "sorted_wrt R xs" "\<And>x y a b. R x y \<Longrightarrow> g x = Some a \<Longrightarrow> g y = Some b \<Longrightarrow> S a b"
  shows "sorted_wrt S (List.map_filter g xs)"
  using assms(1)
proof (induction xs)
  case (Cons x xs)
  then show ?case using assms(2)
    by (auto simp: set_map_filter split: option.splits) (blast intro: assms(2))
qed (simp add: List.map_filter_simps)

lemma hits_after_spec:
  assumes st: "search_of lines text st"
  shows "set (hits_after st 0) = {w. reflow_window lines text w}"
    and "sorted_wrt (\<lambda>a b. fst a < fst b \<and> snd a < snd b) (hits_after st 0)"
proof -
  let ?T = "stream_of (text_before lines (length lines))"
  have T: "stream st = ?T" using st by (simp add: search_of_def)
  have "\<exists>e. 0 < e \<and> e \<le> length ?T \<and> window_at st e = Some w" if w: "reflow_window lines text w" for w
  proof -
    obtain s e where se: "w = (s, e)" by (cases w)
    have "window_at st (end_of lines (e - 1)) = Some w"
      unfolding se window_at_spec [OF st] using w se reflow_window_length(1) [of lines "text" s e] by simp
    then show ?thesis using w se reflow_window_length(2,3) [of lines "text" s e] by blast
  qed
  moreover have "reflow_window lines text w" if "window_at st e = Some w" for e w
    using that window_at_spec [OF st] by (cases w) simp
  ultimately show "set (hits_after st 0) = {w. reflow_window lines text w}"
    unfolding hits_after_def T set_eq_iff set_map_filter by (force simp: Suc_le_eq less_Suc_eq_le)
  show "sorted_wrt (\<lambda>a b. fst a < fst b \<and> snd a < snd b) (hits_after st 0)"
    unfolding hits_after_def
  proof (rule sorted_wrt_map_filter [of "(<)"])
    fix e e' a b assume *: "e < e'" "window_at st e = Some a" "window_at st e' = Some b"
    obtain f x f' x' where fx: "a = (f, x)" "b = (f', x')" by (cases a, cases b)
    have w: "reflow_window lines text (f, x)" "e = end_of lines (x - 1)" "start_of lines f = e - str_len text"
      "reflow_window lines text (f', x')" "e' = end_of lines (x' - 1)" "start_of lines f' = e' - str_len text"
      using * fx window_at_spec [OF st] by auto
    have c: "f \<in> set (content_lines lines)" "f' \<in> set (content_lines lines)"
      "x - 1 \<in> set (content_lines lines)" "x' - 1 \<in> set (content_lines lines)" "0 < x" "0 < x'"
      using w(1,4) by (auto simp: reflow_window_def)
    have "start_of lines f < start_of lines f'"
      using reflow_window_length(1) [OF w(1)] reflow_window_length(1) [OF w(4)] w(2,5) *(1) by simp
    then have "f < f'" using offset_less_iff(1) [OF c(1,2)] by simp
    moreover have "x - 1 < x' - 1" using offset_less_iff(2) [OF c(3,4)] w(2,5) *(1) by simp
    ultimately show "fst a < fst b \<and> snd a < snd b" using fx c(5,6) by simp
  qed (rule sorted_wrt_upt)
qed

lemma reflow_windows_spec:
  assumes "text \<noteq> []" "list_all is_scalar text" "\<forall>l \<in> set lines. list_all is_scalar l"
  shows "\<exists>st ws. reflow_new lines text = Some st \<and> reflow_inv st \<and> reflow_items st = Some ws
    \<and> hits_after st (position_at st) = ws
    \<and> set ws = {w. reflow_window lines text w}
    \<and> sorted_wrt (\<lambda>a b. fst a < fst b \<and> snd a < snd b) ws"
proof -
  obtain st where st: "reflow_new lines text = Some st" "reflow_inv st" "position_at st = 0"
    "search_of lines text st"
    using reflow_new_spec [OF assms(1), of lines] assms by (auto simp: search_of_def)
  then show ?thesis using reflow_items_spec [OF st(2)] hits_after_spec [OF st(4)] by auto
qed

lemma sorted_unique_list:
  assumes "sorted_wrt (\<lambda>a b. fst a < (fst b :: nat) \<and> snd a < (snd b :: nat)) ws" "set ws = {w. P w}"
  shows "(\<exists>w. ws = [w] \<and> f w = r) \<longleftrightarrow> (\<exists>w. P w \<and> (\<forall>w'. P w' \<longrightarrow> w' = w) \<and> f w = r)"
proof
  assume "\<exists>w. ws = [w] \<and> f w = r"
  then obtain w where "ws = [w]" and r: "f w = r" by blast
  then have "P w' \<longleftrightarrow> w' = w" for w' using assms(2) unfolding set_eq_iff by (cases w') auto
  then show "\<exists>w. P w \<and> (\<forall>w'. P w' \<longrightarrow> w' = w) \<and> f w = r" using r by (intro exI [of _ w]) simp
next
  assume "\<exists>w. P w \<and> (\<forall>w'. P w' \<longrightarrow> w' = w) \<and> f w = r"
  then obtain w where w': "P w" "\<forall>w'. P w' \<longrightarrow> w' = w" "f w = r" by blast
  then have w: "set ws = {w}" "f w = r" unfolding assms(2) by auto
  have "distinct ws" using assms(1) by (induction ws) auto
  then have "length ws = 1" using w(1) distinct_card [of ws] by simp
  then have "ws = [w]" using w(1) by (cases ws) auto
  then show "\<exists>w. ws = [w] \<and> f w = r" using w(2) by blast
qed

lemma find_reflow_match_spec:
  assumes "\<forall>l \<in> set lines. list_all is_scalar l" "\<forall>p \<in> set pattern. list_all is_scalar p"
  defines "text \<equiv> normalize_reflow_whitespace (join [LF] pattern)"
  shows "\<exists>r. find_reflow_match lines pattern start_index = Some r
    \<and> (\<forall>found line_count. r = Some (found, line_count) \<longleftrightarrow>
         text \<noteq> [] \<and> (\<exists>w. reflow_window (drop start_index lines) text w
           \<and> (\<forall>w'. reflow_window (drop start_index lines) text w' \<longrightarrow> w' = w)
           \<and> (start_index + fst w, snd w - fst w) = (found, line_count)))"
proof (cases "text = []")
  case True
  then show ?thesis by (simp add: find_reflow_match_def text_def)
next
  case False
  have "list_all is_scalar (join [LF] pattern)"
    using assms(2) set_join [of "[LF]" pattern] unfolding list_all_iff
    by (auto simp: is_scalar_def dest!: subsetD)
  then have sc: "list_all is_scalar text" unfolding text_def by (rule list_all_scalar_normalize)
  have "\<forall>l \<in> set (drop start_index lines). list_all is_scalar l" using assms(1) by (meson in_set_dropD)
  then obtain st ws where st: "reflow_new (drop start_index lines) text = Some st" "reflow_inv st"
    "hits_after st (position_at st) = ws" "set ws = {w. reflow_window (drop start_index lines) text w}"
    "sorted_wrt (\<lambda>a b. fst a < fst b \<and> snd a < snd b) ws"
    using reflow_windows_spec [OF False sc] by blast
  have "find_reflow_match lines pattern start_index = Some (case ws of
      [(a, e)] \<Rightarrow> Some (start_index + a, e - a) | _ \<Rightarrow> None)"
    using False st(1) reflow_unique_spec [OF st(2)] st(3) by (simp add: find_reflow_match_def text_def Let_def)
  moreover have "(case ws of [(a, e)] \<Rightarrow> Some (start_index + a, e - a) | _ \<Rightarrow> None) = Some fl
      \<longleftrightarrow> (\<exists>w. ws = [w] \<and> (start_index + fst w, snd w - fst w) = fl)" for fl
    by (auto split: list.splits)
  ultimately show ?thesis
    using False sorted_unique_list [OF st(5,4), of "\<lambda>w. (start_index + fst w, snd w - fst w)"] by simp
qed

section \<open>Properties\<close>

text \<open>C7. The reflow iterator never looks at a window of lines, and yet it yields exactly the windows
  its doc comment promises: those that start and end with a line that has content and whose text,
  white space runs collapsed and ends trimmed, is the needle; in ascending order, each once. It
  always ends, and no index is out of range.\<close>

theorem reflow_windows_exact:
  assumes "text \<noteq> []" "list_all is_scalar text" "\<forall>l \<in> set lines. list_all is_scalar l"
  shows "\<exists>ws. reflow_windows lines text = Some ws \<and> set ws = {w. reflow_window lines text w}
    \<and> sorted_wrt (\<lambda>a b. fst a < fst b \<and> snd a < snd b) ws"
proof -
  obtain st ws where "reflow_new lines text = Some st" "reflow_items st = Some ws"
    "set ws = {w. reflow_window lines text w}" "sorted_wrt (\<lambda>a b. fst a < fst b \<and> snd a < snd b) ws"
    using reflow_windows_spec [OF assms] by blast
  then show ?thesis by (simp add: reflow_windows_def)
qed

theorem reflow_windows_exact_witness:
  "reflow_windows (map lit [''a b'', '''', '' a'', ''b'']) (lit ''a b'') = Some [(0, 1), (2, 4)]
   \<and> {w. reflow_window (map lit [''a b'', '''', '' a'', ''b'']) (lit ''a b'') w} = {(0, 1), (2, 4)}"
proof -
  let ?lines = "map lit [''a b'', '''', '' a'', ''b'']"
  have run: "reflow_windows ?lines (lit ''a b'') = Some [(0, 1), (2, 4)]" by code_simp
  have "lit ''a b'' \<noteq> []" "list_all is_scalar (lit ''a b'')" "\<forall>l \<in> set ?lines. list_all is_scalar l"
    by (simp_all add: lit_def is_scalar_def)
  from reflow_windows_exact [OF this] run have "{w. reflow_window ?lines (lit ''a b'') w} = set [(0, 1), (2, 4)]"
    by simp
  then show ?thesis using run by simp
qed

end
