(* ===== verification/Patch_Matcher.thy ===== *)
theory Patch_Matcher
  imports Reflow "HOL-Library.Product_Lexorder"
begin

text \<open>
  The tiered matcher of \<^verbatim>\<open>crates/aft/src/patch/matcher.rs\<close>: the per-line comparators, the tier
  order with its refusal of ambiguous non-exact matches, and the bounded nearest-miss search that
  words the error when nothing matches. The four comparators are instances of the contract
  \<open>line_comparator\<close>, so every tier's search is the first match in the plain sense.
\<close>

section \<open>Data\<close>

datatype match_tier = Exact | Rstrip | Trim | Indent | Unicode | Reflow

record sequence_match =
  found :: nat
  tier :: match_tier
  line_count :: nat

datatype match_error = AmbiguousNonExactMatch

record nearest_miss =
  nm_start :: nat
  nm_end :: nat
  matched_lines :: nat
  first_divergence :: nat

datatype nearest_miss_search = Found nearest_miss | NoSimilarRegion | SkippedLargeFile

definition NEAREST_MISS_MAX_FILE_BYTES :: nat where "NEAREST_MISS_MAX_FILE_BYTES = 2097152"
definition NEAREST_MISS_ANCHOR_COUNT :: nat where "NEAREST_MISS_ANCHOR_COUNT = 3"
definition NEAREST_MISS_MAX_CANDIDATES :: nat where "NEAREST_MISS_MAX_CANDIDATES = 512"
definition NEAREST_MISS_MAX_POSITIONS_PER_ANCHOR :: nat where
  "NEAREST_MISS_MAX_POSITIONS_PER_ANCHOR = 192"
definition NEAREST_MISS_MAX_LINE_COMPARISONS :: nat where
  "NEAREST_MISS_MAX_LINE_COMPARISONS = 100000"
definition NEAREST_MISS_MAX_FUZZY_CHARS :: nat where "NEAREST_MISS_MAX_FUZZY_CHARS = 256"

section \<open>Line normalisation\<close>

definition normalize_unicode :: "rstr \<Rightarrow> rstr" where
  "normalize_unicode input = concat (map (\<lambda>ch.
     if ch \<in> {0x2018, 0x2019, 0x201A, 0x201B} then lit [CHR 0x27]
     else if ch \<in> {0x201C, 0x201D, 0x201E, 0x201F} then lit [CHR 0x22]
     else if ch \<in> {0x2010, 0x2011, 0x2012, 0x2013, 0x2014, 0x2015} then lit ''-''
     else if ch = 0x2026 then lit ''...''
     else if ch = 0xA0 then [SP]
     else [ch]) input)"

text \<open>The lazy form the Unicode tier compares with.\<close>

definition unicode_characters :: "rstr \<Rightarrow> rstr" where
  "unicode_characters input = concat (map (\<lambda>ch.
     (let mapped =
        (if ch \<in> {0x2018, 0x2019, 0x201A, 0x201B} then 0x27
         else if ch \<in> {0x201C, 0x201D, 0x201E, 0x201F} then 0x22
         else if ch \<in> {0x2010, 0x2011, 0x2012, 0x2013, 0x2014, 0x2015} then 0x2D
         else if ch = 0xA0 then SP
         else ch)
      in if ch = 0x2026 then [0x2E, 0x2E, 0x2E] else [mapped])) input)"

definition normalize_indent :: "rstr \<Rightarrow> rstr" where
  "normalize_indent input =
     (let leading = takeWhile (\<lambda>ch. ch = TAB \<or> ch = SP) input in
      if leading = [] then input
      else replicate (length leading) SP @ drop (length leading) input)"

section \<open>Tiered search\<close>

definition compare_exact :: "rstr \<Rightarrow> rstr \<Rightarrow> bool" where
  "compare_exact a b \<longleftrightarrow> a = b"

definition compare_rstrip :: "rstr \<Rightarrow> rstr \<Rightarrow> bool" where
  "compare_rstrip a b \<longleftrightarrow> trim_end a = trim_end b"

definition compare_trim :: "rstr \<Rightarrow> rstr \<Rightarrow> bool" where
  "compare_trim a b \<longleftrightarrow> trim a = trim b"

text \<open>The comparator the source binds to \<^verbatim>\<open>indent\<close>.\<close>

definition compare_indent :: "rstr \<Rightarrow> rstr \<Rightarrow> bool" where
  "compare_indent a b \<longleftrightarrow> trim a = trim b"

definition compare_unicode :: "rstr \<Rightarrow> rstr \<Rightarrow> bool" where
  "compare_unicode a b \<longleftrightarrow> unicode_characters (trim a) = unicode_characters (trim b)"

definition unique_match ::
    "nat option \<Rightarrow> (nat \<Rightarrow> nat option option) \<Rightarrow> (match_error + nat option) option" where
  "unique_match first next =
     (case first of
        Some f \<Rightarrow>
          do { n \<leftarrow> next (f + 1);
               Some (if n \<noteq> None then Inl AmbiguousNonExactMatch else Inr first) }
      | None \<Rightarrow> Some (Inr first))"

text \<open>One non-exact tier: its unique match if there is one, else what the later tiers give.\<close>

definition non_exact_tier ::
    "rstr list \<Rightarrow> rstr list \<Rightarrow> nat \<Rightarrow> bool \<Rightarrow> match_tier \<Rightarrow> (rstr \<Rightarrow> rstr \<Rightarrow> bool)
      \<Rightarrow> (match_error + sequence_match option) option \<Rightarrow> (match_error + sequence_match option) option" where
  "non_exact_tier lines pattern start_index eof t compare later =
     do { first \<leftarrow> try_match lines pattern start_index compare eof;
          r \<leftarrow> unique_match first (\<lambda>next. try_match lines pattern next compare eof);
          case r of
            Inl e \<Rightarrow> Some (Inl e)
          | Inr (Some f) \<Rightarrow> Some (Inr (Some \<lparr>found = f, tier = t, line_count = length pattern\<rparr>))
          | Inr None \<Rightarrow> later }"

definition seek_sequence_tiered_checked ::
    "rstr list \<Rightarrow> rstr list \<Rightarrow> nat \<Rightarrow> bool \<Rightarrow> (match_error + sequence_match option) option" where
  "seek_sequence_tiered_checked lines pattern start_index eof =
     (if pattern = [] then Some (Inr None)
      else
        do { exact \<leftarrow> try_match lines pattern start_index compare_exact eof;
             case exact of
               Some f \<Rightarrow> Some (Inr (Some \<lparr>found = f, tier = Exact, line_count = length pattern\<rparr>))
             | None \<Rightarrow>
                 non_exact_tier lines pattern start_index eof Rstrip compare_rstrip
                 (non_exact_tier lines pattern start_index eof Trim compare_trim
                 (non_exact_tier lines pattern start_index eof Indent compare_indent
                 (non_exact_tier lines pattern start_index eof Unicode compare_unicode
                 (if eof then Some (Inr None)
                  else
                    do { r \<leftarrow> find_reflow_match lines pattern start_index;
                         Some (Inr (map_option (\<lambda>(f, n).
                           \<lparr>found = f, tier = Reflow, line_count = n\<rparr>) r)) })))) })"

definition seek_sequence_tiered ::
    "rstr list \<Rightarrow> rstr list \<Rightarrow> nat \<Rightarrow> bool \<Rightarrow> sequence_match option option" where
  "seek_sequence_tiered lines pattern start_index eof =
     do { r \<leftarrow> seek_sequence_tiered_checked lines pattern start_index eof;
          Some (case r of Inl _ \<Rightarrow> None | Inr m \<Rightarrow> m) }"

section \<open>Nearest miss\<close>

text \<open>A \<^verbatim>\<open>HashSet\<close> of start lines is a list without repetitions; the iteration order the
  source leaves open is the order of the list.\<close>

definition hash_insert :: "nat \<Rightarrow> nat list \<Rightarrow> nat list" where
  "hash_insert x xs = (if x \<in> set xs then xs else xs @ [x])"

fun add_samples :: "nat list \<Rightarrow> nat \<Rightarrow> nat \<Rightarrow> nat list \<Rightarrow> nat list \<Rightarrow> nat list option" where
  "add_samples positions wanted_offset sample_count [] candidates = Some candidates"
| "add_samples positions wanted_offset sample_count (sample # samples) candidates =
     (let position_index =
            (if sample_count = 1 then 0 else sample * (length positions - 1) div (sample_count - 1))
      in case nth_opt positions position_index of
           None \<Rightarrow> None
         | Some file_position \<Rightarrow>
             add_samples positions wanted_offset sample_count samples
               (if wanted_offset \<le> file_position
                then hash_insert (file_position - wanted_offset) candidates else candidates))"

definition add_sampled_candidates :: "nat list \<Rightarrow> nat list \<Rightarrow> nat \<Rightarrow> nat \<Rightarrow> nat list option" where
  "add_sampled_candidates candidates positions wanted_offset candidate_limit =
     (let remaining = candidate_limit - length candidates;
          sample_count = min (min (length positions) NEAREST_MISS_MAX_POSITIONS_PER_ANCHOR) remaining
      in if sample_count = 0 then Some candidates
         else add_samples positions wanted_offset sample_count [0..<sample_count] candidates)"

definition score_nearest_miss :: "rstr list \<Rightarrow> rstr list \<Rightarrow> nat \<Rightarrow> nearest_miss" where
  "score_nearest_miss lines pattern start =
     (let matches = (\<lambda>(offset, expected).
            case nth_opt lines (start + offset) of
              Some actual \<Rightarrow> trim actual = trim expected | None \<Rightarrow> False)
      in \<lparr>nm_start = start,
          nm_end = min (start + length pattern) (length lines),
          matched_lines = length (filter matches (List.enumerate 0 pattern)),
          first_divergence =
            (case List.find (\<lambda>oe. \<not> matches oe) (List.enumerate 0 pattern) of
               Some (offset, _) \<Rightarrow> offset | None \<Rightarrow> length pattern)\<rparr>)"

definition is_better_nearest_miss :: "nearest_miss \<Rightarrow> nearest_miss \<Rightarrow> bool" where
  "is_better_nearest_miss candidate current \<longleftrightarrow>
     matched_lines candidate > matched_lines current
     \<or> (matched_lines candidate = matched_lines current
        \<and> (first_divergence candidate > first_divergence current
           \<or> (first_divergence candidate = first_divergence current
              \<and> nm_start candidate < nm_start current)))"

definition best_scored_candidate :: "rstr list \<Rightarrow> rstr list \<Rightarrow> nat list \<Rightarrow> nearest_miss option" where
  "best_scored_candidate lines pattern candidates =
     foldl (\<lambda>best candidate.
        case best of
          Some current \<Rightarrow>
            if \<not> is_better_nearest_miss candidate current then Some current else Some candidate
        | None \<Rightarrow> Some candidate)
       None (map (score_nearest_miss lines pattern) (filter (\<lambda>start. start < length lines) candidates))"

definition normalize_fuzzy_line :: "rstr \<Rightarrow> rstr" where
  "normalize_fuzzy_line line = normalize_unicode (normalize_reflow_whitespace line)"

definition normalized_prefix_score :: "rstr \<Rightarrow> rstr \<Rightarrow> nat option" where
  "normalized_prefix_score normalized_wanted actual =
     (let actual = normalize_fuzzy_line actual;
          wanted_len = length (take NEAREST_MISS_MAX_FUZZY_CHARS normalized_wanted)
      in if wanted_len < 4 then None
         else
           (let common = length (takeWhile (\<lambda>(w, a). w = a)
                  (take NEAREST_MISS_MAX_FUZZY_CHARS (zip normalized_wanted actual)))
            in if common \<ge> 4 \<and> common * 2 \<ge> wanted_len then Some common else None))"

definition trimmed_lines :: "rstr list \<Rightarrow> (nat \<times> rstr) list" where
  "trimmed_lines pattern =
     filter (\<lambda>(_, line). line \<noteq> []) (map (\<lambda>(offset, line). (offset, trim line)) (List.enumerate 0 pattern))"

text \<open>The key's middle part is \<^verbatim>\<open>Reverse(line.chars().count())\<close>: longer lines come first.\<close>

definition rarest_wanted_line :: "rstr list \<Rightarrow> (nat \<times> rstr) option" where
  "rarest_wanted_line pattern =
     (let frequency = (\<lambda>line. length (filter (\<lambda>l. l = line) (map snd (trimmed_lines pattern))));
          longest = Max (insert 0 (set (map (\<lambda>(_, line). length line) (trimmed_lines pattern))))
      in min_by_key (\<lambda>(offset, line). (frequency line, longest - length line, offset))
           (trimmed_lines pattern))"

definition line_positions :: "rstr list \<Rightarrow> rstr \<Rightarrow> nat list" where
  "line_positions lines wanted =
     map fst (filter (\<lambda>(_, line). line = wanted) (trimmed_lines lines))"

definition candidate_limit_for :: "rstr list \<Rightarrow> nat" where
  "candidate_limit_for pattern =
     min NEAREST_MISS_MAX_CANDIDATES
       (max (NEAREST_MISS_MAX_LINE_COMPARISONS div max (length pattern) 1) 1)"

fun add_anchors :: "nat \<Rightarrow> (nat \<times> nat list) list \<Rightarrow> nat list \<Rightarrow> nat list option" where
  "add_anchors candidate_limit [] candidates = Some candidates"
| "add_anchors candidate_limit ((wanted_offset, positions) # anchors) candidates =
     do { candidates \<leftarrow> add_sampled_candidates candidates positions wanted_offset candidate_limit;
          if length candidates \<ge> candidate_limit then Some candidates
          else add_anchors candidate_limit anchors candidates }"

fun fuzzy_candidates ::
    "nat \<Rightarrow> rstr \<Rightarrow> nat \<Rightarrow> (nat \<times> rstr) list \<Rightarrow> nat \<Rightarrow> nat list \<Rightarrow> nat list" where
  "fuzzy_candidates wanted_offset normalized_wanted candidate_limit [] best_prefix candidates = candidates"
| "fuzzy_candidates wanted_offset normalized_wanted candidate_limit ((file_position, actual_line) # rest)
     best_prefix candidates =
     (if \<not> wanted_offset \<le> file_position then
        fuzzy_candidates wanted_offset normalized_wanted candidate_limit rest best_prefix candidates
      else
        (case normalized_prefix_score normalized_wanted actual_line of
           None \<Rightarrow>
             fuzzy_candidates wanted_offset normalized_wanted candidate_limit rest best_prefix candidates
         | Some prefix_score \<Rightarrow>
             (let start = file_position - wanted_offset;
                  cleared = (if prefix_score > best_prefix then [] else candidates);
                  best = (if prefix_score > best_prefix then prefix_score else best_prefix)
              in fuzzy_candidates wanted_offset normalized_wanted candidate_limit rest best
                   (if prefix_score = best \<and> length cleared < candidate_limit
                    then hash_insert start cleared else cleared))))"

definition anchor_positions :: "rstr list \<Rightarrow> rstr list \<Rightarrow> (nat \<times> nat list) list" where
  "anchor_positions lines pattern =
     sort_key (\<lambda>(offset, positions). (length positions, offset))
       (filter (\<lambda>(_, positions). positions \<noteq> [])
         (map (\<lambda>(offset, line). (offset, line_positions lines line))
           (take NEAREST_MISS_ANCHOR_COUNT (trimmed_lines pattern))))"

definition find_nearest_miss :: "rstr list \<Rightarrow> rstr list \<Rightarrow> nat \<Rightarrow> nearest_miss_search option" where
  "find_nearest_miss lines pattern file_size_bytes =
     (if file_size_bytes > NEAREST_MISS_MAX_FILE_BYTES then Some SkippedLargeFile
      else if lines = [] \<or> pattern = [] then Some NoSimilarRegion
      else
        (let candidate_limit = candidate_limit_for pattern in
         do { candidates \<leftarrow> add_anchors candidate_limit (anchor_positions lines pattern) [];
              Some (case best_scored_candidate lines pattern candidates of
                Some best \<Rightarrow> Found best
              | None \<Rightarrow>
                  (case rarest_wanted_line pattern of
                     None \<Rightarrow> NoSimilarRegion
                   | Some (wanted_offset, wanted_line) \<Rightarrow>
                       (case best_scored_candidate lines pattern
                          (fuzzy_candidates wanted_offset (normalize_fuzzy_line wanted_line)
                             candidate_limit (List.enumerate 0 lines) 0 []) of
                          Some best \<Rightarrow> Found best | None \<Rightarrow> NoSimilarRegion))) }))"

section \<open>The tiers' comparators\<close>

lemmas compare_defs = compare_exact_def compare_rstrip_def compare_trim_def compare_indent_def
  compare_unicode_def

interpretation exact: line_comparator compare_exact
  by unfold_locales (auto simp: compare_defs)

interpretation rstrip: line_comparator compare_rstrip
  by unfold_locales (auto simp: compare_defs)

interpretation trim: line_comparator compare_trim
  by unfold_locales (auto simp: compare_defs)

interpretation indent: line_comparator compare_indent
  by unfold_locales (auto simp: compare_defs)

interpretation unicode: line_comparator compare_unicode
  by unfold_locales (auto simp: compare_defs)

text \<open>The comparator of a tier. The reflow tier compares windows, not lines.\<close>

fun tier_compare :: "match_tier \<Rightarrow> rstr \<Rightarrow> rstr \<Rightarrow> bool" where
  "tier_compare Exact = compare_exact"
| "tier_compare Rstrip = compare_rstrip"
| "tier_compare Trim = compare_trim"
| "tier_compare Indent = compare_indent"
| "tier_compare Unicode = compare_unicode"
| "tier_compare Reflow = (\<lambda>_ _. False)"

definition tier_matches :: "rstr list \<Rightarrow> rstr list \<Rightarrow> nat \<Rightarrow> bool \<Rightarrow> match_tier \<Rightarrow> nat set" where
  "tier_matches lines pattern start_index eof t =
     {s. start_index \<le> s \<and> matches_at (tier_compare t) lines pattern s
         \<and> (eof \<longrightarrow> s + length pattern = length lines)}"

lemma try_match_tier:
  assumes "pattern \<noteq> []" "t \<noteq> Reflow"
  obtains "try_match lines pattern start_index (tier_compare t) eof = Some None"
      "tier_matches lines pattern start_index eof t = {}"
  | f where "try_match lines pattern start_index (tier_compare t) eof = Some (Some f)"
      "f \<in> tier_matches lines pattern start_index eof t"
      "\<And>s. s \<in> tier_matches lines pattern start_index eof t \<Longrightarrow> f \<le> s"
proof -
  have tm: "try_match lines pattern start_index (tier_compare t) eof
      = Some (first_match (tier_compare t) lines pattern start_index eof)"
    using assms(2) by (cases t)
      (simp_all add: exact.try_match_correct rstrip.try_match_correct trim.try_match_correct
        indent.try_match_correct unicode.try_match_correct)
  show thesis
  proof (cases "first_match (tier_compare t) lines pattern start_index eof")
    case None
    have "s \<notin> tier_matches lines pattern start_index eof t" for s
    proof
      assume s: "s \<in> tier_matches lines pattern start_index eof t"
      then have "s < length lines" using assms(1) by (cases pattern) (auto simp: tier_matches_def matches_at_def)
      then show False using None s assms(1)
        by (auto simp: first_match_def find_None_iff tier_matches_def)
    qed
    then show thesis using that(1) tm None by auto
  next
    case (Some f)
    then have "f \<in> tier_matches lines pattern start_index eof t"
      "\<forall>s'. start_index \<le> s' \<and> s' < f \<longrightarrow> s' \<notin> tier_matches lines pattern start_index eof t"
      unfolding first_match_Some tier_matches_def by auto
    then show thesis using that(2) [of f] tm Some by (force simp: tier_matches_def)
  qed
qed

text \<open>The outcome of one non-exact tier, by the number of places it matches.\<close>

lemma non_exact_tier_cases:
  fixes lines pattern :: "rstr list" and start_index :: nat and eof :: bool
  assumes "pattern \<noteq> []" "t \<noteq> Reflow"
  defines "M \<equiv> tier_matches lines pattern start_index eof t"
  obtains "M = {}" "non_exact_tier lines pattern start_index eof t (tier_compare t) later = later"
  | f where "M = {f}" "non_exact_tier lines pattern start_index eof t (tier_compare t) later
        = Some (Inr (Some \<lparr>found = f, tier = t, line_count = length pattern\<rparr>))"
  | f g where "f \<in> M" "g \<in> M" "f \<noteq> g" "non_exact_tier lines pattern start_index eof t (tier_compare t) later
        = Some (Inl AmbiguousNonExactMatch)"
proof (rule try_match_tier [OF assms(1,2), of lines start_index eof])
  assume "try_match lines pattern start_index (tier_compare t) eof = Some None"
    "tier_matches lines pattern start_index eof t = {}"
  then show thesis using that(1) by (simp add: M_def non_exact_tier_def unique_match_def)
next
  fix f assume f: "try_match lines pattern start_index (tier_compare t) eof = Some (Some f)"
    "f \<in> tier_matches lines pattern start_index eof t"
    "\<And>s. s \<in> tier_matches lines pattern start_index eof t \<Longrightarrow> f \<le> s"
  have le: "start_index \<le> f" using f(2) by (simp add: tier_matches_def)
  have sub: "s \<in> tier_matches lines pattern (f + 1) eof t \<longleftrightarrow> s \<in> M \<and> f < s" for s
  proof -
    have "f + 1 \<le> s \<longleftrightarrow> start_index \<le> s \<and> f < s" using le by auto
    then show ?thesis unfolding tier_matches_def M_def mem_Collect_eq by blast
  qed
  show thesis
  proof (rule try_match_tier [OF assms(1,2), of lines "f + 1" eof])
    assume *: "try_match lines pattern (f + 1) (tier_compare t) eof = Some None"
      "tier_matches lines pattern (f + 1) eof t = {}"
    have "s = f" if "s \<in> M" for s
      using f(3) [of s] sub [of s] *(2) that unfolding M_def by auto
    then have "M = {f}" using f(2) unfolding M_def by blast
    then show thesis using that(2) * f(1) by (simp add: non_exact_tier_def unique_match_def)
  next
    fix g assume *: "try_match lines pattern (f + 1) (tier_compare t) eof = Some (Some g)"
      "g \<in> tier_matches lines pattern (f + 1) eof t"
    then show thesis using that(3) [of f g] f(1,2) sub unfolding M_def
      by (simp add: non_exact_tier_def unique_match_def)
  qed
qed

section \<open>What the tiered search returns\<close>

fun tier_rank :: "match_tier \<Rightarrow> nat" where
  "tier_rank Exact = 0" | "tier_rank Rstrip = 1" | "tier_rank Trim = 2" | "tier_rank Indent = 3"
| "tier_rank Unicode = 4" | "tier_rank Reflow = 5"

lemma tiers_before:
  "[Rstrip, Trim, Indent, Unicode] = us @ t # vs \<Longrightarrow> tier_rank u < tier_rank t \<Longrightarrow> u = Exact \<or> u \<in> set us"
  by (cases u) (auto simp: Cons_eq_append_conv)

lemma indent_shadowed:
  "tier_matches lines pattern start_index eof Indent = tier_matches lines pattern start_index eof Trim"
proof -
  have "compare_indent = compare_trim" by (intro ext) (simp add: compare_defs)
  then show ?thesis by (simp add: tier_matches_def)
qed

definition reflow_result :: "rstr list \<Rightarrow> rstr list \<Rightarrow> nat \<Rightarrow> (match_error + sequence_match option) option" where
  "reflow_result lines pattern start_index =
     do { r \<leftarrow> find_reflow_match lines pattern start_index;
          Some (Inr (map_option (\<lambda>(f, n). \<lparr>found = f, tier = Reflow, line_count = n\<rparr>) r)) }"

text \<open>A tier that matches settles the search: with its match if that is the only one.\<close>

definition tier_settles ::
    "rstr list \<Rightarrow> rstr list \<Rightarrow> nat \<Rightarrow> bool \<Rightarrow> match_tier \<Rightarrow> (match_error + sequence_match option) option \<Rightarrow> bool" where
  "tier_settles lines pattern start_index eof t r \<longleftrightarrow>
     (\<exists>f. tier_matches lines pattern start_index eof t = {f}
         \<and> r = Some (Inr (Some \<lparr>found = f, tier = t, line_count = length pattern\<rparr>)))
     \<or> (\<exists>f \<in> tier_matches lines pattern start_index eof t. \<exists>g \<in> tier_matches lines pattern start_index eof t.
         f \<noteq> g \<and> r = Some (Inl AmbiguousNonExactMatch))"

lemma tier_chain:
  fixes lines pattern :: "rstr list" and start_index :: nat and eof :: bool
  assumes "pattern \<noteq> []" "Reflow \<notin> set ts"
  defines "run \<equiv> foldr (\<lambda>t. non_exact_tier lines pattern start_index eof t (tier_compare t))"
  shows "(\<exists>us t vs. ts = us @ t # vs \<and> (\<forall>u \<in> set us. tier_matches lines pattern start_index eof u = {})
            \<and> tier_matches lines pattern start_index eof t \<noteq> {}
            \<and> tier_settles lines pattern start_index eof t (run ts later))
    \<or> (\<forall>u \<in> set ts. tier_matches lines pattern start_index eof u = {}) \<and> run ts later = later"
  using assms(2)
proof (induction ts)
  case Nil
  then show ?case by (simp add: run_def)
next
  case (Cons t ts)
  let ?M = "tier_matches lines pattern start_index eof"
  have t: "t \<noteq> Reflow" "run (t # ts) later = non_exact_tier lines pattern start_index eof t (tier_compare t) (run ts later)"
    using Cons.prems by (auto simp: run_def)
  show ?case
  proof (rule non_exact_tier_cases [OF assms(1) t(1), of lines start_index eof "run ts later", folded t(2)])
    assume e: "?M t = {}" "run (t # ts) later = run ts later"
    have "Reflow \<notin> set ts" using Cons.prems by simp
    from Cons.IH [OF this] show ?thesis
    proof (elim disjE exE conjE)
      fix us t' vs assume "ts = us @ t' # vs" "\<forall>u \<in> set us. ?M u = {}" "?M t' \<noteq> {}"
        "tier_settles lines pattern start_index eof t' (run ts later)"
      then show ?thesis using e
        by (intro disjI1 exI [of _ "t # us"] exI [of _ t'] exI [of _ vs]) simp
    qed (use e in simp)
  next
    fix f assume "?M t = {f}" "run (t # ts) later =
      Some (Inr (Some \<lparr>found = f, tier = t, line_count = length pattern\<rparr>))"
    then show ?thesis by (intro disjI1 exI [of _ "[]"] exI [of _ t] exI [of _ ts]) (simp add: tier_settles_def)
  next
    fix f g assume "f \<in> ?M t" "g \<in> ?M t" "f \<noteq> g" "run (t # ts) later = Some (Inl AmbiguousNonExactMatch)"
    then show ?thesis
      by (intro disjI1 exI [of _ "[]"] exI [of _ t] exI [of _ ts]) (auto simp: tier_settles_def)
  qed
qed

text \<open>The first tier with a match, none of the tiers before it having one.\<close>

definition settling_tier :: "rstr list \<Rightarrow> rstr list \<Rightarrow> nat \<Rightarrow> bool \<Rightarrow> match_tier \<Rightarrow> bool" where
  "settling_tier lines pattern start_index eof t \<longleftrightarrow>
     tier_matches lines pattern start_index eof t \<noteq> {}
     \<and> (\<forall>u. tier_rank u < tier_rank t \<longrightarrow> tier_matches lines pattern start_index eof u = {})"

lemma settling_unique:
  assumes "settling_tier lines pattern start_index eof t" "settling_tier lines pattern start_index eof u"
  shows "t = u"
proof -
  have "\<not> tier_rank t < tier_rank u" "\<not> tier_rank u < tier_rank t"
    using assms unfolding settling_tier_def by blast+
  then have "tier_rank t = tier_rank u" by simp
  then show ?thesis by (cases t; cases u) simp_all
qed

lemma seek_outcome:
  fixes lines pattern :: "rstr list" and start_index :: nat and eof :: bool
  defines "M \<equiv> tier_matches lines pattern start_index eof"
    and "seek \<equiv> seek_sequence_tiered_checked lines pattern start_index eof"
  assumes "pattern \<noteq> []"
  obtains (Exact) f where "f \<in> M Exact" "\<And>s. s \<in> M Exact \<Longrightarrow> f \<le> s"
      "seek = Some (Inr (Some \<lparr>found = f, tier = Exact, line_count = length pattern\<rparr>))"
  | (Settled) t where "t \<in> {Rstrip, Trim, Unicode}" "settling_tier lines pattern start_index eof t"
      "tier_settles lines pattern start_index eof t seek"
  | (Last) "\<forall>u. u \<noteq> Reflow \<longrightarrow> M u = {}"
      "seek = (if eof then Some (Inr None) else reflow_result lines pattern start_index)"
proof (rule try_match_tier [OF assms(3), of Exact lines start_index eof])
  fix f assume f: "try_match lines pattern start_index (tier_compare Exact) eof = Some (Some f)"
    "f \<in> tier_matches lines pattern start_index eof Exact"
    "\<And>s. s \<in> tier_matches lines pattern start_index eof Exact \<Longrightarrow> f \<le> s"
  then show thesis using Exact [of f] assms(3)
    by (simp add: M_def seek_def seek_sequence_tiered_checked_def)
next
  assume e: "try_match lines pattern start_index (tier_compare Exact) eof = Some None"
    "tier_matches lines pattern start_index eof Exact = {}"
  let ?ts = "[Rstrip, Trim, Indent, Unicode]"
  let ?final = "if eof then Some (Inr None) else reflow_result lines pattern start_index"
  have seek: "seek = foldr (\<lambda>t. non_exact_tier lines pattern start_index eof t (tier_compare t)) ?ts ?final"
    using e(1) assms(3) by (simp add: seek_def seek_sequence_tiered_checked_def reflow_result_def)
  have "Reflow \<notin> set ?ts" by simp
  from tier_chain [OF assms(3) this, of lines start_index eof ?final, folded seek M_def]
  consider us t vs where "?ts = us @ t # vs" "\<forall>u \<in> set us. M u = {}" "M t \<noteq> {}"
      "tier_settles lines pattern start_index eof t seek"
    | "\<forall>u \<in> set ?ts. M u = {}" "seek = ?final"
    by blast
  then show thesis
  proof cases
    case 1
    have "settling_tier lines pattern start_index eof t"
      using 1 e(2) tiers_before [OF 1(1)] unfolding settling_tier_def M_def by blast
    moreover have "t \<in> {Rstrip, Trim, Unicode}"
      using 1 indent_shadowed [of lines pattern start_index eof]
      by (auto simp: M_def Cons_eq_append_conv)
    ultimately show thesis using Settled 1(4) by blast
  next
    case 2
    have "M u = {}" if "u \<noteq> Reflow" for u
      using that 2(1) e(2) by (cases u) (auto simp: M_def)
    then show thesis using Last 2(2) by blast
  qed
qed simp

lemma find_reflow_match_returns: "\<exists>r. find_reflow_match lines pattern start_index = Some r"
proof (cases "normalize_reflow_whitespace (join [LF] pattern) = []")
  case False
  then show ?thesis
    using reflow_new_spec [OF False, of "drop start_index lines"] reflow_unique_spec
    by (fastforce simp: find_reflow_match_def Let_def)
qed (simp add: find_reflow_match_def)

lemma reflow_result_tier:
  "reflow_result lines pattern start_index = Some (Inr (Some m)) \<Longrightarrow> tier m = Reflow"
  by (auto simp: reflow_result_def split: bind_splits)

section \<open>Nearest miss: bounds and order independence\<close>

lemma length_hash_insert: "length (hash_insert x xs) \<le> Suc (length xs)"
  by (simp add: hash_insert_def)

lemma set_hash_insert [simp]: "set (hash_insert x xs) = insert x (set xs)"
  by (auto simp: hash_insert_def)

lemma distinct_hash_insert: "distinct xs \<Longrightarrow> distinct (hash_insert x xs)"
  by (simp add: hash_insert_def)

lemma sample_index:
  assumes "sample < sample_count" "0 < n"
  shows "(if sample_count = 1 then 0 else sample * (n - 1) div (sample_count - 1)) < (n :: nat)"
proof (cases "sample_count = 1")
  case False
  then have c: "0 < sample_count - 1" "sample \<le> sample_count - 1" using assms by auto
  then have "sample * (n - 1) div (sample_count - 1) \<le> (sample_count - 1) * (n - 1) div (sample_count - 1)"
    by (intro div_le_mono mult_le_mono1)
  then have "sample * (n - 1) div (sample_count - 1) \<le> n - 1" using c(1) by simp
  then show ?thesis using False assms(2) by simp
qed (use assms in simp)

lemma add_samples_spec:
  assumes "0 < length positions" "\<forall>s \<in> set samples. s < sample_count" "distinct candidates"
  shows "\<exists>cs. add_samples positions wanted_offset sample_count samples candidates = Some cs
    \<and> distinct cs \<and> length cs \<le> length candidates + length samples
    \<and> set cs \<subseteq> set candidates \<union> {p - wanted_offset | p. p \<in> set positions \<and> wanted_offset \<le> p}"
  using assms(2,3)
proof (induction samples arbitrary: candidates)
  case (Cons s samples)
  let ?i = "if sample_count = 1 then 0 else s * (length positions - 1) div (sample_count - 1)"
  have i: "?i < length positions" using sample_index Cons.prems(1) assms(1) by simp
  let ?p = "positions ! ?i"
  have nth: "nth_opt positions ?i = Some ?p" using i by (simp only: nth_opt_def if_True)
  let ?cs = "if wanted_offset \<le> ?p then hash_insert (?p - wanted_offset) candidates else candidates"
  have d: "distinct ?cs" using Cons.prems(2) distinct_hash_insert by simp
  obtain cs where cs: "add_samples positions wanted_offset sample_count samples ?cs = Some cs"
    "distinct cs" "length cs \<le> length ?cs + length samples"
    "set cs \<subseteq> set ?cs \<union> {p - wanted_offset | p. p \<in> set positions \<and> wanted_offset \<le> p}"
    using Cons.IH [OF _ d] Cons.prems(1) by fastforce
  have "add_samples positions wanted_offset sample_count (s # samples) candidates = Some cs"
    unfolding add_samples.simps Let_def nth option.case using cs(1) .
  moreover have "length ?cs \<le> Suc (length candidates)" using length_hash_insert by simp
  moreover have "set ?cs \<subseteq> set candidates \<union> {p - wanted_offset | p. p \<in> set positions \<and> wanted_offset \<le> p}"
    using i nth_mem by auto
  ultimately show ?case using cs(2-4) by (intro exI [of _ cs]) auto
qed simp

lemma add_sampled_candidates_spec:
  assumes "distinct candidates" "length candidates \<le> limit"
  shows "\<exists>cs. add_sampled_candidates candidates positions wanted_offset limit = Some cs
    \<and> distinct cs \<and> length cs \<le> limit
    \<and> set cs \<subseteq> set candidates \<union> {p - wanted_offset | p. p \<in> set positions \<and> wanted_offset \<le> p}"
proof -
  let ?n = "min (min (length positions) NEAREST_MISS_MAX_POSITIONS_PER_ANCHOR) (limit - length candidates)"
  show ?thesis
  proof (cases "?n = 0")
    case False
    then show ?thesis
      using add_samples_spec [of positions "[0..<?n]" ?n candidates wanted_offset] assms
      by (fastforce simp: add_sampled_candidates_def Let_def)
  qed (use assms in \<open>auto simp: add_sampled_candidates_def Let_def\<close>)
qed

lemma add_anchors_spec:
  assumes "distinct candidates" "length candidates \<le> limit"
    "\<forall>(offset, positions) \<in> set anchors. set positions \<subseteq> {..<n}" "set candidates \<subseteq> {..<n}"
  shows "\<exists>cs. add_anchors limit anchors candidates = Some cs \<and> distinct cs \<and> length cs \<le> limit
    \<and> set cs \<subseteq> {..<n}"
  using assms
proof (induction anchors arbitrary: candidates)
  case (Cons a anchors)
  obtain offset positions where a: "a = (offset, positions)" by (cases a)
  obtain cs where cs: "add_sampled_candidates candidates positions offset limit = Some cs" "distinct cs"
    "length cs \<le> limit" "set cs \<subseteq> set candidates \<union> {p - offset | p. p \<in> set positions \<and> offset \<le> p}"
    using add_sampled_candidates_spec [OF Cons.prems(1,2)] by blast
  then have "set cs \<subseteq> {..<n}" using Cons.prems(3,4) a by fastforce
  then show ?case using Cons.IH [OF cs(2,3)] Cons.prems(3) cs a by auto
qed simp

lemma is_better_total:
  assumes "\<not> is_better_nearest_miss (score_nearest_miss lines pattern a) (score_nearest_miss lines pattern b)"
    "\<not> is_better_nearest_miss (score_nearest_miss lines pattern b) (score_nearest_miss lines pattern a)"
  shows "score_nearest_miss lines pattern a = score_nearest_miss lines pattern b"
proof -
  have "nm_start (score_nearest_miss lines pattern a) = nm_start (score_nearest_miss lines pattern b)"
    using assms unfolding is_better_nearest_miss_def by linarith
  then show ?thesis by (simp add: score_nearest_miss_def Let_def)
qed

lemma is_better_trans:
  "\<not> is_better_nearest_miss a b \<Longrightarrow> \<not> is_better_nearest_miss b c \<Longrightarrow> \<not> is_better_nearest_miss a c"
  unfolding is_better_nearest_miss_def by linarith

lemma is_better_irrefl: "\<not> is_better_nearest_miss a a"
  by (simp add: is_better_nearest_miss_def)

lemma is_better_asym: "is_better_nearest_miss a b \<Longrightarrow> \<not> is_better_nearest_miss b a"
  unfolding is_better_nearest_miss_def by linarith

text \<open>The fold keeps a candidate that no other one beats.\<close>

abbreviation keep_best :: "nearest_miss option \<Rightarrow> nearest_miss \<Rightarrow> nearest_miss option" where
  "keep_best best candidate \<equiv> case best of
     Some current \<Rightarrow> if \<not> is_better_nearest_miss candidate current then Some current else Some candidate
   | None \<Rightarrow> Some candidate"

lemma foldl_keep_best:
  "\<exists>b \<in> insert b0 (set ms). foldl keep_best (Some b0) ms = Some b
     \<and> (\<forall>m \<in> insert b0 (set ms). \<not> is_better_nearest_miss m b)"
proof (induction ms arbitrary: b0)
  case Nil
  then show ?case by (simp add: is_better_irrefl)
next
  case (Cons m ms)
  let ?b1 = "if \<not> is_better_nearest_miss m b0 then b0 else m"
  obtain b where b: "b \<in> insert ?b1 (set ms)" "foldl keep_best (Some ?b1) ms = Some b"
    "\<forall>m \<in> insert ?b1 (set ms). \<not> is_better_nearest_miss m b"
    using Cons.IH by blast
  have "\<not> is_better_nearest_miss m ?b1" "\<not> is_better_nearest_miss b0 ?b1"
    using is_better_asym is_better_irrefl by auto
  then have "\<not> is_better_nearest_miss m b" "\<not> is_better_nearest_miss b0 b"
    using b(3) is_better_trans by (meson insertI1)+
  moreover have "foldl keep_best (Some b0) (m # ms) = Some b" using b(2) by (simp split: if_splits)
  moreover have "b \<in> insert b0 (set (m # ms))" using b(1) by (simp split: if_splits) blast+
  ultimately show ?case using b(3) by (intro bexI [of _ b]) simp_all
qed

lemma best_scored_candidate_cases:
  obtains "best_scored_candidate lines pattern candidates = None" "\<forall>c \<in> set candidates. length lines \<le> c"
  | c where "c \<in> set candidates" "c < length lines"
      "best_scored_candidate lines pattern candidates = Some (score_nearest_miss lines pattern c)"
      "\<And>d. d \<in> set candidates \<Longrightarrow> d < length lines \<Longrightarrow>
         \<not> is_better_nearest_miss (score_nearest_miss lines pattern d) (score_nearest_miss lines pattern c)"
proof (cases "filter (\<lambda>start. start < length lines) candidates")
  case Nil
  then show thesis using that(1) by (auto simp: best_scored_candidate_def filter_empty_conv not_less)
next
  case (Cons x xs)
  let ?s = "score_nearest_miss lines pattern"
  obtain b where b: "b \<in> ?s ` set (x # xs)" "foldl keep_best (Some (?s x)) (map ?s xs) = Some b"
    "\<forall>m \<in> ?s ` set (x # xs). \<not> is_better_nearest_miss m b"
    using foldl_keep_best [of "?s x" "map ?s xs"] by auto
  then obtain c where c: "c \<in> set (x # xs)" "b = ?s c" by blast
  have "best_scored_candidate lines pattern candidates = Some (?s c)"
    using b(2) c(2) by (simp add: best_scored_candidate_def Cons)
  moreover have "set (x # xs) = {d \<in> set candidates. d < length lines}" by (metis Cons set_filter)
  ultimately show thesis using that(2) [of c] c b(3) by blast
qed

lemma best_scored_candidate_set:
  assumes "set cs = set ds"
  shows "best_scored_candidate lines pattern cs = best_scored_candidate lines pattern ds"
proof (rule best_scored_candidate_cases [of lines pattern cs])
  assume "best_scored_candidate lines pattern cs = None" "\<forall>c \<in> set cs. length lines \<le> c"
  then show ?thesis using assms
    by (metis best_scored_candidate_cases leD)
next
  fix c assume c: "c \<in> set cs" "c < length lines"
    "best_scored_candidate lines pattern cs = Some (score_nearest_miss lines pattern c)"
    "\<And>d. d \<in> set cs \<Longrightarrow> d < length lines \<Longrightarrow>
       \<not> is_better_nearest_miss (score_nearest_miss lines pattern d) (score_nearest_miss lines pattern c)"
  show ?thesis
  proof (rule best_scored_candidate_cases [of lines pattern ds])
    assume "\<forall>c \<in> set ds. length lines \<le> c"
    then show ?thesis using c(1,2) assms by auto
  next
    fix d assume d: "d \<in> set ds" "d < length lines"
      "best_scored_candidate lines pattern ds = Some (score_nearest_miss lines pattern d)"
      "\<And>e. e \<in> set ds \<Longrightarrow> e < length lines \<Longrightarrow>
         \<not> is_better_nearest_miss (score_nearest_miss lines pattern e) (score_nearest_miss lines pattern d)"
    then show ?thesis using c is_better_total [of lines pattern c d] assms by simp
  qed
qed

lemma find_enumerate_le:
  "(case List.find (\<lambda>oe. \<not> P oe) (List.enumerate k xs) of
      Some (offset, _) \<Rightarrow> offset | None \<Rightarrow> k + length xs)
   \<le> k + length (filter P (List.enumerate k xs))"
proof (induction xs arbitrary: k)
  case (Cons x xs)
  show ?case using Cons.IH [of "Suc k"] by (cases "P (k, x)") (auto split: option.splits)
qed simp

lemma score_bounds:
  assumes "start < length lines" "pattern \<noteq> []"
  defines "m \<equiv> score_nearest_miss lines pattern start"
  shows "nm_start m = start" "start < nm_end m" "nm_end m \<le> length lines"
    "nm_end m \<le> start + length pattern" "first_divergence m \<le> matched_lines m"
    "matched_lines m \<le> length pattern"
proof -
  let ?P = "\<lambda>(offset, expected). case nth_opt lines (start + offset) of
              Some actual \<Rightarrow> trim actual = trim expected | None \<Rightarrow> False"
  show "nm_start m = start" "start < nm_end m" "nm_end m \<le> length lines" "nm_end m \<le> start + length pattern"
    using assms(1,2) by (simp_all add: m_def score_nearest_miss_def Let_def)
  show "matched_lines m \<le> length pattern"
    using length_filter_le [of ?P "List.enumerate 0 pattern"] by (simp add: m_def score_nearest_miss_def Let_def)
  from find_enumerate_le [where P = ?P and k = 0 and xs = pattern, unfolded add_0] show "first_divergence m \<le> matched_lines m"
    by (simp add: m_def score_nearest_miss_def Let_def)
qed

lemma fuzzy_candidates_below:
  assumes "set candidates \<subseteq> {..<n}" "\<forall>(p, l) \<in> set rest. p < n" "length candidates \<le> limit"
  shows "set (fuzzy_candidates wanted_offset normalized_wanted limit rest best_prefix candidates) \<subseteq> {..<n}
    \<and> length (fuzzy_candidates wanted_offset normalized_wanted limit rest best_prefix candidates) \<le> limit"
  using assms
proof (induction rest arbitrary: best_prefix candidates)
  case (Cons a rest)
  obtain p l where a: "a = (p, l)" "p < n" using Cons.prems(2) by (cases a) auto
  have rest: "\<forall>(p, l) \<in> set rest. p < n" using Cons.prems(2) by simp
  have ins: "set (if b \<and> length cs < limit then hash_insert (p - wanted_offset) cs else cs) \<subseteq> {..<n}
      \<and> length (if b \<and> length cs < limit then hash_insert (p - wanted_offset) cs else cs) \<le> limit"
    if "set cs \<subseteq> {..<n}" "length cs \<le> limit" for b cs
    using that a(2) by (auto simp: hash_insert_def)
  show ?case
    using Cons.IH [OF _ rest] Cons.prems(1,3) ins
    by (simp add: a(1) Let_def split: option.split)
qed simp

lemma trimmed_lines_positions: "(p, l) \<in> set (trimmed_lines lines) \<Longrightarrow> p < length lines"
  by (auto simp: trimmed_lines_def in_set_enumerate_eq)

lemma anchor_positions_below:
  "(offset, positions) \<in> set (anchor_positions lines pattern) \<Longrightarrow> set positions \<subseteq> {..<length lines}"
  using trimmed_lines_positions [of _ _ lines] by (fastforce simp: anchor_positions_def line_positions_def)

lemma candidate_limit_pos: "0 < candidate_limit_for pattern"
  by (simp add: candidate_limit_for_def NEAREST_MISS_MAX_CANDIDATES_def)

lemma candidate_limit_work:
  "candidate_limit_for pattern * length pattern \<le> max NEAREST_MISS_MAX_LINE_COMPARISONS (length pattern)"
proof -
  let ?n = "length pattern" and ?c = NEAREST_MISS_MAX_LINE_COMPARISONS
  have "candidate_limit_for pattern * ?n \<le> max (?c div max ?n 1) 1 * ?n"
    unfolding candidate_limit_for_def by (intro mult_le_mono1) simp
  also have "\<dots> \<le> max ?c ?n"
  proof (cases "1 \<le> ?c div max ?n 1")
    case True
    then have "max (?c div max ?n 1) 1 * ?n \<le> ?c div max ?n 1 * max ?n 1" by simp
    also have "\<dots> \<le> ?c" by (rule div_times_less_eq_dividend)
    finally show ?thesis by simp
  qed simp
  finally show ?thesis .
qed

lemma anchors_spec:
  "\<exists>cs. add_anchors (candidate_limit_for pattern) (anchor_positions lines pattern) [] = Some cs
     \<and> distinct cs \<and> length cs \<le> candidate_limit_for pattern \<and> set cs \<subseteq> {..<length lines}"
  using add_anchors_spec [of "[]" "candidate_limit_for pattern" "anchor_positions lines pattern" "length lines"]
    anchor_positions_below by fastforce

lemma find_nearest_miss_Found:
  assumes "find_nearest_miss lines pattern file_size = Some (Found m)"
  shows "pattern \<noteq> [] \<and> file_size \<le> NEAREST_MISS_MAX_FILE_BYTES
    \<and> (\<exists>c < length lines. m = score_nearest_miss lines pattern c)"
proof -
  have best: "\<exists>c < length lines. m = score_nearest_miss lines pattern c"
    if "best_scored_candidate lines pattern cs = Some m" for cs
    by (rule best_scored_candidate_cases [of lines pattern cs]) (use that in auto)
  show ?thesis using assms
    by (auto simp: find_nearest_miss_def Let_def not_less split: if_splits bind_splits option.splits dest!: best)
qed

section \<open>Properties\<close>

text \<open>C21. Every line tier's search is the plain one: with any comparator the tiers use, the
  Knuth-Morris-Pratt scan returns, without an index panic, the first line at or after the start
  where every pattern line compares equal; with \<^verbatim>\<open>eof\<close> only the window that ends at the
  last line counts.\<close>

theorem try_match_first_match:
  assumes "t \<noteq> Reflow"
  shows "try_match lines pattern start_index (tier_compare t) eof
         = Some (first_match (tier_compare t) lines pattern start_index eof)"
  using assms by (cases t)
    (simp_all add: exact.try_match_correct rstrip.try_match_correct trim.try_match_correct
      indent.try_match_correct unicode.try_match_correct)

theorem try_match_first_match_witness:
  "Trim \<noteq> Reflow \<and>
   try_match (map lit [''a'', '' a'', ''b '']) (map lit [''a'', ''b'']) 0 (tier_compare Trim) False = Some (Some 1)"
proof -
  have "first_match (tier_compare Trim) (map lit [''a'', '' a'', ''b '']) (map lit [''a'', ''b'']) 0 False = Some 1"
    by code_simp
  then show ?thesis using try_match_first_match [of Trim] by simp
qed

text \<open>An exact occurrence always wins, and the first one: when the pattern stands in the file
  at or after the start, the search returns the first such place with tier \<^verbatim>\<open>Exact\<close>,
  whatever the looser tiers would match.\<close>

theorem seek_exact_first:
  assumes "pattern \<noteq> []" "start_index \<le> s" "s + length pattern \<le> length lines"
    "take (length pattern) (drop s lines) = pattern"
  shows "\<exists>f. start_index \<le> f \<and> f \<le> s \<and> take (length pattern) (drop f lines) = pattern
    \<and> (\<forall>g. start_index \<le> g \<and> g < f \<longrightarrow> take (length pattern) (drop g lines) \<noteq> pattern)
    \<and> seek_sequence_tiered_checked lines pattern start_index False
        = Some (Inr (Some \<lparr>found = f, tier = Exact, line_count = length pattern\<rparr>))"
proof -
  have ex: "g \<in> tier_matches lines pattern start_index False Exact \<longleftrightarrow>
      start_index \<le> g \<and> g + length pattern \<le> length lines \<and> take (length pattern) (drop g lines) = pattern" for g
  proof -
    have "compare_exact = (=)" by (intro ext) (simp add: compare_defs)
    then show ?thesis by (auto simp: tier_matches_def matches_at_def list_all2_eq)
  qed
  then have s: "s \<in> tier_matches lines pattern start_index False Exact" using assms by simp
  show ?thesis
  proof (rule seek_outcome [OF assms(1), of lines start_index False])
    fix f assume f: "f \<in> tier_matches lines pattern start_index False Exact"
      "\<And>s. s \<in> tier_matches lines pattern start_index False Exact \<Longrightarrow> f \<le> s"
      "seek_sequence_tiered_checked lines pattern start_index False
        = Some (Inr (Some \<lparr>found = f, tier = Exact, line_count = length pattern\<rparr>))"
    have "take (length pattern) (drop g lines) \<noteq> pattern" if "start_index \<le> g" "g < f" for g
      using f(1) f(2) [of g] that unfolding ex by auto
    then show ?thesis using f(3) f(2) [OF s] f(1) [unfolded ex] by blast
  qed (use s in \<open>auto simp: settling_tier_def\<close>)
qed

theorem seek_exact_first_witness:
  "seek_sequence_tiered_checked (map lit [''a '', ''a'', ''a'']) (map lit [''a'']) 0 False
     = Some (Inr (Some \<lparr>found = 1, tier = Exact, line_count = 1\<rparr>))"
proof -
  have "\<exists>f. 0 \<le> f \<and> f \<le> 1 \<and> take (length (map lit [''a''])) (drop f (map lit [''a '', ''a'', ''a''])) = map lit [''a'']
    \<and> (\<forall>g. 0 \<le> g \<and> g < f \<longrightarrow> take (length (map lit [''a''])) (drop g (map lit [''a '', ''a'', ''a''])) \<noteq> map lit [''a''])
    \<and> seek_sequence_tiered_checked (map lit [''a '', ''a'', ''a'']) (map lit [''a'']) 0 False
        = Some (Inr (Some \<lparr>found = f, tier = Exact, line_count = length (map lit [''a''])\<rparr>))"
    by (rule seek_exact_first) (simp_all add: lit_def)
  then obtain f where f: "f \<le> 1" "take 1 (drop f (map lit [''a '', ''a'', ''a''])) = map lit [''a'']"
    "seek_sequence_tiered_checked (map lit [''a '', ''a'', ''a'']) (map lit [''a'']) 0 False
        = Some (Inr (Some \<lparr>found = f, tier = Exact, line_count = 1\<rparr>))" by auto
  have "f \<noteq> 0" using f(2) by (cases f) (simp_all add: lit_def)
  then have "f = 1" using f(1) by simp
  then show ?thesis using f(3) by simp
qed

text \<open>C8. A non-exact match is never a guess: when the search answers with the trailing-space, trim
  or Unicode tier, no earlier tier matches anywhere and the tier matches at exactly that one place.
  The \<^verbatim>\<open>Indent\<close> tier is never the answer.\<close>

theorem seek_non_exact_unique:
  assumes "seek_sequence_tiered_checked lines pattern start_index eof = Some (Inr (Some m))"
    "tier m \<noteq> Exact" "tier m \<noteq> Reflow"
  shows "tier m \<in> {Rstrip, Trim, Unicode} \<and> line_count m = length pattern
    \<and> tier_matches lines pattern start_index eof (tier m) = {found m}
    \<and> (\<forall>u. tier_rank u < tier_rank (tier m) \<longrightarrow> tier_matches lines pattern start_index eof u = {})"
proof (cases "pattern = []")
  case True
  then show ?thesis using assms by (simp add: seek_sequence_tiered_checked_def)
next
  case False
  then show ?thesis
  proof (rule seek_outcome [of pattern lines start_index eof])
    fix t assume t: "t \<in> {Rstrip, Trim, Unicode}" "settling_tier lines pattern start_index eof t"
      "tier_settles lines pattern start_index eof t (seek_sequence_tiered_checked lines pattern start_index eof)"
    then obtain f where "tier_matches lines pattern start_index eof t = {f}"
      "m = \<lparr>found = f, tier = t, line_count = length pattern\<rparr>"
      using assms(1) by (auto simp: tier_settles_def)
    then show ?thesis using t(1,2) by (simp add: settling_tier_def)
  qed (use assms reflow_result_tier in \<open>auto split: if_splits\<close>)
qed

theorem seek_non_exact_unique_witness:
  "tier_matches (map lit [''x'', ''  y'', ''z'']) (map lit [''y'', ''z '']) 0 False Trim = {1}"
proof -
  let ?m = "\<lparr>found = 1, tier = Trim, line_count = 2\<rparr>"
  have "seek_sequence_tiered_checked (map lit [''x'', ''  y'', ''z'']) (map lit [''y'', ''z '']) 0 False
      = Some (Inr (Some ?m))" by code_simp
  from seek_non_exact_unique [OF this] show ?thesis by simp
qed

text \<open>C23. The ambiguity error is raised exactly when the first tier that matches at all is a
  non-exact one and matches at more than one place.\<close>

theorem seek_ambiguous_iff:
  "seek_sequence_tiered_checked lines pattern start_index eof = Some (Inl e) \<longleftrightarrow>
     pattern \<noteq> [] \<and> (\<exists>t \<in> {Rstrip, Trim, Unicode}. settling_tier lines pattern start_index eof t
       \<and> (\<exists>f \<in> tier_matches lines pattern start_index eof t.
            \<exists>g \<in> tier_matches lines pattern start_index eof t. f \<noteq> g))"
  (is "?seek = _ \<longleftrightarrow> _ \<and> (\<exists>t \<in> ?ts. ?settling t \<and> ?many t)")
proof (cases "pattern = []")
  case True
  then show ?thesis by (simp add: seek_sequence_tiered_checked_def)
next
  case False
  note only = settling_unique [of lines pattern start_index eof]
  show ?thesis using False
  proof (rule seek_outcome [of pattern lines start_index eof])
    fix f assume "f \<in> tier_matches lines pattern start_index eof Exact"
      "?seek = Some (Inr (Some \<lparr>found = f, tier = Exact, line_count = length pattern\<rparr>))"
    moreover from this have "?settling Exact" by (auto simp: settling_tier_def)
    ultimately show ?thesis using only [of Exact] by auto
  next
    fix t assume t: "t \<in> ?ts" "?settling t" "tier_settles lines pattern start_index eof t ?seek"
    show ?thesis
    proof (cases "?many t")
      case True
      then have "?seek = Some (Inl e)" using t(3) by (cases e) (auto simp: tier_settles_def)
      then show ?thesis using t True False by blast
    next
      case no: False
      then have "?seek \<noteq> Some (Inl e)" using t(3) by (auto simp: tier_settles_def)
      then show ?thesis using only t no by blast
    qed
  next
    assume *: "\<forall>u. u \<noteq> Reflow \<longrightarrow> tier_matches lines pattern start_index eof u = {}"
      "?seek = (if eof then Some (Inr None) else reflow_result lines pattern start_index)"
    have "?seek \<noteq> Some (Inl e)" unfolding *(2) by (auto simp: reflow_result_def split: bind_splits)
    then show ?thesis using *(1) by (auto simp: settling_tier_def)
  qed
qed

text \<open>The reflow tier is the last resort and unambiguous: it answers only when no line tier
  matches, its window has the pattern's text up to white space, and no other window of lines that
  starts and ends with content does.\<close>

theorem seek_reflow_unique:
  assumes "seek_sequence_tiered_checked lines pattern start_index eof = Some (Inr (Some m))"
    "tier m = Reflow" "\<forall>l \<in> set lines. list_all is_scalar l" "\<forall>p \<in> set pattern. list_all is_scalar p"
  defines "text \<equiv> normalize_reflow_whitespace (join [LF] pattern)"
  shows "\<not> eof \<and> (\<forall>u. u \<noteq> Reflow \<longrightarrow> tier_matches lines pattern start_index eof u = {})
    \<and> start_index \<le> found m \<and> found m + line_count m \<le> length lines
    \<and> normalize_reflow_whitespace (join [LF] (take (line_count m) (drop (found m) lines))) = text
    \<and> (\<forall>s e. reflow_window (drop start_index lines) text (s, e)
         \<longrightarrow> start_index + s = found m \<and> e - s = line_count m)"
proof -
  have "pattern \<noteq> []" using assms(1) by (auto simp: seek_sequence_tiered_checked_def)
  then have last: "\<not> eof" "\<forall>u. u \<noteq> Reflow \<longrightarrow> tier_matches lines pattern start_index eof u = {}"
    "reflow_result lines pattern start_index = Some (Inr (Some m))"
    by (rule seek_outcome [of pattern lines start_index eof]; use assms(1,2) in \<open>auto simp: tier_settles_def split: if_splits\<close>)+
  then have fr: "find_reflow_match lines pattern start_index = Some (Some (found m, line_count m))"
    by (auto simp: reflow_result_def split: bind_splits)
  note spec = find_reflow_match_spec [OF assms(3,4), of start_index, folded text_def]
  obtain w where w: "reflow_window (drop start_index lines) text w"
    "\<forall>w'. reflow_window (drop start_index lines) text w' \<longrightarrow> w' = w"
    "(start_index + fst w, snd w - fst w) = (found m, line_count m)"
    using spec [unfolded fr option.inject] by blast
  obtain a e where ae: "w = (a, e)" by (cases w)
  have "window (drop start_index lines) a e = take (line_count m) (drop (found m) lines)"
    using w(3) ae by (auto simp: window_def add.commute)
  then have "normalize_reflow_whitespace (join [LF] (take (line_count m) (drop (found m) lines))) = text"
    using w(1) ae by (simp add: reflow_window_def)
  moreover have "found m + line_count m \<le> length lines" "start_index \<le> found m"
    using w(1,3) ae by (auto simp: reflow_window_def)
  moreover have "start_index + s = found m \<and> e' - s = line_count m"
    if "reflow_window (drop start_index lines) text (s, e')" for s e'
    using w(2,3) that by fastforce
  ultimately show ?thesis using last(1,2) by blast
qed

theorem seek_reflow_unique_witness:
  "found \<lparr>found = 1, tier = Reflow, line_count = 2\<rparr> + 2 \<le> length (map lit [''p'', ''f(a,'', ''  b);'', ''q''])
   \<and> normalize_reflow_whitespace (join [LF] (take 2 (drop 1 (map lit [''p'', ''f(a,'', ''  b);'', ''q'']))))
     = normalize_reflow_whitespace (join [LF] (map lit [''f(a, b);'']))"
proof -
  let ?lines = "map lit [''p'', ''f(a,'', ''  b);'', ''q'']" and ?pat = "map lit [''f(a, b);'']"
  let ?m = "\<lparr>found = 1, tier = Reflow, line_count = 2\<rparr>"
  have "seek_sequence_tiered_checked ?lines ?pat 0 False = Some (Inr (Some ?m))" by code_simp
  moreover have "\<forall>l \<in> set ?lines. list_all is_scalar l" "\<forall>p \<in> set ?pat. list_all is_scalar p"
    by (simp_all add: lit_def is_scalar_def)
  ultimately show ?thesis using seek_reflow_unique [of ?lines ?pat 0 False ?m] by simp
qed

text \<open>The nearest-miss search always answers: its sampling never indexes past the positions of
  an anchor line. It declines because of the file's size exactly above the two-megabyte limit, and
  it never scores more windows than the comparison budget allows.\<close>

theorem find_nearest_miss_returns:
  "\<exists>r cs. find_nearest_miss lines pattern file_size = Some r
     \<and> (r = SkippedLargeFile \<longleftrightarrow> NEAREST_MISS_MAX_FILE_BYTES < file_size)
     \<and> add_anchors (candidate_limit_for pattern) (anchor_positions lines pattern) [] = Some cs
     \<and> distinct cs \<and> set cs \<subseteq> {..<length lines}
     \<and> length cs * length pattern \<le> max NEAREST_MISS_MAX_LINE_COMPARISONS (length pattern)"
proof -
  obtain cs where cs: "add_anchors (candidate_limit_for pattern) (anchor_positions lines pattern) [] = Some cs"
    "distinct cs" "length cs \<le> candidate_limit_for pattern" "set cs \<subseteq> {..<length lines}"
    using anchors_spec by blast
  have "length cs * length pattern \<le> candidate_limit_for pattern * length pattern"
    using cs(3) by (rule mult_le_mono1)
  then have work: "length cs * length pattern \<le> max NEAREST_MISS_MAX_LINE_COMPARISONS (length pattern)"
    using candidate_limit_work by (rule order_trans)
  have "\<exists>r. find_nearest_miss lines pattern file_size = Some r
      \<and> (r = SkippedLargeFile \<longleftrightarrow> NEAREST_MISS_MAX_FILE_BYTES < file_size)"
    using cs(1) by (auto simp: find_nearest_miss_def Let_def split: option.splits)
  then show ?thesis using cs(1,2,4) work by blast
qed

text \<open>A reported nearest miss is a window of the file: it starts inside the file, ends inside it
  and spans at most the pattern's length, its score counts pattern lines, and the lines before the
  first divergence all match.\<close>

theorem nearest_miss_bounds:
  assumes "find_nearest_miss lines pattern file_size = Some (Found m)"
  shows "nm_start m < nm_end m \<and> nm_end m \<le> length lines \<and> nm_end m \<le> nm_start m + length pattern
    \<and> first_divergence m \<le> matched_lines m \<and> matched_lines m \<le> length pattern
    \<and> m = score_nearest_miss lines pattern (nm_start m)"
proof -
  obtain c where "pattern \<noteq> []" "c < length lines" "m = score_nearest_miss lines pattern c"
    using find_nearest_miss_Found [OF assms] by blast
  then show ?thesis using score_bounds [of c lines pattern] by simp
qed

theorem nearest_miss_bounds_witness:
  "find_nearest_miss (map lit [''fn a() {'', ''  let x = 1;'', ''}'']) (map lit [''let x = 1;'', ''let y = 2;'']) 24
     = Some (Found \<lparr>nm_start = 1, nm_end = 3, matched_lines = 1, first_divergence = 1\<rparr>)
   \<and> nm_end \<lparr>nm_start = 1, nm_end = 3, matched_lines = 1, first_divergence = 1\<rparr>
     \<le> length (map lit [''fn a() {'', ''  let x = 1;'', ''}''])"
proof -
  have f: "find_nearest_miss (map lit [''fn a() {'', ''  let x = 1;'', ''}''])
      (map lit [''let x = 1;'', ''let y = 2;'']) 24
     = Some (Found \<lparr>nm_start = 1, nm_end = 3, matched_lines = 1, first_divergence = 1\<rparr>)"
    by code_simp
  from nearest_miss_bounds [OF f] show ?thesis using f by blast
qed

text \<open>The candidates live in a hash set whose iteration order is not fixed, and the answer does
  not depend on it: two candidate lists with the same elements give the same best candidate.\<close>

theorem best_candidate_order_free:
  assumes "set cs = set ds"
  shows "best_scored_candidate lines pattern cs = best_scored_candidate lines pattern ds"
  using assms by (rule best_scored_candidate_set)

theorem best_candidate_order_free_witness:
  "best_scored_candidate (map lit [''a'', ''b'', ''a'']) (map lit [''a'', ''c'']) [2, 0]
     = Some \<lparr>nm_start = 0, nm_end = 2, matched_lines = 1, first_divergence = 1\<rparr>"
proof -
  have "best_scored_candidate (map lit [''a'', ''b'', ''a'']) (map lit [''a'', ''c'']) [0, 2]
     = Some \<lparr>nm_start = 0, nm_end = 2, matched_lines = 1, first_divergence = 1\<rparr>" by code_simp
  moreover have "set [2, 0 :: nat] = set [0, 2]" by auto
  note best_candidate_order_free [OF this, of "map lit [''a'', ''b'', ''a'']" "map lit [''a'', ''c'']"]
  ultimately show ?thesis by (rule trans [rotated])
qed

end
