(* ===== verification/Patch_Parser.thy ===== *)
theory Patch_Parser
  imports Prelude
begin

text \<open>
  The parser of the \<^verbatim>\<open>*** Begin Patch\<close> envelope, \<^verbatim>\<open>crates/aft/src/patch/parser.rs\<close>: heredoc
  unwrapping, operation headers, added contents, update chunks, the structural validation that runs
  before any write, and \<^verbatim>\<open>parse_patch\<close> itself.

  The source reads \<^verbatim>\<open>lines[i]\<close> with an index it moves forward; the model's loops carry the lines
  from \<open>i\<close> on together with \<open>i\<close>. The heredoc opening is matched with the third-party \<^verbatim>\<open>regex\<close>
  crate, so that match is a parameter \<open>open_re\<close>: the delimiter it captures and the number of
  characters of the opening, or \<open>None\<close>. \<open>heredoc_open\<close> is one function that behaves as the
  crate documents for the pattern of the source; the witnesses run on it.

  The main results are the round trip from a printed envelope back to its operations, and what
  every accepted patch satisfies.
\<close>

section \<open>Data\<close>

definition MAX_PATCH_SIZE :: nat where "MAX_PATCH_SIZE = 1048576"
definition MAX_HUNKS :: nat where "MAX_HUNKS = 500"

record update_file_chunk =
  old_lines :: "rstr list"
  new_lines :: "rstr list"
  change_context :: "rstr option"
  is_end_of_file :: bool

datatype hunk =
    Add rstr rstr
  | Delete rstr
  | Update rstr "rstr option" "update_file_chunk list"

record patch_header =
  file_path :: rstr
  move_path :: "rstr option"
  next_idx :: nat

section \<open>Heredoc unwrapping\<close>

type_synonym heredoc_match = "rstr \<Rightarrow> (rstr \<times> nat) option"

text \<open>The scan of \<^verbatim>\<open>rest.match_indices('\n')\<close>: \<open>seen\<close> is the text before the current position.\<close>

fun heredoc_body :: "rstr \<Rightarrow> rstr \<Rightarrow> rstr \<Rightarrow> rstr option" where
  "heredoc_body delimiter seen [] = None"
| "heredoc_body delimiter seen (c # after) =
     (if c = LF then
        (case strip_prefix after delimiter of
           None \<Rightarrow> heredoc_body delimiter (seen @ [c]) after
         | Some after_delimiter \<Rightarrow>
             if list_all is_whitespace after_delimiter then Some seen
             else heredoc_body delimiter (seen @ [c]) after)
      else heredoc_body delimiter (seen @ [c]) after)"

definition strip_heredoc :: "heredoc_match \<Rightarrow> rstr \<Rightarrow> rstr" where
  "strip_heredoc open_re input =
     (case open_re input of
        None \<Rightarrow> input
      | Some (delimiter, opening_end) \<Rightarrow>
          (case heredoc_body delimiter [] (drop opening_end input) of
             Some body \<Rightarrow> body | None \<Rightarrow> input))"

text \<open>The pattern \<^verbatim>\<open>^(?:cat\s+)?<<['"]?([A-Za-z0-9_]+)['"]?\s*\n\<close>, read off directly.\<close>

definition is_word_char :: "uchar \<Rightarrow> bool" where
  "is_word_char c \<longleftrightarrow> is_ascii_alphanumeric c \<or> c = 95"

definition skip_quote :: "rstr \<Rightarrow> rstr" where
  "skip_quote s = (case s of c # r \<Rightarrow> if c = 39 \<or> c = 34 then r else s | [] \<Rightarrow> s)"

definition heredoc_open :: heredoc_match where
  "heredoc_open input =
     (let after_cat = (case strip_prefix input (lit ''cat'') of
            Some r \<Rightarrow> if r \<noteq> [] \<and> is_whitespace (hd r) then dropWhile is_whitespace r else input
          | None \<Rightarrow> input)
      in case strip_prefix after_cat (lit ''<<'') of
           None \<Rightarrow> None
         | Some r \<Rightarrow>
             (let word = takeWhile is_word_char (skip_quote r);
                  tail = skip_quote (dropWhile is_word_char (skip_quote r));
                  gap = takeWhile is_whitespace tail;
                  kept = length (takeWhile (\<lambda>c. c \<noteq> LF) (rev gap))
              in if word = [] \<or> LF \<notin> set gap then None
                 else Some (word, length input - (length tail - length gap) - kept)))"

section \<open>Headers and bodies\<close>

definition header_at :: "rstr list \<Rightarrow> nat \<Rightarrow> patch_header option" where
  "header_at rest i =
     (case rest of [] \<Rightarrow> None
      | line # following \<Rightarrow>
          (case strip_prefix line (lit ''*** Add File:'') of
             Some path \<Rightarrow>
               (if trim path = [] then None
                else Some \<lparr>file_path = trim path, move_path = None, next_idx = i + 1\<rparr>)
           | None \<Rightarrow>
          (case strip_prefix line (lit ''*** Delete File:'') of
             Some path \<Rightarrow>
               (if trim path = [] then None
                else Some \<lparr>file_path = trim path, move_path = None, next_idx = i + 1\<rparr>)
           | None \<Rightarrow>
          (case strip_prefix line (lit ''*** Update File:'') of
             Some path \<Rightarrow>
               (if trim path = [] then None
                else
                  (case following of
                     next_line # _ \<Rightarrow>
                       (case strip_prefix next_line (lit ''*** Move to:'') of
                          Some dest \<Rightarrow>
                            Some \<lparr>file_path = trim path, move_path = Some (trim dest), next_idx = i + 2\<rparr>
                        | None \<Rightarrow> Some \<lparr>file_path = trim path, move_path = None, next_idx = i + 1\<rparr>)
                   | [] \<Rightarrow> Some \<lparr>file_path = trim path, move_path = None, next_idx = i + 1\<rparr>))
           | None \<Rightarrow> None))))"

definition parse_patch_header :: "rstr list \<Rightarrow> nat \<Rightarrow> patch_header option" where
  "parse_patch_header lines start_idx = header_at (drop start_idx lines) start_idx"

fun add_content_loop :: "rstr list \<Rightarrow> nat \<Rightarrow> rstr \<Rightarrow> rstr \<times> nat" where
  "add_content_loop [] i content = (content, i)"
| "add_content_loop (line # rest) i content =
     (if starts_with line (lit ''***'') then (content, i)
      else (case strip_prefix line (lit ''+'') of
              Some added \<Rightarrow> add_content_loop rest (i + 1) (content @ added @ [LF])
            | None \<Rightarrow> add_content_loop rest (i + 1) content))"

definition parse_add_file_content :: "rstr list \<Rightarrow> nat \<Rightarrow> rstr \<times> nat" where
  "parse_add_file_content lines start_idx =
     (case add_content_loop (drop start_idx lines) start_idx [] of
        (content, i) \<Rightarrow> (if ends_with content [LF] then butlast content else content, i))"

text \<open>The inner loop over one chunk's rows: the old and new lines, whether the end-of-file row was
  met, and what follows.\<close>

fun chunk_rows ::
    "rstr list \<Rightarrow> nat \<Rightarrow> rstr list \<Rightarrow> rstr list \<Rightarrow> rstr list \<times> rstr list \<times> bool \<times> rstr list \<times> nat" where
  "chunk_rows [] i olds news = (olds, news, False, [], i)"
| "chunk_rows (change_line # rest) i olds news =
     (if starts_with change_line (lit ''@@'') then (olds, news, False, change_line # rest, i)
      else if change_line = lit ''*** End of File'' then (olds, news, True, rest, i + 1)
      else if starts_with change_line (lit ''***'') then (olds, news, False, change_line # rest, i)
      else if change_line = [] then chunk_rows rest (i + 1) (olds @ [[]]) (news @ [[]])
      else (case strip_prefix change_line (lit '' '') of
              Some content \<Rightarrow> chunk_rows rest (i + 1) (olds @ [content]) (news @ [content])
            | None \<Rightarrow>
           (case strip_prefix change_line (lit ''-'') of
              Some content \<Rightarrow> chunk_rows rest (i + 1) (olds @ [content]) news
            | None \<Rightarrow>
           (case strip_prefix change_line (lit ''+'') of
              Some content \<Rightarrow> chunk_rows rest (i + 1) olds (news @ [content])
            | None \<Rightarrow> chunk_rows rest (i + 1) olds news))))"

lemma chunk_rows_rest:
  "chunk_rows rest i olds news = (os, ns, e, rest', i') \<Longrightarrow> length rest' \<le> length rest"
  by (induction rest i olds news rule: chunk_rows.induct)
    (auto split: if_splits option.splits)

function chunks_loop ::
    "rstr list \<Rightarrow> nat \<Rightarrow> update_file_chunk list \<Rightarrow> update_file_chunk list \<times> nat" where
  "chunks_loop [] i chunks = (chunks, i)"
| "chunks_loop (line # rest) i chunks =
     (if starts_with line (lit ''***'') then (chunks, i)
      else if starts_with line (lit ''@@'') then
        (let context_line = trim (drop 2 line) in
         case chunk_rows rest (i + 1) [] [] of
           (olds, news, eof, rest', i') \<Rightarrow>
             chunks_loop rest' i' (chunks @
               [\<lparr>old_lines = olds, new_lines = news,
                 change_context = (if context_line = [] then None else Some context_line),
                 is_end_of_file = eof\<rparr>]))
      else chunks_loop rest (i + 1) chunks)"
  by pat_completeness auto
termination
  by (relation "measure (\<lambda>(rest, _, _). length rest)") (auto dest: chunk_rows_rest [OF sym] simp: less_Suc_eq_le)

definition parse_update_file_chunks :: "rstr list \<Rightarrow> nat \<Rightarrow> update_file_chunk list \<times> nat" where
  "parse_update_file_chunks lines start_idx = chunks_loop (drop start_idx lines) start_idx []"

section \<open>Validation\<close>

definition invalid_patch_line :: "nat \<Rightarrow> string \<Rightarrow> rstr" where
  "invalid_patch_line index detail =
     lit ''Invalid patch at line '' @ show_nat (index + 1) @ lit '': '' @ lit detail"

fun first_index_from :: "(nat \<Rightarrow> bool) \<Rightarrow> nat list \<Rightarrow> nat option" where
  "first_index_from P [] = None"
| "first_index_from P (i # is) = (if P i then Some i else first_index_from P is)"

text \<open>The body loops stop at \<^verbatim>\<open>end\<close>, so they read the lines from \<open>i\<close> up to it.\<close>

fun validate_add :: "rstr list \<Rightarrow> nat \<Rightarrow> rstr + nat" where
  "validate_add [] i = Inr i"
| "validate_add (line # rest) i =
     (if starts_with line (lit ''***'') then Inr i
      else if line \<noteq> [] \<and> \<not> starts_with line (lit ''+'')
      then Inl (invalid_patch_line i (''Add File content must start with '' @ [CHR 0x27] @ ''+'' @ [CHR 0x27]))
      else validate_add rest (i + 1))"

fun validate_update :: "rstr list \<Rightarrow> nat \<Rightarrow> bool \<Rightarrow> bool \<Rightarrow> rstr + (bool \<times> nat)" where
  "validate_update [] i in_chunk saw_chunk = Inr (saw_chunk, i)"
| "validate_update (line # rest) i in_chunk saw_chunk =
     (if line = lit ''*** End of File'' \<and> in_chunk then validate_update rest (i + 1) False saw_chunk
      else if starts_with line (lit ''***'') then Inr (saw_chunk, i)
      else if starts_with line (lit ''@@'') then validate_update rest (i + 1) True True
      else if line = [] then validate_update rest (i + 1) in_chunk saw_chunk
      else if \<not> in_chunk then Inl (invalid_patch_line i ''expected an @@ update hunk header'')
      else if \<not> (starts_with line (lit '' '') \<or> starts_with line (lit ''+'') \<or> starts_with line (lit ''-''))
      then Inl (invalid_patch_line i (''unrecognized update payload; expected space, '' @ [CHR 0x27]
        @ ''+'' @ [CHR 0x27] @ '', or '' @ [CHR 0x27] @ ''-'' @ [CHR 0x27] @ '' prefix''))
      else validate_update rest (i + 1) in_chunk saw_chunk)"

lemma header_at_next: "header_at rest i = Some h \<Longrightarrow> i < next_idx h"
  by (auto simp: header_at_def split: list.splits option.splits if_splits)

lemma validate_add_next: "validate_add rest i = Inr j \<Longrightarrow> i \<le> j"
  by (induction rest i rule: validate_add.induct) (auto split: if_splits)

lemma validate_update_next: "validate_update rest i c s = Inr (s', j) \<Longrightarrow> i \<le> j"
  by (induction rest i c s rule: validate_update.induct) (auto split: if_splits)

text \<open>The operation loop of \<^verbatim>\<open>validate_patch_structure\<close>, from line \<open>i\<close> to \<open>end_idx\<close>.\<close>

function validate_ops :: "rstr list \<Rightarrow> nat \<Rightarrow> nat \<Rightarrow> rstr + unit" where
  "validate_ops lines end_idx i =
     (if \<not> i < end_idx then Inr ()
      else if lines ! i = [] then validate_ops lines end_idx (i + 1)
      else
        (case parse_patch_header lines i of
           None \<Rightarrow> Inl (invalid_patch_line i ''invalid file operation header'')
         | Some header \<Rightarrow>
             if move_path header = Some []
             then Inl (invalid_patch_line (i + 1) ''move destination must not be empty'')
             else if starts_with (lines ! i) (lit ''*** Add File:'') then
               (case validate_add (take (end_idx - next_idx header) (drop (next_idx header) lines)) (next_idx header) of
                  Inl e \<Rightarrow> Inl e | Inr j \<Rightarrow> validate_ops lines end_idx j)
             else if starts_with (lines ! i) (lit ''*** Update File:'') then
               (case validate_update (take (end_idx - next_idx header) (drop (next_idx header) lines))
                   (next_idx header) False False of
                  Inl e \<Rightarrow> Inl e
                | Inr (saw_chunk, j) \<Rightarrow>
                    if \<not> saw_chunk \<and> move_path header = None
                    then Inl (invalid_patch_line i ''update operation requires an @@ hunk'')
                    else validate_ops lines end_idx j)
             else validate_ops lines end_idx (next_idx header)))"
  by pat_completeness auto
termination
  by (relation "measure (\<lambda>(_, end_idx, i). end_idx - i)")
    (auto simp: parse_patch_header_def
      dest!: header_at_next validate_add_next validate_update_next)

declare validate_ops.simps [simp del]

definition validate_patch_structure :: "rstr list \<Rightarrow> nat \<Rightarrow> nat \<Rightarrow> rstr + unit" where
  "validate_patch_structure lines begin_idx end_idx =
     (case first_index_from (\<lambda>index. trim (lines ! index) \<noteq> []) [0..<begin_idx] of
        Some index \<Rightarrow> Inl (invalid_patch_line index ''unexpected content before *** Begin Patch'')
      | None \<Rightarrow>
     (case first_index_from (\<lambda>index. trim (lines ! index) \<noteq> []) [end_idx + 1..<length lines] of
        Some index \<Rightarrow> Inl (invalid_patch_line index ''unexpected content after *** End Patch'')
      | None \<Rightarrow> validate_ops lines end_idx (begin_idx + 1)))"

section \<open>The envelope\<close>

lemma add_content_loop_next: "add_content_loop rest i c = (c', j) \<Longrightarrow> i \<le> j"
  by (induction rest i c rule: add_content_loop.induct) (auto split: if_splits option.splits)

lemma chunk_rows_next: "chunk_rows rest i olds news = (os, ns, e, rest', j) \<Longrightarrow> i \<le> j"
  by (induction rest i olds news rule: chunk_rows.induct) (auto split: if_splits option.splits)

lemma chunks_loop_next: "chunks_loop rest i cs = (cs', j) \<Longrightarrow> i \<le> j"
proof (induction rest i cs rule: chunks_loop.induct)
  case (2 line rest i chunks)
  obtain olds news eof rest' i' where r: "chunk_rows rest (i + 1) [] [] = (olds, news, eof, rest', i')"
    by (metis prod_cases5)
  show ?case
    using "2.IH"(1) [OF _ _ refl r [symmetric] refl refl refl] "2.IH"(2) "2.prems" chunk_rows_next [OF r] r
    by (auto simp: Let_def split: if_splits)
qed simp

function parse_ops :: "rstr list \<Rightarrow> nat \<Rightarrow> nat \<Rightarrow> hunk list \<Rightarrow> rstr + hunk list" where
  "parse_ops lines end_idx i hunks =
     (if \<not> i < end_idx then Inr hunks
      else
        (case parse_patch_header lines i of
           None \<Rightarrow> parse_ops lines end_idx (i + 1) hunks
         | Some header \<Rightarrow>
             if length hunks \<ge> MAX_HUNKS
             then Inl (lit ''Patch exceeds maximum of '' @ show_nat MAX_HUNKS @ lit '' file operations'')
             else if starts_with (lines ! i) (lit ''*** Add File:'') then
               (case parse_add_file_content lines (next_idx header) of
                  (contents, j) \<Rightarrow> parse_ops lines end_idx j (hunks @ [Add (file_path header) contents]))
             else if starts_with (lines ! i) (lit ''*** Delete File:'') then
               parse_ops lines end_idx (next_idx header) (hunks @ [Delete (file_path header)])
             else if starts_with (lines ! i) (lit ''*** Update File:'') then
               (case parse_update_file_chunks lines (next_idx header) of
                  (chunks, j) \<Rightarrow>
                    parse_ops lines end_idx j (hunks @ [Update (file_path header) (move_path header) chunks]))
             else parse_ops lines end_idx (i + 1) hunks))"
  by pat_completeness auto
termination
  by (relation "measure (\<lambda>(_, end_idx, i, _). end_idx - i)")
    (auto simp: parse_patch_header_def parse_add_file_content_def parse_update_file_chunks_def
      split: prod.splits dest!: header_at_next add_content_loop_next dest: chunks_loop_next [OF sym])

declare parse_ops.simps [simp del]

definition patch_lines :: "rstr \<Rightarrow> rstr list" where
  "patch_lines cleaned = map strip_cr (split_on LF cleaned)"

definition missing_markers :: rstr where
  "missing_markers = lit ''Invalid patch format: missing *** Begin Patch / *** End Patch markers''"

definition parse_patch :: "heredoc_match \<Rightarrow> rstr \<Rightarrow> rstr + hunk list" where
  "parse_patch open_re patch_text =
     (if str_len patch_text > MAX_PATCH_SIZE
      then Inl (lit ''Patch too large: '' @ show_nat (str_len patch_text)
        @ lit '' bytes exceeds limit of '' @ show_nat MAX_PATCH_SIZE @ lit '' bytes'')
      else
        (let lines = patch_lines (strip_heredoc open_re (trim patch_text)) in
         case (position (\<lambda>line. trim line = lit ''*** Begin Patch'') lines,
               position (\<lambda>line. trim line = lit ''*** End Patch'') lines) of
           (Some begin_idx, Some end_idx) \<Rightarrow>
             if begin_idx \<ge> end_idx then Inl missing_markers
             else
               (case validate_patch_structure lines begin_idx end_idx of
                  Inl e \<Rightarrow> Inl e
                | Inr _ \<Rightarrow> parse_ops lines end_idx (begin_idx + 1) [])
         | _ \<Rightarrow> Inl missing_markers))"

section \<open>Printing an envelope\<close>

definition render_chunk :: "update_file_chunk \<Rightarrow> rstr list" where
  "render_chunk c =
     (lit ''@@'' @ (case change_context c of None \<Rightarrow> [] | Some x \<Rightarrow> SP # x))
     # map (Cons 45) (old_lines c) @ map (Cons 43) (new_lines c)
     @ (if is_end_of_file c then [lit ''*** End of File''] else [])"

fun render_hunk :: "hunk \<Rightarrow> rstr list" where
  "render_hunk (Add path contents) = (lit ''*** Add File: '' @ path) # map (Cons 43) (split_on LF contents)"
| "render_hunk (Delete path) = [lit ''*** Delete File: '' @ path]"
| "render_hunk (Update path move chunks) =
     (lit ''*** Update File: '' @ path)
     # (case move of None \<Rightarrow> [] | Some dest \<Rightarrow> [lit ''*** Move to: '' @ dest])
     @ concat (map render_chunk chunks)"

definition render_lines :: "hunk list \<Rightarrow> rstr list" where
  "render_lines hs = lit ''*** Begin Patch'' # concat (map render_hunk hs) @ [lit ''*** End Patch'']"

definition render_patch :: "hunk list \<Rightarrow> rstr" where
  "render_patch hs = join [LF] (render_lines hs)"

text \<open>A line that survives the split: no line feed, and no final carriage return.\<close>

definition plain_line :: "rstr \<Rightarrow> bool" where
  "plain_line l \<longleftrightarrow> LF \<notin> set l \<and> (l = [] \<or> last l \<noteq> CR)"

definition name_ok :: "rstr \<Rightarrow> bool" where
  "name_ok p \<longleftrightarrow> p \<noteq> [] \<and> trim p = p \<and> LF \<notin> set p"

definition chunk_ok :: "update_file_chunk \<Rightarrow> bool" where
  "chunk_ok c \<longleftrightarrow> list_all plain_line (old_lines c) \<and> list_all plain_line (new_lines c)
     \<and> (case change_context c of None \<Rightarrow> True | Some x \<Rightarrow> name_ok x)"

fun hunk_ok :: "hunk \<Rightarrow> bool" where
  "hunk_ok (Add path contents) \<longleftrightarrow> name_ok path \<and> list_all plain_line (split_on LF contents)"
| "hunk_ok (Delete path) \<longleftrightarrow> name_ok path"
| "hunk_ok (Update path move chunks) \<longleftrightarrow> name_ok path \<and> list_all chunk_ok chunks
     \<and> (case move of None \<Rightarrow> chunks \<noteq> [] | Some dest \<Rightarrow> name_ok dest)"

section \<open>Lines of a printed envelope\<close>

lemma trim_SP: "trim (SP # p) = trim p"
  by (simp add: trim_def trim_start_def is_whitespace_def)

lemma name_ok_simps:
  assumes "name_ok p"
  shows "p \<noteq> []" "trim p = p" "LF \<notin> set p" "trim (SP # p) = p" "\<not> is_whitespace (last p)" "last p \<noteq> CR"
proof -
  show ws: "\<not> is_whitespace (last p)" using assms last_trim [of p] by (auto simp: name_ok_def)
  then show "last p \<noteq> CR" by (auto simp: is_whitespace_def)
qed (use assms in \<open>auto simp: name_ok_def trim_SP\<close>)

lemma strip_prefix_headers:
  "strip_prefix (lit ''*** Add File: '' @ p) (lit ''*** Add File:'') = Some (SP # p)"
  "strip_prefix (lit ''*** Delete File: '' @ p) (lit ''*** Add File:'') = None"
  "strip_prefix (lit ''*** Delete File: '' @ p) (lit ''*** Delete File:'') = Some (SP # p)"
  "strip_prefix (lit ''*** Update File: '' @ p) (lit ''*** Add File:'') = None"
  "strip_prefix (lit ''*** Update File: '' @ p) (lit ''*** Delete File:'') = None"
  "strip_prefix (lit ''*** Update File: '' @ p) (lit ''*** Update File:'') = Some (SP # p)"
  "strip_prefix (lit ''*** Move to: '' @ p) (lit ''*** Move to:'') = Some (SP # p)"
  "strip_prefix (lit ''@@'' @ p) (lit ''*** Move to:'') = None"
  by (simp_all add: strip_prefix_def starts_with_def lit_def)

lemma starts_with_headers:
  "starts_with (lit ''*** Add File: '' @ p) (lit ''*** Add File:'')"
  "\<not> starts_with (lit ''*** Delete File: '' @ p) (lit ''*** Add File:'')"
  "starts_with (lit ''*** Delete File: '' @ p) (lit ''*** Delete File:'')"
  "\<not> starts_with (lit ''*** Delete File: '' @ p) (lit ''*** Update File:'')"
  "\<not> starts_with (lit ''*** Update File: '' @ p) (lit ''*** Add File:'')"
  "\<not> starts_with (lit ''*** Update File: '' @ p) (lit ''*** Delete File:'')"
  "starts_with (lit ''*** Update File: '' @ p) (lit ''*** Update File:'')"
  by (simp_all add: starts_with_def lit_def)

text \<open>The rows of a body are told apart by their first characters.\<close>

lemma row_starts:
  "\<not> starts_with (43 # l) (lit ''***'')" "\<not> starts_with (45 # l) (lit ''***'')"
  "\<not> starts_with (lit ''@@'' @ l) (lit ''***'')" "starts_with (lit ''@@'' @ l) (lit ''@@'')"
  "\<not> starts_with (43 # l) (lit ''@@'')" "\<not> starts_with (45 # l) (lit ''@@'')"
  "43 # l \<noteq> lit ''*** End of File''" "45 # l \<noteq> lit ''*** End of File''"
  "lit ''@@'' @ l \<noteq> lit ''*** End of File''"
  "strip_prefix (43 # l) (lit '' '') = None" "strip_prefix (45 # l) (lit '' '') = None"
  "strip_prefix (43 # l) (lit ''-'') = None" "strip_prefix (45 # l) (lit ''-'') = Some l"
  "strip_prefix (43 # l) (lit ''+'') = Some l"
  "starts_with (43 # l) (lit ''+'')" "starts_with (45 # l) (lit ''-'')"
  "[] \<noteq> lit ''*** End of File''" "\<not> starts_with (lit ''*** End of File'') (lit ''@@'')" "starts_with (lit ''*** End of File'') (lit ''***'')"
  by (simp_all add: starts_with_def strip_prefix_def lit_def)

definition marker :: "rstr list \<Rightarrow> bool" where
  "marker rest \<longleftrightarrow> rest = [] \<or> (starts_with (hd rest) (lit ''***'') \<and> hd rest \<noteq> lit ''*** End of File'')"

lemma add_content_loop_rows:
  "marker rest \<Longrightarrow> add_content_loop (map (Cons 43) ls @ rest) i c
     = (c @ concat (map (\<lambda>l. l @ [LF]) ls), i + length ls)"
  by (induction ls arbitrary: i c) (cases rest; auto simp: row_starts marker_def)+

lemma validate_add_rows:
  "marker rest \<Longrightarrow> validate_add (map (Cons 43) ls @ rest) i = Inr (i + length ls)"
  by (induction ls arbitrary: i) (cases rest; auto simp: row_starts marker_def)+

lemma not_at_marker: "starts_with l (lit ''***'') \<Longrightarrow> \<not> starts_with l (lit ''@@'')"
  by (cases l) (auto simp: starts_with_def lit_def)

lemma chunk_rows_old:
  "chunk_rows (map (Cons 45) os @ rest) i olds news = chunk_rows rest (i + length os) (olds @ os) news"
  by (induction os arbitrary: i olds) (auto simp: row_starts)

lemma chunk_rows_new:
  "chunk_rows (map (Cons 43) ns @ rest) i olds news = chunk_rows rest (i + length ns) olds (news @ ns)"
  by (induction ns arbitrary: i news) (auto simp: row_starts)

text \<open>What ends a chunk: another chunk, a marker, or the end of the lines.\<close>

definition chunk_end :: "rstr list \<Rightarrow> bool" where
  "chunk_end rest \<longleftrightarrow> rest = [] \<or> starts_with (hd rest) (lit ''@@'') \<or> marker rest"

lemma chunk_rows_end:
  "chunk_end rest \<Longrightarrow> chunk_rows ((if eof then [lit ''*** End of File''] else []) @ rest) i olds news
     = (olds, news, eof, rest, i + (if eof then 1 else 0))"
  by (cases rest) (auto simp: chunk_end_def marker_def row_starts not_at_marker)

lemma chunks_loop_rows:
  assumes "list_all chunk_ok cs" "marker rest"
  shows "chunks_loop (concat (map render_chunk cs) @ rest) i acc
         = (acc @ cs, i + length (concat (map render_chunk cs)))"
  using assms(1)
proof (induction cs arbitrary: i acc)
  case Nil
  then show ?case using assms(2) by (cases rest) (auto simp: marker_def)
next
  case (Cons c cs)
  let ?rest = "concat (map render_chunk cs) @ rest"
  have "chunk_end ?rest"
    using assms(2) by (cases cs) (auto simp: chunk_end_def render_chunk_def row_starts)
  then have rows: "chunk_rows (tl (render_chunk c) @ ?rest) (i + 1) [] []
      = (old_lines c, new_lines c, is_end_of_file c, ?rest, i + length (render_chunk c))"
    by (simp add: render_chunk_def chunk_rows_old chunk_rows_new chunk_rows_end)
  have ctx: "(let x = trim (drop 2 (hd (render_chunk c))) in if x = [] then None else Some x) = change_context c"
  proof (cases "change_context c")
    case (Some x)
    then have "name_ok x" using Cons.prems by (simp add: chunk_ok_def)
    then show ?thesis using Some by (simp add: render_chunk_def lit_def name_ok_simps)
  qed (simp add: render_chunk_def lit_def trim_def trim_start_def trim_end_def)
  have eta: "\<lparr>old_lines = old_lines c, new_lines = new_lines c, change_context = change_context c,
      is_end_of_file = is_end_of_file c\<rparr> = c" by (cases c) simp
  have head: "\<not> starts_with (hd (render_chunk c)) (lit ''***'')" "starts_with (hd (render_chunk c)) (lit ''@@'')"
    by (simp_all add: render_chunk_def row_starts)
  have "render_chunk c = hd (render_chunk c) # tl (render_chunk c)" by (simp add: render_chunk_def)
  then have "chunks_loop (concat (map render_chunk (c # cs)) @ rest) i acc
      = chunks_loop (hd (render_chunk c) # (tl (render_chunk c) @ ?rest)) i acc"
    by (metis append_Cons append_assoc concat.simps(2) list.map(2))
  also have "\<dots> = chunks_loop ?rest (i + length (render_chunk c)) (acc @
      [\<lparr>old_lines = old_lines c, new_lines = new_lines c, change_context = change_context c,
        is_end_of_file = is_end_of_file c\<rparr>])"
    using rows ctx head by (simp add: Let_def)
  also have "\<dots> = chunks_loop ?rest (i + length (render_chunk c)) (acc @ [c])"
    by (simp only: eta)
  finally show ?case using Cons by simp
qed

lemma validate_update_old:
  "validate_update (map (Cons 45) os @ rest) i True saw = validate_update rest (i + length os) True saw"
  by (induction os arbitrary: i) (auto simp: row_starts)

lemma validate_update_new:
  "validate_update (map (Cons 43) ns @ rest) i True saw = validate_update rest (i + length ns) True saw"
  by (induction ns arbitrary: i) (auto simp: row_starts)

lemma validate_update_chunk:
  "\<exists>b. validate_update (render_chunk c @ rest) i in_chunk saw
       = validate_update rest (i + length (render_chunk c)) b True"
  by (intro exI [of _ "\<not> is_end_of_file c"])
    (simp add: render_chunk_def row_starts validate_update_old validate_update_new add.assoc)

lemma validate_update_rows:
  "marker rest \<Longrightarrow> validate_update (concat (map render_chunk cs) @ rest) i in_chunk saw
     = Inr (saw \<or> cs \<noteq> [], i + length (concat (map render_chunk cs)))"
proof (induction cs arbitrary: i in_chunk saw)
  case Nil
  then show ?case by (cases rest) (auto simp: marker_def)
next
  case (Cons c cs)
  obtain b where "validate_update (render_chunk c @ concat (map render_chunk cs) @ rest) i in_chunk saw
      = validate_update (concat (map render_chunk cs) @ rest) (i + length (render_chunk c)) b True"
    using validate_update_chunk by blast
  then show ?case using Cons.IH [OF Cons.prems] by (simp add: add.assoc)
qed

section \<open>One operation of a printed envelope\<close>

lemma header_at_hunk:
  assumes "hunk_ok h" "marker rest"
  shows "header_at (render_hunk h @ rest) i = Some (case h of
      Add p _ \<Rightarrow> \<lparr>file_path = p, move_path = None, next_idx = i + 1\<rparr>
    | Delete p \<Rightarrow> \<lparr>file_path = p, move_path = None, next_idx = i + 1\<rparr>
    | Update p mv _ \<Rightarrow> \<lparr>file_path = p, move_path = mv, next_idx = i + (if mv = None then 1 else 2)\<rparr>)"
proof (cases h)
  case (Update p mv cs)
  then have ok: "name_ok p" "mv = None \<Longrightarrow> cs \<noteq> []" "\<And>d. mv = Some d \<Longrightarrow> name_ok d"
    using assms(1) by (auto split: option.splits)
  show ?thesis
  proof (cases mv)
    case None
    then obtain c cs' where "cs = c # cs'" using ok(2) by (cases cs) auto
    then show ?thesis using Update None ok(1)
      by (simp add: header_at_def strip_prefix_headers name_ok_simps render_chunk_def)
  qed (use Update ok in \<open>simp add: header_at_def strip_prefix_headers name_ok_simps\<close>)
qed (use assms in \<open>simp_all add: header_at_def strip_prefix_headers name_ok_simps\<close>)

lemma parse_ops_hunk:
  assumes ok: "hunk_ok h" "marker rest" and at: "drop i lines = render_hunk h @ rest"
    and i: "i < end_idx" "length hunks < MAX_HUNKS"
  shows "parse_ops lines end_idx i hunks = parse_ops lines end_idx (i + length (render_hunk h)) (hunks @ [h])"
proof -
  have li: "lines ! i = hd (render_hunk h)"
    using at by (intro nth_via_drop [of _ _ _ "tl (render_hunk h) @ rest"]) (cases h; simp)
  have nx: "drop (i + k) lines = drop k (render_hunk h @ rest)" for k
    using at by (metis add.commute drop_drop)
  note hd = header_at_hunk [OF ok, of i]
  show ?thesis
  proof (cases h)
    case (Add p c)
    have "drop (Suc i) lines = map (Cons 43) (split_on LF c) @ rest" using nx [of 1] Add by simp
    then have "parse_add_file_content lines (Suc i) = (c, Suc i + length (split_on LF c))"
      using ok(2) add_content_loop_rows [of rest "split_on LF c" "Suc i" "[]"]
      by (simp add: parse_add_file_content_def concat_lines ends_with_suffix)
    then show ?thesis using i li hd at Add
      by (subst parse_ops.simps) (simp add: parse_patch_header_def starts_with_headers)
  next
    case (Delete p)
    then show ?thesis using i li hd at
      by (subst parse_ops.simps) (simp add: parse_patch_header_def starts_with_headers)
  next
    case (Update p mv cs)
    let ?n = "if mv = None then 1 else 2"
    have "drop (i + ?n) lines = concat (map render_chunk cs) @ rest"
      using nx [of ?n] Update by (auto split: option.splits)
    then have "parse_update_file_chunks lines (i + ?n) = (cs, i + ?n + length (concat (map render_chunk cs)))"
      using ok Update chunks_loop_rows [of cs rest "i + ?n" "[]"] by (simp add: parse_update_file_chunks_def)
    moreover have "length (render_hunk h) = ?n + length (concat (map render_chunk cs))"
      using Update by (auto split: option.splits)
    ultimately show ?thesis using i li hd at Update
      by (subst parse_ops.simps) (cases mv; simp add: parse_patch_header_def starts_with_headers add.assoc)
  qed
qed

lemma validate_ops_hunk:
  assumes ok: "hunk_ok h" "marker rest" and at: "drop i lines = render_hunk h @ rest"
    and e: "end_idx \<le> length lines" "i + length (render_hunk h) \<le> end_idx"
  shows "validate_ops lines end_idx i = validate_ops lines end_idx (i + length (render_hunk h))"
proof -
  have li: "lines ! i = hd (render_hunk h)"
    using at by (intro nth_via_drop [of _ _ _ "tl (render_hunk h) @ rest"]) (cases h; simp)
  have ne: "hd (render_hunk h) \<noteq> []" "0 < length (render_hunk h)" by (cases h; simp add: lit_def)+
  have seg: "take (end_idx - (i + k)) (drop (i + k) lines)
      = drop k (render_hunk h) @ take (end_idx - (i + length (render_hunk h))) rest"
    if "k \<le> length (render_hunk h)" for k
  proof -
    have "drop (i + k) lines = drop k (render_hunk h) @ rest" using at that drop_drop [of k i lines] by (simp add: add.commute)
    then show ?thesis using e(2) that by (simp add: take_append)
  qed
  have mk: "marker (take n rest)" for n using ok(2) by (cases rest; cases n) (auto simp: marker_def)
  note hd = header_at_hunk [OF ok, of i]
  show ?thesis
  proof (cases h)
    case (Add p c)
    then have "take (end_idx - Suc i) (drop (Suc i) lines)
        = map (Cons 43) (split_on LF c) @ take (end_idx - (i + length (render_hunk h))) rest"
      using seg [of 1] by simp
    then show ?thesis using e ne li hd at Add validate_add_rows [OF mk]
      by (subst validate_ops.simps) (simp add: parse_patch_header_def starts_with_headers)
  next
    case (Delete p)
    then show ?thesis using e ne li hd at
      by (subst validate_ops.simps) (simp add: parse_patch_header_def starts_with_headers)
  next
    case (Update p mv cs)
    let ?n = "if mv = None then 1 else 2"
    have len: "length (render_hunk h) = ?n + length (concat (map render_chunk cs))"
      "drop ?n (render_hunk h) = concat (map render_chunk cs)"
      using Update by (auto split: option.splits)
    then have "take (end_idx - (i + ?n)) (drop (i + ?n) lines)
        = concat (map render_chunk cs) @ take (end_idx - (i + length (render_hunk h))) rest"
      using seg [of ?n] by simp
    then have "validate_update (take (end_idx - (i + ?n)) (drop (i + ?n) lines)) (i + ?n) False False
        = Inr (cs \<noteq> [], i + length (render_hunk h))"
      using validate_update_rows [OF mk] len(1) by (simp add: add.assoc)
    moreover have "mv \<noteq> Some []" "mv = None \<Longrightarrow> cs \<noteq> []"
      using ok(1) Update by (auto simp: name_ok_def)
    ultimately show ?thesis using e ne li hd at Update
      by (subst validate_ops.simps) (cases mv; simp add: parse_patch_header_def starts_with_headers)
  qed
qed

section \<open>All operations of a printed envelope\<close>

lemma marker_hunks: "marker (concat (map render_hunk hs) @ [lit ''*** End Patch''])"
proof (cases hs)
  case (Cons h hs')
  then show ?thesis by (cases h) (simp_all add: marker_def starts_with_def lit_def)
qed (simp add: marker_def starts_with_def lit_def)

lemma render_hunk_not_Nil: "render_hunk h \<noteq> []"
  by (cases h) auto

lemma parse_ops_hunks:
  assumes "list_all hunk_ok hs" "drop i lines = concat (map render_hunk hs) @ [lit ''*** End Patch'']"
    "end_idx = i + length (concat (map render_hunk hs))" "length acc + length hs \<le> MAX_HUNKS"
  shows "parse_ops lines end_idx i acc = Inr (acc @ hs)"
  using assms
proof (induction hs arbitrary: i acc)
  case Nil
  then show ?case by (subst parse_ops.simps) simp
next
  case (Cons h hs)
  let ?rest = "concat (map render_hunk hs) @ [lit ''*** End Patch'']"
  have "i < end_idx" using Cons.prems(3) render_hunk_not_Nil [of h] by (cases "render_hunk h") auto
  then have "parse_ops lines end_idx i acc = parse_ops lines end_idx (i + length (render_hunk h)) (acc @ [h])"
    using parse_ops_hunk [of h ?rest i lines end_idx acc] Cons.prems marker_hunks by simp
  moreover have "drop (i + length (render_hunk h)) lines = ?rest"
    using drop_after [of i lines "render_hunk h" ?rest] Cons.prems(2) by simp
  ultimately show ?case using Cons.IH [of "i + length (render_hunk h)" "acc @ [h]"] Cons.prems
    by (simp add: add.assoc)
qed

lemma validate_ops_hunks:
  assumes "list_all hunk_ok hs" "drop i lines = concat (map render_hunk hs) @ [lit ''*** End Patch'']"
    "end_idx = i + length (concat (map render_hunk hs))"
  shows "validate_ops lines end_idx i = Inr ()"
  using assms
proof (induction hs arbitrary: i)
  case Nil
  then show ?case by (subst validate_ops.simps) simp
next
  case (Cons h hs)
  let ?rest = "concat (map render_hunk hs) @ [lit ''*** End Patch'']"
  have "length (drop i lines) = length (concat (map render_hunk (h # hs))) + 1"
    unfolding Cons.prems(2) by simp
  then have "end_idx \<le> length lines" using Cons.prems(3) by simp
  then have "validate_ops lines end_idx i = validate_ops lines end_idx (i + length (render_hunk h))"
    using validate_ops_hunk [of h ?rest i lines end_idx] Cons.prems marker_hunks by simp
  moreover have "drop (i + length (render_hunk h)) lines = ?rest"
    using drop_after [of i lines "render_hunk h" ?rest] Cons.prems(2) by simp
  ultimately show ?case using Cons.IH [of "i + length (render_hunk h)"] Cons.prems
    by (simp add: add.assoc)
qed

text \<open>The printed lines survive the split, and only the last one is an end marker.\<close>

lemma hd_trim_row: "\<not> is_whitespace c \<Longrightarrow> \<exists>r. trim (c # s) = c # r"
proof -
  assume c: "\<not> is_whitespace c"
  have ts: "trim_start (c # s) = c # s" using c by (simp add: trim_start_def)
  have "trim (c # s) \<noteq> []" using c by (simp add: trim_Nil_iff)
  moreover obtain z where "c # s = trim (c # s) @ z"
    using trim_end_prefix [of "c # s"] by (auto simp: trim_def ts prefix_def)
  ultimately show ?thesis by (metis append_eq_Cons_conv)
qed

definition body_line :: "rstr \<Rightarrow> bool" where
  "body_line l \<longleftrightarrow> plain_line l \<and> trim l \<noteq> lit ''*** End Patch''"

lemma body_line_row:
  assumes "plain_line l" "c \<noteq> 42" "\<not> is_whitespace c"
  shows "body_line (c # l)"
proof -
  have "trim (c # l) \<noteq> lit ''*** End Patch''" using hd_trim_row [OF assms(3), of l] assms(2) by (auto simp: lit_def)
  moreover have "plain_line (c # l)" using assms by (auto simp: plain_line_def is_whitespace_def)
  ultimately show ?thesis by (simp add: body_line_def)
qed

lemma body_line_header:
  assumes "name_ok p" "w \<noteq> []" "hd w = 42" "LF \<notin> set w" "\<And>q. w @ q \<noteq> lit ''*** End Patch''"
  shows "body_line (w @ p)"
proof -
  have "trim (w @ p) = w @ p"
    using assms name_ok_simps(5) [OF assms(1)] by (intro trim_id) (auto simp: name_ok_def is_whitespace_def)
  moreover have "plain_line (w @ p)"
    using assms name_ok_simps(5) [OF assms(1)] by (auto simp: plain_line_def name_ok_def is_whitespace_def)
  ultimately show ?thesis using assms(5) by (simp add: body_line_def)
qed

lemma body_headers:
  assumes "name_ok p"
  shows "body_line (lit ''*** Add File: '' @ p)" "body_line (lit ''*** Delete File: '' @ p)"
    "body_line (lit ''*** Update File: '' @ p)" "body_line (lit ''*** Move to: '' @ p)"
  by (rule body_line_header [OF assms]; simp add: lit_def)+

lemma body_lines_chunk: "chunk_ok c \<Longrightarrow> list_all body_line (render_chunk c)"
proof -
  assume c: "chunk_ok c"
  have "list_all body_line (map (Cons 45) (old_lines c))" "list_all body_line (map (Cons 43) (new_lines c))"
    using c by (auto simp: chunk_ok_def list_all_iff is_whitespace_def intro: body_line_row)
  moreover have "body_line (lit ''*** End of File'')" by code_simp
  moreover have "body_line (lit ''@@'' @ (case change_context c of None \<Rightarrow> [] | Some x \<Rightarrow> SP # x))"
  proof -
    have "plain_line (64 # (case change_context c of None \<Rightarrow> [] | Some x \<Rightarrow> SP # x))"
      using c name_ok_simps by (auto simp: chunk_ok_def plain_line_def split: option.splits)
    then show ?thesis using body_line_row [of _ 64] by (simp add: lit_def is_whitespace_def)
  qed
  ultimately show ?thesis by (simp add: render_chunk_def)
qed

lemma body_lines_hunk: "hunk_ok h \<Longrightarrow> list_all body_line (render_hunk h)"
proof (cases h)
  case (Add p c)
  assume "hunk_ok h"
  then have "body_line (lit ''*** Add File: '' @ p)" "list_all plain_line (split_on LF c)"
    using Add body_headers by auto
  moreover have "body_line (43 # l)" if "plain_line l" for l
    using that by (intro body_line_row) (auto simp: is_whitespace_def)
  ultimately show ?thesis using Add by (simp add: list_all_iff)
next
  case (Delete p)
  assume "hunk_ok h"
  then show ?thesis using Delete body_headers by simp
next
  case (Update p mv cs)
  assume ok: "hunk_ok h"
  then have "body_line (lit ''*** Update File: '' @ p)" "\<And>d. mv = Some d \<Longrightarrow> body_line (lit ''*** Move to: '' @ d)"
    using Update body_headers by (auto split: option.splits)
  moreover have "list_all body_line (concat (map render_chunk cs))"
    using ok Update body_lines_chunk by (auto simp: list_all_iff split: option.splits)
  ultimately show ?thesis using Update by (simp split: option.splits)
qed

lemma patch_lines_render:
  assumes "list_all hunk_ok hs"
  shows "patch_lines (render_patch hs) = render_lines hs"
proof -
  have body: "list_all body_line (concat (map render_hunk hs))"
    using assms body_lines_hunk by (auto simp: list_all_iff)
  have plain: "\<forall>l \<in> set (render_lines hs). plain_line l"
    using body by (auto simp: render_lines_def list_all_iff body_line_def) (simp_all add: plain_line_def lit_def)
  then have "split_on LF (join [LF] (render_lines hs)) = render_lines hs"
    by (intro split_on_join) (auto simp: plain_line_def render_lines_def)
  moreover have "strip_cr l = l" if "plain_line l" for l
    using that by (auto simp: strip_cr_def plain_line_def strip_suffix_Some split: option.splits)
  ultimately show ?thesis using plain by (simp add: patch_lines_def render_patch_def map_idI)
qed

lemma render_patch_trim: "trim (render_patch hs) = render_patch hs"
proof -
  have j: "render_patch hs = lit ''*** Begin Patch'' @ [LF] @ join [LF] (concat (map render_hunk hs) @ [lit ''*** End Patch''])"
    by (simp add: render_patch_def render_lines_def join_Cons)
  then show ?thesis unfolding j concat_join [symmetric]
    by (intro trim_id) (simp add: lit_def is_whitespace_def)
qed

section \<open>Properties\<close>

text \<open>C13. Printing a patch and parsing it gives back its operations: paths, move destinations, added
  contents, and every chunk with its context, rows and end-of-file flag. The printed form has no
  heredoc wrapper, so the opening pattern, which must start with \<^verbatim>\<open>cat\<close> or \<^verbatim>\<open><<\<close>, does not
  match it.\<close>

theorem parse_render_patch:
  assumes "\<And>s. s \<noteq> [] \<Longrightarrow> hd s \<noteq> 99 \<Longrightarrow> hd s \<noteq> 60 \<Longrightarrow> open_re s = None"
    and "list_all hunk_ok hs" "length hs \<le> MAX_HUNKS" "str_len (render_patch hs) \<le> MAX_PATCH_SIZE"
  shows "parse_patch open_re (render_patch hs) = Inr hs"
proof -
  let ?lines = "render_lines hs" and ?body = "concat (map render_hunk hs)"
  have "hd (render_patch hs) = 42" "render_patch hs \<noteq> []"
    by (simp_all add: render_patch_def render_lines_def join_Cons lit_def)
  then have lines: "patch_lines (strip_heredoc open_re (trim (render_patch hs))) = ?lines"
    using assms(1) [of "render_patch hs"] patch_lines_render [OF assms(2)]
    by (simp add: strip_heredoc_def render_patch_trim)
  have body: "list_all body_line ?body" using assms(2) body_lines_hunk by (auto simp: list_all_iff)
  have b: "position (\<lambda>l. trim l = lit ''*** Begin Patch'') ?lines = Some 0"
    using trim_id [of "lit ''*** Begin Patch''"] by (simp add: render_lines_def lit_def is_whitespace_def)
  have t: "trim (lit ''*** Begin Patch'') \<noteq> lit ''*** End Patch''" "trim (lit ''*** End Patch'') = lit ''*** End Patch''"
    by code_simp+
  have e: "position (\<lambda>l. trim l = lit ''*** End Patch'') ?lines = Some (Suc (length ?body))"
    using position_append [of "\<lambda>l. trim l = lit ''*** End Patch''" "lit ''*** Begin Patch'' # ?body" "lit ''*** End Patch''" "[]"]
      body t by (simp add: render_lines_def list_all_iff body_line_def)
  have d: "drop 1 ?lines = ?body @ [lit ''*** End Patch'']" by (simp add: render_lines_def)
  have "validate_patch_structure ?lines 0 (Suc (length ?body)) = Inr ()"
    using validate_ops_hunks [OF assms(2) d, of "Suc (length ?body)"]
    by (simp add: validate_patch_structure_def render_lines_def)
  then show ?thesis using assms(3,4) lines b e parse_ops_hunks [OF assms(2) d, of "Suc (length ?body)" "[]"]
    by (simp add: parse_patch_def)
qed

lemma heredoc_open_anchored: "s \<noteq> [] \<Longrightarrow> hd s \<noteq> 99 \<Longrightarrow> hd s \<noteq> 60 \<Longrightarrow> heredoc_open s = None"
  by (cases s) (simp_all add: heredoc_open_def strip_prefix_def starts_with_def lit_def)

theorem parse_render_patch_witness:
  "parse_patch heredoc_open (render_patch
     [Add (lit ''a b.txt'') (lit ''x'' @ [LF] @ lit ''  y''),
      Update (lit ''c.rs'') (Some (lit ''d.rs''))
        [\<lparr>old_lines = [lit ''p'', []], new_lines = [lit ''q''], change_context = Some (lit ''fn f''),
          is_end_of_file = True\<rparr>],
      Delete (lit ''e'')])
   = Inr [Add (lit ''a b.txt'') (lit ''x'' @ [LF] @ lit ''  y''),
      Update (lit ''c.rs'') (Some (lit ''d.rs''))
        [\<lparr>old_lines = [lit ''p'', []], new_lines = [lit ''q''], change_context = Some (lit ''fn f''),
          is_end_of_file = True\<rparr>],
      Delete (lit ''e'')]"
  by (rule parse_render_patch [OF heredoc_open_anchored], assumption+) code_simp+

section \<open>The validation covers what the parser reads\<close>

lemma chunks_loop_length: "chunks_loop rest i cs = (cs', j) \<Longrightarrow> length cs \<le> length cs'"
proof (induction rest i cs rule: chunks_loop.induct)
  case (2 line rest i chunks)
  obtain olds news eof rest' i' where r: "chunk_rows rest (i + 1) [] [] = (olds, news, eof, rest', i')"
    by (metis prod_cases5)
  show ?case
    using "2.IH"(1) [OF _ _ refl r [symmetric] refl refl refl] "2.IH"(2) "2.prems" r
    by (auto simp: Let_def split: if_splits)
qed simp

text \<open>Where the validation of an update body stops and where the parser stops: at the same line, or
  both at or past the end of the envelope.\<close>

definition same_stop :: "nat \<Rightarrow> nat \<Rightarrow> nat \<Rightarrow> bool" where
  "same_stop end_idx j j' \<longleftrightarrow> j \<le> end_idx \<and> (j < end_idx \<longrightarrow> j' = j) \<and> (j = end_idx \<longrightarrow> end_idx \<le> j')"

lemma validate_add_same_stop:
  assumes "n \<le> length rest" "validate_add (take n rest) i = Inr j" "add_content_loop rest i c = (c', j')"
  shows "same_stop (i + n) j j'"
  using assms
proof (induction rest arbitrary: n i c)
  case (Cons line rest)
  show ?case
  proof (cases n)
    case 0
    then show ?thesis using Cons.prems add_content_loop_next [OF Cons.prems(3)] by (simp add: same_stop_def)
  next
    case (Suc m)
    then show ?thesis using Cons.prems Cons.IH [of m "i + 1"]
      by (auto simp: same_stop_def split: if_splits option.splits)
  qed
qed (auto simp: same_stop_def)

lemma validate_update_same_stop:
  assumes "n \<le> length rest"
  shows "validate_update (take n rest) i False saw = Inr (saw', j) \<Longrightarrow> chunks_loop rest i cs = (cs', j') \<Longrightarrow>
      same_stop (i + n) j j' \<and> (saw' \<longrightarrow> saw \<or> length cs < length cs')"
    and "validate_update (take n rest) i True saw = Inr (saw', j) \<Longrightarrow>
      chunk_rows rest i olds news = (olds', news', eof, rest', i') \<Longrightarrow> chunks_loop rest' i' cs = (cs', j') \<Longrightarrow>
      same_stop (i + n) j j' \<and> (saw' \<longrightarrow> saw \<or> length cs < length cs')"
  using assms
proof (induction rest arbitrary: n i saw cs olds news olds' news' eof rest' i')
  case Nil
  {
    case 1
    then show ?case by (simp add: same_stop_def)
  next
    case 2
    then show ?case by (auto simp: same_stop_def)
  }
next
  case (Cons line rest)
  have chunk: "same_stop (Suc i + m) j j' \<and> length cs < length cs'"
    if at: "starts_with line (lit ''@@'')" "chunks_loop (line # rest) i cs = (cs', j')"
      and val: "validate_update (take m rest) (Suc i) True True = Inr (saw', j)" and m: "m \<le> length rest"
    for m i cs
  proof -
    obtain os ns e r k where row: "chunk_rows rest (Suc i) [] [] = (os, ns, e, r, k)"
      by (metis prod_cases5)
    have "\<not> starts_with line (lit ''***'')" using at(1) not_at_marker by blast
    then obtain c where loop: "chunks_loop r k (cs @ [c]) = (cs', j')"
      using at row by (auto simp: Let_def)
    show ?thesis using Cons.IH(2) [OF val row loop m] chunks_loop_length [OF loop] by simp
  qed
  {
    case 1
    show ?case
    proof (cases n)
      case 0
      then show ?thesis using 1 chunks_loop_next [OF 1(2)] by (simp add: same_stop_def)
    next
      case (Suc m)
      then have m: "m \<le> length rest" using 1(3) by simp
      show ?thesis
      proof (cases "starts_with line (lit ''@@'')")
        case True
        moreover have "\<not> starts_with line (lit ''***'')" using True not_at_marker by blast
        ultimately have "validate_update (take m rest) (Suc i) True True = Inr (saw', j)"
          using 1(1) Suc by simp
        then show ?thesis using chunk [OF True 1(2) _ m] Suc by simp
      next
        case False
        then show ?thesis using 1 Suc Cons.IH(1) [of m "Suc i"]
          by (auto simp: same_stop_def split: if_splits)
      qed
    qed
  next
    case 2
    show ?case
    proof (cases n)
      case 0
      then show ?thesis using 2 chunks_loop_next [OF 2(3)] chunk_rows_next [OF 2(2)] by (simp add: same_stop_def)
    next
      case (Suc m)
      then have m: "m \<le> length rest" using 2(4) by simp
      show ?thesis
      proof (cases "starts_with line (lit ''@@'')")
        case True
        moreover have "\<not> starts_with line (lit ''***'')" using True not_at_marker by blast
        moreover from this have "line \<noteq> lit ''*** End of File''" using row_starts by auto
        ultimately have "validate_update (take m rest) (Suc i) True True = Inr (saw', j)"
          "chunks_loop (line # rest) i cs = (cs', j')"
          using 2(1-3) Suc by auto
        then show ?thesis using chunk [OF True _ _ m] Suc by simp
      next
        case False
        consider "line = lit ''*** End of File''"
          | "line \<noteq> lit ''*** End of File''" "starts_with line (lit ''***'')"
          | "line \<noteq> lit ''*** End of File''" "\<not> starts_with line (lit ''***'')" by blast
        then show ?thesis
        proof cases
          case 1
          then have "validate_update (take m rest) (Suc i) False saw = Inr (saw', j)"
            "chunks_loop rest (Suc i) cs = (cs', j')" using 2(1-3) Suc False by auto
          from Cons.IH(1) [OF this m] show ?thesis using Suc by simp
        next
          case stars: 2
          then show ?thesis using 2 Suc False by (auto simp: same_stop_def)
        next
          case 3
          then have v: "validate_update (take m rest) (Suc i) True saw = Inr (saw', j)"
            using 2(1) Suc False by (auto split: if_splits)
          obtain os ns where "chunk_rows rest (Suc i) os ns = (olds', news', eof, rest', i')"
            using 2(2) 3 False by (auto split: if_splits option.splits)
          from Cons.IH(2) [OF v this 2(3) m] show ?thesis using Suc by simp
        qed
      qed
    qed
  }
qed

section \<open>What an accepted patch satisfies\<close>

definition trimmed_name :: "rstr \<Rightarrow> bool" where
  "trimmed_name p \<longleftrightarrow> p \<noteq> [] \<and> trim p = p"

fun accepted_hunk :: "hunk \<Rightarrow> bool" where
  "accepted_hunk (Add path _) \<longleftrightarrow> trimmed_name path"
| "accepted_hunk (Delete path) \<longleftrightarrow> trimmed_name path"
| "accepted_hunk (Update path move chunks) \<longleftrightarrow> trimmed_name path
     \<and> (case move of None \<Rightarrow> chunks \<noteq> [] | Some dest \<Rightarrow> trimmed_name dest)
     \<and> (\<forall>c \<in> set chunks. \<forall>x. change_context c = Some x \<longrightarrow> trimmed_name x)"

lemma chunks_loop_contexts:
  "chunks_loop rest i cs = (cs', j) \<Longrightarrow>
   \<forall>c \<in> set cs. \<forall>x. change_context c = Some x \<longrightarrow> trimmed_name x \<Longrightarrow>
   \<forall>c \<in> set cs'. \<forall>x. change_context c = Some x \<longrightarrow> trimmed_name x"
proof (induction rest i cs rule: chunks_loop.induct)
  case (2 line rest i chunks)
  obtain olds news eof rest' i' where r: "chunk_rows rest (i + 1) [] [] = (olds, news, eof, rest', i')"
    by (metis prod_cases5)
  have "\<forall>c \<in> set (chunks @ [\<lparr>old_lines = olds, new_lines = news,
      change_context = (if trim (drop 2 line) = [] then None else Some (trim (drop 2 line))),
      is_end_of_file = eof\<rparr>]). \<forall>x. change_context c = Some x \<longrightarrow> trimmed_name x"
    using "2.prems"(2) by (auto simp: trimmed_name_def)
  then show ?case
    using "2.IH"(1) [OF _ _ refl r [symmetric] refl refl refl] "2.IH"(2) "2.prems" r
    by (auto simp: Let_def split: if_splits)
qed simp

lemma header_at_names:
  "header_at rest i = Some h \<Longrightarrow> trimmed_name (file_path h)
     \<and> (\<forall>d. move_path h = Some d \<longrightarrow> trim d = d)
     \<and> (move_path h \<noteq> None \<longrightarrow> starts_with (hd rest) (lit ''*** Update File:''))"
  by (auto simp: header_at_def trimmed_name_def strip_prefix_def split: list.splits option.splits if_splits)

lemma header_at_prefix:
  assumes "header_at (line # rest) i = Some h"
  shows "starts_with line (lit ''*** Add File:'') \<or> starts_with line (lit ''*** Delete File:'')
    \<or> starts_with line (lit ''*** Update File:'')"
  using assms by (auto simp: header_at_def strip_prefix_def split: option.splits if_splits)

lemma header_at_blank: "header_at ([] # rest) i = None"
  by (simp add: header_at_def strip_prefix_def starts_with_def lit_def)

lemma not_update_delete:
  "starts_with s (lit ''*** Update File:'') \<Longrightarrow> \<not> starts_with s (lit ''*** Delete File:'')"
  by (auto simp: starts_with_def lit_def)

lemma accepted_update:
  assumes "header_at rest i = Some h" "move_path h \<noteq> Some []"
    and "chunks_loop rest' j [] = (chunks, k)" "move_path h = None \<Longrightarrow> chunks \<noteq> []"
  shows "accepted_hunk (Update (file_path h) (move_path h) chunks)"
  using header_at_names [OF assms(1)] assms(2,4) chunks_loop_contexts [OF assms(3)]
  by (auto simp: trimmed_name_def split: option.splits)

lemma parse_ops_from_stop:
  assumes "j < e \<Longrightarrow> j' = j" "e \<le> j \<Longrightarrow> e \<le> j'" "parse_ops lines e j' hs = Inr hs'"
    and "j < e \<Longrightarrow> parse_ops lines e j hs = Inr hs' \<Longrightarrow> list_all accepted_hunk hs'"
    and "list_all accepted_hunk hs"
  shows "list_all accepted_hunk hs'"
  using assms by (cases "j < e") (auto simp: parse_ops.simps [of lines e j'])

lemma add_stop:
  assumes "validate_add (take (e - n) (drop n lines)) n = Inr j" "parse_add_file_content lines n = (c, k)"
    and "e \<le> length lines"
  shows "j < e \<Longrightarrow> k = j" "e \<le> j \<Longrightarrow> e \<le> k"
proof -
  obtain c' where k: "add_content_loop (drop n lines) n [] = (c', k)"
    using assms(2) by (auto simp: parse_add_file_content_def split: prod.splits)
  have "same_stop (n + (e - n)) j k" using validate_add_same_stop [OF _ assms(1) k] assms(3) by simp
  then show "j < e \<Longrightarrow> k = j" "e \<le> j \<Longrightarrow> e \<le> k"
    using validate_add_next [OF assms(1)] add_content_loop_next [OF k] by (auto simp: same_stop_def)
qed

lemma update_stop:
  assumes "validate_update (take (e - n) (drop n lines)) n False False = Inr (saw, j)"
    and "parse_update_file_chunks lines n = (cs, k)" "e \<le> length lines"
  shows "j < e \<Longrightarrow> k = j" "e \<le> j \<Longrightarrow> e \<le> k" "saw \<Longrightarrow> cs \<noteq> []"
proof -
  note k = assms(2) [unfolded parse_update_file_chunks_def]
  have *: "same_stop (n + (e - n)) j k \<and> (saw \<longrightarrow> False \<or> length ([] :: update_file_chunk list) < length cs)"
    using validate_update_same_stop(1) [OF _ assms(1) k] assms(3) by simp
  then show "j < e \<Longrightarrow> k = j" "e \<le> j \<Longrightarrow> e \<le> k" "saw \<Longrightarrow> cs \<noteq> []"
    using validate_update_next [OF assms(1)] chunks_loop_next [OF k] by (auto simp: same_stop_def)
qed

lemma parse_ops_accepted:
  assumes "validate_ops lines e i = Inr ()" "parse_ops lines e i hs = Inr hs'"
    and "e \<le> length lines" "list_all accepted_hunk hs"
  shows "list_all accepted_hunk hs'"
  using assms
proof (induction lines e i arbitrary: hs rule: validate_ops.induct)
  case (1 lines e i)
  note v = "1.prems"(1) [unfolded validate_ops.simps [of lines e i]]
    and p = "1.prems"(2) [unfolded parse_ops.simps [of lines e i]]
  consider "\<not> i < e" | "i < e" "lines ! i = []" | "i < e" "lines ! i \<noteq> []" by blast
  then show ?case
  proof cases
    case 1
    then show ?thesis using "1.prems"(4) p by simp
  next
    case 2
    then have "parse_patch_header lines i = None"
      using "1.prems"(3) by (simp add: parse_patch_header_def header_at_blank Cons_nth_drop_Suc [symmetric])
    then show ?thesis using "1.IH"(1) [of hs] "1.prems" 2 v p by simp
  next
    case 3
    then obtain h where h: "parse_patch_header lines i = Some h" and mv: "move_path h \<noteq> Some []"
      using v by (auto split: option.splits if_splits)
    have at_i: "drop i lines = lines ! i # drop (Suc i) lines" using 3(1) "1.prems"(3) by (simp add: Cons_nth_drop_Suc)
    note hd = h [unfolded parse_patch_header_def]
    have name: "trimmed_name (file_path h)" using header_at_names [OF hd] by blast
    let ?n = "next_idx h"
    consider (Add) "starts_with (lines ! i) (lit ''*** Add File:'')"
      | (Update) "\<not> starts_with (lines ! i) (lit ''*** Add File:'')" "starts_with (lines ! i) (lit ''*** Update File:'')"
      | (Delete) "\<not> starts_with (lines ! i) (lit ''*** Add File:'')"
        "\<not> starts_with (lines ! i) (lit ''*** Update File:'')" "starts_with (lines ! i) (lit ''*** Delete File:'')"
      using header_at_prefix [OF hd [unfolded at_i]] by blast
    then show ?thesis
    proof cases
      case Add
      obtain j where j: "validate_add (take (e - ?n) (drop ?n lines)) ?n = Inr j" "validate_ops lines e j = Inr ()"
        using v 3 h mv Add by (auto split: sum.splits)
      obtain c k where k: "parse_add_file_content lines ?n = (c, k)"
          "parse_ops lines e k (hs @ [Add (file_path h) c]) = Inr hs'"
        using p 3 h Add by (auto split: prod.splits if_splits)
      show ?thesis
        using parse_ops_from_stop [OF add_stop [OF j(1) k(1) "1.prems"(3)] k(2)] name "1.prems"(4)
          "1.IH"(2) [of h j, OF _ _ h mv Add j(1) j(2) _ "1.prems"(3)] 3 by simp
    next
      case Update
      obtain saw j where j: "validate_update (take (e - ?n) (drop ?n lines)) ?n False False = Inr (saw, j)"
          "validate_ops lines e j = Inr ()" "\<not> (\<not> saw \<and> move_path h = None)"
        using v 3 h mv Update by (auto split: sum.splits if_splits)
      obtain cs k where k: "parse_update_file_chunks lines ?n = (cs, k)"
          "parse_ops lines e k (hs @ [Update (file_path h) (move_path h) cs]) = Inr hs'"
        using p 3 h Update not_update_delete by (auto split: prod.splits if_splits)
      have "accepted_hunk (Update (file_path h) (move_path h) cs)"
        using accepted_update [OF hd mv k(1) [unfolded parse_update_file_chunks_def]]
          update_stop(3) [OF j(1) k(1) "1.prems"(3)] j(3) by blast
      then show ?thesis
        using parse_ops_from_stop [OF update_stop(1,2) [OF j(1) k(1) "1.prems"(3)] k(2)] "1.prems"(4)
          "1.IH"(3) [of h _ saw j, OF _ _ h mv Update j(1) refl j(3) j(2) _ "1.prems"(3)] 3 by simp
    next
      case Delete
      then show ?thesis using v p 3 h mv "1.prems" name "1.IH"(4) [of h "hs @ [Delete (file_path h)]"]
        by (auto split: if_splits)
    qed
  qed
qed

lemma parse_ops_count:
  assumes "parse_ops lines e i hs = Inr hs'" "length hs \<le> MAX_HUNKS"
  shows "length hs' \<le> MAX_HUNKS"
  using assms
proof (induction lines e i hs rule: parse_ops.induct)
  case (1 lines e i hs)
  note p = "1.prems"(1) [unfolded parse_ops.simps [of lines e i hs]]
  show ?case
  proof (cases "i < e \<and> parse_patch_header lines i \<noteq> None")
    case True
    then obtain h where h: "i < e" "parse_patch_header lines i = Some h" by blast
    show ?thesis
      using p h "1.prems"(2) "1.IH"(2-) [OF _ h(2)]
      by (fastforce split: if_splits prod.splits)
  next
    case False
    then show ?thesis using p "1.IH"(1) "1.prems"(2) by (auto split: if_splits)
  qed
qed

text \<open>C17. A patch that \<^verbatim>\<open>parse_patch\<close> accepts is within both limits, and every operation it returns is well
  formed: every path, move destination and change context is nonempty and trimmed, and an update with no
  chunk moves the file. The structure check and the parser are two separate passes over the same
  lines; this needs that they agree on where every operation body ends.\<close>

theorem parse_patch_accepted:
  assumes "parse_patch open_re t = Inr hs"
  shows "str_len t \<le> MAX_PATCH_SIZE \<and> length hs \<le> MAX_HUNKS \<and> list_all accepted_hunk hs"
proof -
  define lines where "lines = patch_lines (strip_heredoc open_re (trim t))"
  obtain b e where e: "position (\<lambda>line. trim line = lit ''*** End Patch'') lines = Some e"
    and v: "validate_patch_structure lines b e = Inr ()" and p: "parse_ops lines e (b + 1) [] = Inr hs"
    and len: "str_len t \<le> MAX_PATCH_SIZE"
    using assms by (auto simp: parse_patch_def lines_def [symmetric] Let_def
        split: if_splits option.splits sum.splits)
  have "validate_ops lines e (b + 1) = Inr ()"
    using v by (auto simp: validate_patch_structure_def split: option.splits)
  moreover have "e < length lines" using e by (simp add: position_Some)
  ultimately show ?thesis using parse_ops_accepted [OF _ p] parse_ops_count [OF p] len by simp
qed

theorem parse_patch_accepted_witness:
  "str_len (lit ''*** Begin Patch'' @ [LF] @ lit ''*** Delete File:  a '' @ [LF] @ lit ''*** End Patch'') \<le> MAX_PATCH_SIZE
   \<and> length [Delete (lit ''a'')] \<le> MAX_HUNKS \<and> list_all accepted_hunk [Delete (lit ''a'')]"
  by (rule parse_patch_accepted [where open_re = heredoc_open]) code_simp


end
