(* ===== verification/Patch_Apply.thy ===== *)
theory Patch_Apply
  imports Patch_Matcher Patch_Parser
begin

text \<open>
  Applying parsed update chunks to the content of a file, \<^verbatim>\<open>crates/aft/src/patch/apply.rs\<close>:
  the dominant line ending, the planning loop that places every chunk, the diagnostics of a chunk that
  cannot be placed, and the splices that produce the new text.

  A panic of the source (a slice or a splice out of range) is the outer \<open>None\<close>; an error text is
  \<open>Inl\<close>. The planning loop relies on the matcher only through the contract of the locale
  \<open>line_seeker\<close>, and the interpretation \<open>tiered\<close> discharges that contract for
  \<^verbatim>\<open>seek_sequence_tiered_checked\<close>. The result is that an application never panics, and that
  the new text is the old lines with the placed segments exchanged and every other line kept.
\<close>

section \<open>Searching\<close>

type_synonym seeker = "rstr list \<Rightarrow> rstr list \<Rightarrow> nat \<Rightarrow> bool \<Rightarrow> (match_error + sequence_match option) option"

definition seek_sequence :: "rstr list \<Rightarrow> rstr list \<Rightarrow> nat \<Rightarrow> bool \<Rightarrow> nat option option" where
  "seek_sequence lines pattern start_index eof =
     do { m \<leftarrow> seek_sequence_tiered lines pattern start_index eof;
          Some (map_option found m) }"

fun match_error_text :: "match_error \<Rightarrow> rstr" where
  "match_error_text AmbiguousNonExactMatch = lit ''Ambiguous non-exact match''"

section \<open>Diagnostics\<close>

definition NEAREST_MISS_RENDER_LINES :: nat where "NEAREST_MISS_RENDER_LINES = 20"

definition inline_code :: "rstr \<Rightarrow> rstr" where
  "inline_code value = [96] @ concat (map (\<lambda>c. if c = 96 then [92, 96] else [c]) value) @ [96]"

text \<open>\<^verbatim>\<open>{:>width$}\<close>: padded on the left with blanks.\<close>

definition pad_left :: "nat \<Rightarrow> rstr \<Rightarrow> rstr" where
  "pad_left width s = replicate (width - length s) SP @ s"

definition render_found_nearest_miss :: "rstr list \<Rightarrow> rstr list \<Rightarrow> nearest_miss \<Rightarrow> rstr option" where
  "render_found_nearest_miss lines pattern nearest =
     (let start_line = nm_start nearest + 1;
          end_line = nm_end nearest;
          head = lit ''Nearest miss at lines '' @ show_nat start_line @ lit ''-'' @ show_nat end_line
            @ lit '' (matched '' @ show_nat (matched_lines nearest) @ lit ''/'' @ show_nat (length pattern)
            @ lit '' context lines):'';
          line_number_width = length (show_nat end_line);
          available_lines = nm_end nearest - nm_start nearest
      in if \<not> (nm_start nearest \<le> nm_end nearest \<and> nm_end nearest \<le> length lines) then None
         else
           (let body = concat (map (\<lambda>(offset, line).
                  [LF] @ lit ''  '' @ pad_left line_number_width (show_nat (nm_start nearest + offset + 1))
                  @ lit '' | '' @ line)
                (List.enumerate 0 (take NEAREST_MISS_RENDER_LINES
                  (take available_lines (drop (nm_start nearest) lines)))));
                more = (if available_lines > NEAREST_MISS_RENDER_LINES
                  then [LF] @ lit ''  ... ('' @ show_nat (available_lines - NEAREST_MISS_RENDER_LINES)
                    @ lit '' more candidate lines truncated)''
                  else []);
                divergence = (if first_divergence nearest < length pattern
                  then [LF] @ lit ''First divergence: wanted line '' @ show_nat (first_divergence nearest + 1)
                    @ lit '' '' @ inline_code (pattern ! first_divergence nearest)
                    @ lit '' vs file line '' @ show_nat (nm_start nearest + first_divergence nearest + 1)
                    @ lit '' '' @ inline_code
                        (case nth_opt lines (nm_start nearest + first_divergence nearest) of
                           Some l \<Rightarrow> l | None \<Rightarrow> lit ''<EOF>'')
                  else [LF] @ lit (''First divergence: none within the candidate window; ''
                    @ ''the hunk placement constraint did not match.''))
            in Some (head @ body @ more @ divergence)))"

definition render_nearest_miss :: "rstr list \<Rightarrow> rstr list \<Rightarrow> nat \<Rightarrow> rstr option" where
  "render_nearest_miss lines pattern file_size_bytes =
     do { r \<leftarrow> find_nearest_miss lines pattern file_size_bytes;
          case r of
            Found nearest \<Rightarrow> render_found_nearest_miss lines pattern nearest
          | NoSimilarRegion \<Rightarrow> Some (lit ''Nearest miss: no similar region found.'')
          | SkippedLargeFile \<Rightarrow> Some (lit ''Nearest miss skipped: file is '' @ show_nat file_size_bytes
              @ lit '' bytes, above the '' @ show_nat (NEAREST_MISS_MAX_FILE_BYTES div (1024 * 1024))
              @ lit '' MiB diagnostic limit.'') }"

section \<open>Line endings\<close>

definition count_newlines :: "byte list \<Rightarrow> nat \<times> nat" where
  "count_newlines bytes =
     foldl (\<lambda>(newline_count, crlf_count) (index, b).
       if b = 10
       then (newline_count + 1,
             if index > 0 \<and> bytes ! (index - 1) = 13 then crlf_count + 1 else crlf_count)
       else (newline_count, crlf_count)) (0, 0) (List.enumerate 0 bytes)"

definition dominant_line_ending :: "rstr \<Rightarrow> rstr" where
  "dominant_line_ending content =
     (case count_newlines (as_bytes content) of
        (newline_count, crlf_count) \<Rightarrow>
          if crlf_count > newline_count - crlf_count then [CR, LF] else [LF])"

section \<open>Placing the chunks\<close>

type_synonym replacement = "nat \<times> nat \<times> rstr list"

definition effective_context :: "update_file_chunk \<Rightarrow> rstr option" where
  "effective_context chunk =
     (case change_context chunk of Some c \<Rightarrow> if c = [] then None else Some c | None \<Rightarrow> None)"

definition ambiguous :: "rstr \<Rightarrow> match_error \<Rightarrow> rstr" where
  "ambiguous path e = match_error_text e @ lit '' in '' @ path
     @ lit ''; add unique context or an EOF anchor''"

definition place_context ::
    "seeker \<Rightarrow> rstr list \<Rightarrow> rstr \<Rightarrow> update_file_chunk \<Rightarrow> nat \<Rightarrow> (rstr + nat) option" where
  "place_context seek lines path chunk line_index =
     (case effective_context chunk of
        None \<Rightarrow> Some (Inr line_index)
      | Some c \<Rightarrow>
          do { r \<leftarrow> seek lines [c] line_index False;
               Some (case r of
                 Inl e \<Rightarrow> Inl (ambiguous path e)
               | Inr None \<Rightarrow> Inl (lit ''Failed to find context '' @ [39] @ c @ [39] @ lit '' in '' @ path)
               | Inr (Some m) \<Rightarrow> Inr (found m + line_count m)) })"

text \<open>The two searches of a chunk with old lines: the second drops a final empty line of the pattern,
  and with it a final empty line of the replacement.\<close>

definition drop_last_blank :: "rstr list \<Rightarrow> rstr list" where
  "drop_last_blank ls = (if ls \<noteq> [] \<and> last ls = [] then butlast ls else ls)"

definition match_chunk ::
    "seeker \<Rightarrow> rstr list \<Rightarrow> update_file_chunk \<Rightarrow> nat
      \<Rightarrow> (match_error + (sequence_match option \<times> rstr list \<times> rstr list)) option" where
  "match_chunk seek lines chunk line_index =
     do { first \<leftarrow> seek lines (old_lines chunk) line_index (is_end_of_file chunk);
          case first of
            Inl e \<Rightarrow> Some (Inl e)
          | Inr hit \<Rightarrow>
              if hit = None \<and> old_lines chunk \<noteq> [] \<and> last (old_lines chunk) = []
              then do { r \<leftarrow> seek lines (butlast (old_lines chunk)) line_index (is_end_of_file chunk);
                        Some (case r of
                          Inl e \<Rightarrow> Inl e
                        | Inr m \<Rightarrow> Inr (m, butlast (old_lines chunk), drop_last_blank (new_lines chunk))) }
              else Some (Inr (hit, old_lines chunk, new_lines chunk)) }"

definition already_applied_hint :: rstr where
  "already_applied_hint = [LF, LF]
     @ lit ''Hint: the replacement content for this hunk already appears in the file. ''
     @ lit ''The patch may have been partially applied in a prior turn '' @ [0x2014]
     @ lit '' re-read the file to confirm which hunks still need to apply.''"

definition not_found_error ::
    "rstr list \<Rightarrow> rstr \<Rightarrow> nat \<Rightarrow> update_file_chunk \<Rightarrow> rstr list \<Rightarrow> rstr list \<Rightarrow> rstr option" where
  "not_found_error lines path content_len chunk pattern new_slice =
     (let new_slice_trimmed = filter (\<lambda>line. trim line \<noteq> []) new_slice in
      do { hit \<leftarrow> (if new_slice_trimmed = [] then Some None
                   else seek_sequence lines new_slice_trimmed 0 (is_end_of_file chunk));
           nearest_miss \<leftarrow> render_nearest_miss lines pattern content_len;
           Some (lit ''Failed to find expected lines in '' @ path @ lit '':'' @ [LF]
             @ join [LF] (old_lines chunk) @ [LF, LF]
             @ lit ''Tried match tiers: exact, trimEnd, trim, indent (tab/space), unicode, ''
             @ lit ''reflow (whitespace-normalized).'' @ [LF, LF]
             @ nearest_miss @ (if hit \<noteq> None then already_applied_hint else [])) })"

text \<open>One round of the planning loop: the next line index and the replacement.\<close>

definition plan_chunk ::
    "seeker \<Rightarrow> rstr list \<Rightarrow> rstr \<Rightarrow> nat \<Rightarrow> update_file_chunk \<Rightarrow> nat \<Rightarrow> (rstr + nat \<times> replacement) option" where
  "plan_chunk seek lines path content_len chunk line_index =
     do { at \<leftarrow> place_context seek lines path chunk line_index;
          case at of
            Inl e \<Rightarrow> Some (Inl e)
          | Inr line_index \<Rightarrow>
              if old_lines chunk = []
              then Some (Inr (line_index,
                     (if effective_context chunk \<noteq> None then line_index else length lines,
                      0, new_lines chunk)))
              else
                do { r \<leftarrow> match_chunk seek lines chunk line_index;
                     case r of
                       Inl e \<Rightarrow> Some (Inl (ambiguous path e))
                     | Inr (Some m, _, new_slice) \<Rightarrow>
                         Some (Inr (found m + line_count m, (found m, line_count m, new_slice)))
                     | Inr (None, pattern, new_slice) \<Rightarrow>
                         do { e \<leftarrow> not_found_error lines path content_len chunk pattern new_slice;
                              Some (Inl e) } } }"

fun plan_chunks ::
    "seeker \<Rightarrow> rstr list \<Rightarrow> rstr \<Rightarrow> nat \<Rightarrow> update_file_chunk list \<Rightarrow> nat \<Rightarrow> replacement list
      \<Rightarrow> (rstr + replacement list) option" where
  "plan_chunks seek lines path content_len [] line_index replacements = Some (Inr replacements)"
| "plan_chunks seek lines path content_len (chunk # chunks) line_index replacements =
     do { r \<leftarrow> plan_chunk seek lines path content_len chunk line_index;
          case r of
            Inl e \<Rightarrow> Some (Inl e)
          | Inr (next_index, replacement) \<Rightarrow>
              plan_chunks seek lines path content_len chunks next_index (replacements @ [replacement]) }"

section \<open>Splicing\<close>

text \<open>\<^verbatim>\<open>Vec::splice\<close> panics when the range leaves the vector.\<close>

fun splice_all :: "'a list \<Rightarrow> (nat \<times> nat \<times> 'a list) list \<Rightarrow> 'a list option" where
  "splice_all result [] = Some result"
| "splice_all result ((start_idx, old_len, new_segment) # rest) =
     (if start_idx + old_len \<le> length result
      then splice_all (splice result start_idx (start_idx + old_len) new_segment) rest
      else None)"

definition original_lines_of :: "rstr \<Rightarrow> rstr list" where
  "original_lines_of content = drop_last_blank (map strip_cr (split_on LF content))"

definition finish_text :: "rstr \<Rightarrow> rstr list \<Rightarrow> rstr" where
  "finish_text content result =
     join (dominant_line_ending content)
       (if ends_with content [LF] \<or> result = [] \<or> last result \<noteq> [] then result @ [[]] else result)"

definition apply_update_chunks :: "rstr \<Rightarrow> rstr \<Rightarrow> update_file_chunk list \<Rightarrow> (rstr + rstr) option" where
  "apply_update_chunks original_content path chunks =
     (let original_lines = original_lines_of original_content in
      do { plan \<leftarrow> plan_chunks seek_sequence_tiered_checked original_lines path (str_len original_content)
                 chunks 0 [];
           case plan of
             Inl e \<Rightarrow> Some (Inl e)
           | Inr replacements \<Rightarrow>
               do { result \<leftarrow> splice_all original_lines (rev (sort_key fst replacements));
                    Some (Inr (finish_text original_content result)) } })"

section \<open>Ordered replacements\<close>

lemma sorted_wrt_insort_key:
  assumes "sorted_wrt R ys" "\<forall>y \<in> set ys. (f x \<le> f y \<longrightarrow> R x y) \<and> (f y < f x \<longrightarrow> R y x)"
    and "sorted (map f ys)"
  shows "sorted_wrt R (insort_key f x ys)"
  using assms
proof (induction ys)
  case (Cons y ys)
  show ?case
  proof (cases "f x \<le> f y")
    case True
    moreover have "f x \<le> f z" if "z \<in> set ys" for z using True Cons.prems(3) that by auto
    ultimately show ?thesis using Cons.prems by auto
  next
    case False
    then show ?thesis using Cons by (auto simp: set_insort_key)
  qed
qed simp

text \<open>A stable sort of elements that are pairwise compatible with the order.\<close>

lemma sorted_wrt_sort_key:
  assumes "sorted_wrt (\<lambda>x y. (f x \<le> f y \<longrightarrow> R x y) \<and> (f y < f x \<longrightarrow> R y x)) xs"
  shows "sorted_wrt R (sort_key f xs)"
  using assms
proof (induction xs)
  case (Cons x xs)
  have "sorted_wrt R (insort_key f x (sort_key f xs))"
    using Cons by (intro sorted_wrt_insort_key) auto
  then show ?case by (simp add: sort_key_def)
qed (simp add: sort_key_def)

text \<open>The lines from \<open>pos\<close> on, with the replaced segments exchanged.\<close>

fun weave :: "'a list \<Rightarrow> nat \<Rightarrow> (nat \<times> nat \<times> 'a list) list \<Rightarrow> 'a list" where
  "weave xs pos [] = drop pos xs"
| "weave xs pos ((start, count, new) # rest) = take (start - pos) (drop pos xs) @ new @ weave xs (start + count) rest"

definition ends_before :: "nat \<times> nat \<times> 'a list \<Rightarrow> nat \<times> nat \<times> 'a list \<Rightarrow> bool" where
  "ends_before a b \<longleftrightarrow> fst a + fst (snd a) \<le> fst b"

lemma splice_all_append:
  "splice_all xs (as @ bs) = do { ys \<leftarrow> splice_all xs as; splice_all ys bs }"
  by (induction xs as rule: splice_all.induct) auto

lemma weave_take:
  assumes "sorted_wrt ends_before rs" "\<forall>r \<in> set rs. pos \<le> fst r \<and> fst r + fst (snd r) \<le> length xs" "pos \<le> length xs"
  shows "splice_all xs (rev rs) = Some (take pos xs @ weave xs pos rs)"
  using assms
proof (induction rs arbitrary: pos)
  case (Cons r rs)
  obtain s n new where r: "r = (s, n, new)" by (cases r)
  have b: "pos \<le> s" "s + n \<le> length xs" using Cons.prems(2) r by auto
  have "\<forall>q \<in> set rs. s + n \<le> fst q \<and> fst q + fst (snd q) \<le> length xs"
    using Cons.prems(1,2) r by (auto simp: ends_before_def)
  then have "splice_all xs (rev rs) = Some (take (s + n) xs @ weave xs (s + n) rs)"
    using Cons.IH [of "s + n"] Cons.prems(1) b by simp
  moreover have "take s (take (s + n) xs @ w) = take pos xs @ take (s - pos) (drop pos xs)"
    "drop (s + n) (take (s + n) xs @ w) = w" for w :: "'a list"
    using b take_add [of pos "s - pos" xs] by (simp_all add: min_absorb1)
  ultimately show ?case using b r by (simp add: splice_all_append splice_def min_absorb1)
qed simp

lemma reflow_window_found:
  assumes "find_reflow_match lines pattern start = Some (Some (f, n))"
    and "\<forall>l \<in> set lines. list_all is_scalar l" "\<forall>p \<in> set pattern. list_all is_scalar p"
  shows "start \<le> f \<and> f + n \<le> length lines
    \<and> normalize_reflow_whitespace (join [LF] (take n (drop f lines))) = normalize_reflow_whitespace (join [LF] pattern)"
proof -
  obtain w where w: "reflow_window (drop start lines) (normalize_reflow_whitespace (join [LF] pattern)) w"
    "(start + fst w, snd w - fst w) = (f, n)"
    using find_reflow_match_spec [OF assms(2,3), of start, unfolded assms(1) option.inject] by blast
  obtain a e where ae: "w = (a, e)" by (cases w)
  then have "window (drop start lines) a e = take n (drop f lines)" using w(2) by (auto simp: window_def add.commute)
  then show ?thesis using w ae by (auto simp: reflow_window_def)
qed

section \<open>What the matcher promises the planner\<close>

definition same_text :: "rstr list \<Rightarrow> rstr list \<Rightarrow> bool" where
  "same_text segment pattern \<longleftrightarrow>
     (\<exists>t. list_all2 (tier_compare t) segment pattern)
     \<or> normalize_reflow_whitespace (join [LF] segment) = normalize_reflow_whitespace (join [LF] pattern)"

definition placed :: "rstr list \<Rightarrow> rstr list \<Rightarrow> bool \<Rightarrow> nat \<Rightarrow> nat \<Rightarrow> bool" where
  "placed lines pattern eof start count \<longleftrightarrow>
     start + count \<le> length lines \<and> same_text (take count (drop start lines)) pattern
     \<and> (eof \<longrightarrow> start + count = length lines)"

definition scalar_lines :: "rstr list \<Rightarrow> bool" where
  "scalar_lines ls \<longleftrightarrow> list_all (list_all is_scalar) ls"

text \<open>A placed chunk: what its replacement exchanges, and for what.\<close>

definition chunk_at :: "rstr list \<Rightarrow> update_file_chunk \<Rightarrow> replacement \<Rightarrow> bool" where
  "chunk_at lines chunk r \<longleftrightarrow>
     (case r of (start, count, new) \<Rightarrow>
        if old_lines chunk = []
        then count = 0 \<and> new = new_lines chunk \<and> start \<le> length lines
          \<and> (effective_context chunk = None \<longrightarrow> start = length lines)
        else placed lines (old_lines chunk) (is_end_of_file chunk) start count \<and> new = new_lines chunk
          \<or> last (old_lines chunk) = [] \<and> new = drop_last_blank (new_lines chunk)
            \<and> placed lines (butlast (old_lines chunk)) (is_end_of_file chunk) start count)"

definition plan_order :: "nat \<Rightarrow> replacement \<Rightarrow> replacement \<Rightarrow> bool" where
  "plan_order n a b \<longleftrightarrow> ends_before a b \<or> fst a = n \<and> fst (snd a) = 0 \<and> fst b + fst (snd b) \<le> n"

definition in_plan :: "nat \<Rightarrow> nat \<Rightarrow> replacement \<Rightarrow> bool" where
  "in_plan n i r \<longleftrightarrow> fst r + fst (snd r) \<le> n \<and> (i \<le> fst r \<or> fst r = n)"

lemma plan_order_sorts: "sorted_wrt (plan_order n) rs \<Longrightarrow> sorted_wrt ends_before (sort_key fst rs)"
  by (rule sorted_wrt_sort_key, erule sorted_wrt_mono_rel [rotated]) (auto simp: plan_order_def ends_before_def)

lemma seek_sequence_tiered_checked_returns: "\<exists>r. seek_sequence_tiered_checked lines pattern start eof = Some r"
proof (cases "pattern = []")
  case False
  then show ?thesis
    by (rule seek_outcome [of pattern lines start eof])
      (use find_reflow_match_returns [of lines pattern start] in \<open>auto simp: tier_settles_def reflow_result_def\<close>)
qed (simp add: seek_sequence_tiered_checked_def)

lemma find_nearest_miss_total: "\<exists>r. find_nearest_miss lines pattern len = Some r"
  using anchors_spec [of pattern lines] by (auto simp: find_nearest_miss_def Let_def split: option.splits)

lemma render_nearest_miss_returns: "\<exists>t. render_nearest_miss lines pattern len = Some t"
proof -
  obtain r where r: "find_nearest_miss lines pattern len = Some r" using find_nearest_miss_total by blast
  have "\<exists>t. render_found_nearest_miss lines pattern m = Some t" if f: "r = Found m" for m
  proof -
    obtain c where c: "c < length lines" "m = score_nearest_miss lines pattern c"
      using find_nearest_miss_Found [of lines pattern len m] r f by auto
    then have "nm_start m \<le> nm_end m \<and> nm_end m \<le> length lines" by (simp add: score_nearest_miss_def Let_def)
    then show ?thesis by (simp add: render_found_nearest_miss_def Let_def)
  qed
  then show ?thesis using r by (cases r) (simp_all add: render_nearest_miss_def)
qed

lemma not_found_error_returns: "\<exists>e. not_found_error lines path len chunk pattern new_slice = Some e"
proof -
  obtain h where h: "seek_sequence lines (filter (\<lambda>line. trim line \<noteq> []) new_slice) 0 (is_end_of_file chunk) = Some h"
    using seek_sequence_tiered_checked_returns [of lines "filter (\<lambda>line. trim line \<noteq> []) new_slice" 0 "is_end_of_file chunk"]
    by (auto simp: seek_sequence_def seek_sequence_tiered_def)
  obtain n where "render_nearest_miss lines pattern len = Some n"
    using render_nearest_miss_returns by blast
  then show ?thesis using h by (cases "filter (\<lambda>line. trim line \<noteq> []) new_slice = []") (auto simp: not_found_error_def Let_def)
qed

lemma tier_match_placed:
  "f \<in> tier_matches lines pattern start eof t \<Longrightarrow> start \<le> f \<and> placed lines pattern eof f (length pattern)"
  unfolding tier_matches_def matches_at_def placed_def same_text_def by blast

lemma seek_hit:
  assumes "seek_sequence_tiered_checked lines pattern start eof = Some (Inr (Some m))" "scalar_lines lines" "scalar_lines pattern"
  shows "start \<le> found m \<and> placed lines pattern eof (found m) (line_count m)"
proof -
  have "pattern \<noteq> []" using assms(1) by (auto simp: seek_sequence_tiered_checked_def)
  then show ?thesis
  proof (rule seek_outcome [of pattern lines start eof])
    fix f assume "f \<in> tier_matches lines pattern start eof Exact"
      "seek_sequence_tiered_checked lines pattern start eof = Some (Inr (Some \<lparr>found = f, tier = Exact, line_count = length pattern\<rparr>))"
    then show ?thesis using assms(1) tier_match_placed by auto
  next
    fix t assume "tier_settles lines pattern start eof t (seek_sequence_tiered_checked lines pattern start eof)"
    then obtain f where "f \<in> tier_matches lines pattern start eof t"
      "m = \<lparr>found = f, tier = t, line_count = length pattern\<rparr>"
      using assms(1) by (auto simp: tier_settles_def)
    then show ?thesis using tier_match_placed by auto
  next
    assume "seek_sequence_tiered_checked lines pattern start eof
      = (if eof then Some (Inr None) else reflow_result lines pattern start)"
    then have "\<not> eof" and fr: "find_reflow_match lines pattern start = Some (Some (found m, line_count m))"
      using assms(1) by (auto simp: reflow_result_def dest!: sym [of "Some m"] split: bind_splits if_splits)
    then show ?thesis using reflow_window_found [OF fr] assms(2,3)
      by (simp add: placed_def same_text_def scalar_lines_def list_all_iff)
  qed
qed

locale line_seeker =
  fixes seek :: seeker
  assumes seek_returns: "\<exists>r. seek lines pattern start eof = Some r"
    and seek_found: "seek lines pattern start eof = Some (Inr (Some m)) \<Longrightarrow> scalar_lines lines \<Longrightarrow>
      scalar_lines pattern \<Longrightarrow> start \<le> found m \<and> placed lines pattern eof (found m) (line_count m)"
begin

lemma place_context_spec:
  assumes "place_context seek lines path chunk i = Some (Inr j)" "i \<le> length lines" "scalar_lines lines"
    and "\<forall>c. effective_context chunk = Some c \<longrightarrow> list_all is_scalar c"
  shows "i \<le> j \<and> j \<le> length lines"
proof (cases "effective_context chunk")
  case (Some c)
  obtain m where "seek lines [c] i False = Some (Inr (Some m))" "j = found m + line_count m"
    using assms(1) Some by (auto simp: place_context_def split: bind_splits sum.splits option.splits)
  then show ?thesis using seek_found [of lines "[c]" i False m] assms Some
    by (simp add: scalar_lines_def placed_def)
qed (use assms in \<open>simp add: place_context_def\<close>)

lemma match_chunk_spec:
  assumes "match_chunk seek lines chunk i = Some (Inr (Some m, pat, new))"
    and "scalar_lines lines" "scalar_lines (old_lines chunk)"
  shows "i \<le> found m \<and> (placed lines (old_lines chunk) (is_end_of_file chunk) (found m) (line_count m)
        \<and> new = new_lines chunk
      \<or> last (old_lines chunk) = [] \<and> new = drop_last_blank (new_lines chunk)
        \<and> placed lines (butlast (old_lines chunk)) (is_end_of_file chunk) (found m) (line_count m))"
proof -
  consider "seek lines (old_lines chunk) i (is_end_of_file chunk) = Some (Inr (Some m))" "new = new_lines chunk"
    | "seek lines (butlast (old_lines chunk)) i (is_end_of_file chunk) = Some (Inr (Some m))"
      "last (old_lines chunk) = []" "new = drop_last_blank (new_lines chunk)"
    using assms(1) by (auto simp: match_chunk_def split: bind_splits sum.splits if_splits)
  then show ?thesis
  proof cases
    case 1
    then show ?thesis using seek_found [OF 1(1) assms(2,3)] by blast
  next
    case 2
    have "scalar_lines (butlast (old_lines chunk))"
      using assms(3) by (auto simp: scalar_lines_def list_all_iff dest: in_set_butlastD)
    then show ?thesis using seek_found [OF 2(1) assms(2)] 2(2,3) by blast
  qed
qed

lemma plan_chunk_spec:
  assumes "plan_chunk seek lines path len chunk i = Some (Inr (j, r))" "i \<le> length lines" "scalar_lines lines"
    and "scalar_lines (old_lines chunk)" "\<forall>c. effective_context chunk = Some c \<longrightarrow> list_all is_scalar c"
  shows "i \<le> j \<and> j \<le> length lines \<and> chunk_at lines chunk r \<and> fst r + fst (snd r) \<le> length lines
    \<and> (i \<le> fst r \<and> fst r + fst (snd r) \<le> j \<or> fst r = length lines \<and> fst (snd r) = 0)"
proof -
  obtain k where k: "place_context seek lines path chunk i = Some (Inr k)"
    using assms(1) by (auto simp: plan_chunk_def split: bind_splits sum.splits)
  note at = place_context_spec [OF k assms(2,3,5)]
  show ?thesis
  proof (cases "old_lines chunk = []")
    case True
    then show ?thesis using assms(1) at k by (auto simp: plan_chunk_def chunk_at_def)
  next
    case False
    obtain m pat new where m: "match_chunk seek lines chunk k = Some (Inr (Some m, pat, new))"
        "j = found m + line_count m" "r = (found m, line_count m, new)"
      using assms(1) k False by (auto simp: plan_chunk_def split: bind_splits sum.splits option.splits)
    have "k \<le> found m" "found m + line_count m \<le> length lines" "chunk_at lines chunk r"
      using match_chunk_spec [OF m(1) assms(3,4)] m(3) False by (auto simp: chunk_at_def placed_def)
    then show ?thesis using m(2,3) at by simp
  qed
qed

text \<open>Two replacements in chunk order: the first ends before the second, or is an insertion at the end of
  the file.\<close>

lemma plan_chunks_spec:
  assumes "plan_chunks seek lines path len chunks i rs = Some (Inr rs')" "i \<le> length lines" "scalar_lines lines"
    and "list_all (\<lambda>c. scalar_lines (old_lines c) \<and> (\<forall>x. effective_context c = Some x \<longrightarrow> list_all is_scalar x)) chunks"
  shows "\<exists>new. rs' = rs @ new \<and> list_all2 (chunk_at lines) chunks new
    \<and> sorted_wrt (plan_order (length lines)) new
    \<and> (\<forall>r \<in> set new. in_plan (length lines) i r)"
  using assms
proof (induction chunks arbitrary: i rs)
  case (Cons c cs)
  obtain j r where r: "plan_chunk seek lines path len c i = Some (Inr (j, r))"
    and rest: "plan_chunks seek lines path len cs j (rs @ [r]) = Some (Inr rs')"
    using Cons.prems(1) by (auto split: bind_splits sum.splits)
  have c: "i \<le> j" "j \<le> length lines" "chunk_at lines c r" "fst r + fst (snd r) \<le> length lines"
    "i \<le> fst r \<and> fst r + fst (snd r) \<le> j \<or> fst r = length lines \<and> fst (snd r) = 0"
    using plan_chunk_spec [OF r Cons.prems(2,3)] Cons.prems(4) by auto
  obtain new where new: "rs' = (rs @ [r]) @ new" "list_all2 (chunk_at lines) cs new"
    "sorted_wrt (plan_order (length lines)) new" "\<forall>q \<in> set new. in_plan (length lines) j q"
    using Cons.IH [OF rest c(2) Cons.prems(3)] Cons.prems(4) by auto
  have "in_plan (length lines) i r" "\<forall>q \<in> set new. in_plan (length lines) i q \<and> plan_order (length lines) r q"
    using c new(4) by (auto simp: in_plan_def plan_order_def ends_before_def)
  then show ?case using new c(3) by (intro exI [of _ "r # new"]) auto
qed simp

lemma match_chunk_returns: "\<exists>r. match_chunk seek lines chunk i = Some r"
proof -
  obtain r q where "seek lines (old_lines chunk) i (is_end_of_file chunk) = Some r"
    "seek lines (butlast (old_lines chunk)) i (is_end_of_file chunk) = Some q"
    using seek_returns by blast
  then show ?thesis by (cases r) (auto simp: match_chunk_def)
qed

lemma place_context_returns: "\<exists>r. place_context seek lines path chunk i = Some r"
proof (cases "effective_context chunk")
  case (Some c)
  obtain r where "seek lines [c] i False = Some r" using seek_returns by blast
  then show ?thesis using Some by (simp add: place_context_def)
qed (simp add: place_context_def)

lemma plan_chunk_returns: "\<exists>r. plan_chunk seek lines path len chunk i = Some r"
proof -
  obtain at where at: "place_context seek lines path chunk i = Some at" using place_context_returns by blast
  show ?thesis
  proof (cases at)
    case (Inr k)
    obtain r where r: "match_chunk seek lines chunk k = Some r" using match_chunk_returns by blast
    obtain e where "\<And>pat new. not_found_error lines path len chunk pat new = Some (e pat new)"
      using not_found_error_returns by metis
    then show ?thesis using at Inr r
      by (auto simp: plan_chunk_def split: sum.splits option.splits prod.splits)
  qed (use at in \<open>simp add: plan_chunk_def\<close>)
qed

lemma plan_chunks_returns: "\<exists>r. plan_chunks seek lines path len chunks i rs = Some r"
proof (induction chunks arbitrary: i rs)
  case (Cons c cs)
  have "\<exists>r. plan_chunk seek lines path len c i = Some r" by (rule plan_chunk_returns)
  then show ?case using Cons by (fastforce split: sum.splits)
qed simp

end

interpretation tiered: line_seeker seek_sequence_tiered_checked
  by unfold_locales (use seek_sequence_tiered_checked_returns seek_hit in blast)+


section \<open>Properties\<close>

definition scalar_chunk :: "update_file_chunk \<Rightarrow> bool" where
  "scalar_chunk c \<longleftrightarrow> scalar_lines (old_lines c)
     \<and> (case change_context c of Some x \<Rightarrow> list_all is_scalar x | None \<Rightarrow> True)"

lemma split_on_set: "p \<in> set (split_on d s) \<Longrightarrow> set p \<subseteq> set s"
  by (induction s arbitrary: p) (force split: if_splits list.splits)+

lemma strip_cr_set: "set (strip_cr s) \<subseteq> set s"
  by (auto simp: strip_cr_def strip_suffix_def dest: in_set_takeD split: option.splits if_splits)

lemma scalar_original_lines:
  assumes "list_all is_scalar content"
  shows "scalar_lines (original_lines_of content)"
proof -
  have "set (strip_cr p) \<subseteq> set content" if "p \<in> set (split_on LF content)" for p
    using split_on_set [OF that] strip_cr_set [of p] by blast
  then show ?thesis using assms
    by (fastforce simp: scalar_lines_def original_lines_of_def drop_last_blank_def list_all_iff dest!: in_set_butlastD)
qed

lemma plan_spliced:
  assumes "plan_chunks seek_sequence_tiered_checked lines path len chunks 0 [] = Some (Inr rs)"
    and "scalar_lines lines" "list_all scalar_chunk chunks"
  shows "list_all2 (chunk_at lines) chunks rs" "sorted_wrt ends_before (sort_key fst rs)"
    "\<forall>r \<in> set rs. fst r + fst (snd r) \<le> length lines"
    "splice_all lines (rev (sort_key fst rs)) = Some (weave lines 0 (sort_key fst rs))"
proof -
  have "list_all (\<lambda>c. scalar_lines (old_lines c) \<and> (\<forall>x. effective_context c = Some x \<longrightarrow> list_all is_scalar x)) chunks"
    using assms(3) by (auto simp: list_all_iff scalar_chunk_def effective_context_def split: option.splits if_splits)
  from tiered.plan_chunks_spec [OF assms(1) _ assms(2) this]
  show "list_all2 (chunk_at lines) chunks rs" and b: "\<forall>r \<in> set rs. fst r + fst (snd r) \<le> length lines"
    and o: "sorted_wrt ends_before (sort_key fst rs)"
    using plan_order_sorts by (auto simp: in_plan_def)
  show "splice_all lines (rev (sort_key fst rs)) = Some (weave lines 0 (sort_key fst rs))"
    using weave_take [OF o, of 0 lines] b by simp
qed

text \<open>C18. Applying update chunks never panics: whatever the file and the chunks are, the diagnostics of a
  chunk that cannot be placed stay inside the file, and every splice stays inside the lines.\<close>

theorem apply_update_chunks_returns:
  assumes "list_all is_scalar content" "list_all scalar_chunk chunks"
  shows "\<exists>r. apply_update_chunks content path chunks = Some r"
proof -
  let ?lines = "original_lines_of content"
  obtain plan where plan: "plan_chunks seek_sequence_tiered_checked ?lines path (str_len content) chunks 0 [] = Some plan"
    using tiered.plan_chunks_returns by blast
  show ?thesis
  proof (cases plan)
    case (Inr rs)
    then show ?thesis using plan plan_spliced(4) [OF plan [unfolded Inr] scalar_original_lines assms(2)] assms(1)
      by (simp add: apply_update_chunks_def Let_def)
  qed (simp add: apply_update_chunks_def plan)
qed

theorem apply_update_chunks_returns_witness:
  "\<exists>r. apply_update_chunks (lit ''a'' @ [LF]) (lit ''f'')
     [\<lparr>old_lines = [lit ''b''], new_lines = [], change_context = None, is_end_of_file = False\<rparr>] = Some r"
  by (rule apply_update_chunks_returns) code_simp+

text \<open>C6. The result of an application is the file's lines with the placed segments exchanged. Every chunk gets one
  replacement: an insertion of its new lines (at the end of the file when it has no context), or its new lines
  in place of a segment that has the text of its old lines up to the matching tiers. Taken in file order
  the replacements do not overlap, and the new text is the weave of the replacements
  with every other line kept, in the file's dominant line ending.\<close>

theorem apply_update_chunks_weave:
  assumes "apply_update_chunks content path chunks = Some (Inr out)"
    and "list_all is_scalar content" "list_all scalar_chunk chunks"
  shows "\<exists>rs. list_all2 (chunk_at (original_lines_of content)) chunks rs
    \<and> sorted_wrt ends_before (sort_key fst rs)
    \<and> (\<forall>r \<in> set rs. fst r + fst (snd r) \<le> length (original_lines_of content))
    \<and> out = finish_text content (weave (original_lines_of content) 0 (sort_key fst rs))"
proof -
  let ?lines = "original_lines_of content"
  obtain rs result where plan: "plan_chunks seek_sequence_tiered_checked ?lines path (str_len content) chunks 0 [] = Some (Inr rs)"
    and result: "splice_all ?lines (rev (sort_key fst rs)) = Some result" "out = finish_text content result"
    using assms(1) by (auto simp: apply_update_chunks_def Let_def split: bind_splits sum.splits)
  note spec = plan_spliced [OF plan scalar_original_lines [OF assms(2)] assms(3)]
  show ?thesis using spec(1-3) spec(4) result by (intro exI [of _ rs]) simp
qed

theorem apply_update_chunks_weave_witness:
  "\<exists>rs. list_all2 (chunk_at (original_lines_of (lit ''a'' @ [LF] @ lit ''b '' @ [LF])))
       [\<lparr>old_lines = [lit ''b''], new_lines = [lit ''x'', lit ''y''], change_context = Some (lit ''a''), is_end_of_file = False\<rparr>] rs
    \<and> sorted_wrt ends_before (sort_key fst rs)
    \<and> (\<forall>r \<in> set rs. fst r + fst (snd r) \<le> length (original_lines_of (lit ''a'' @ [LF] @ lit ''b '' @ [LF])))
    \<and> lit ''a'' @ [LF] @ lit ''x'' @ [LF] @ lit ''y'' @ [LF]
      = finish_text (lit ''a'' @ [LF] @ lit ''b '' @ [LF])
          (weave (original_lines_of (lit ''a'' @ [LF] @ lit ''b '' @ [LF])) 0 (sort_key fst rs))"
  by (rule apply_update_chunks_weave [of _ "lit ''f''"]) code_simp+

lemma seek_first_exact:
  assumes "lines = pre @ pattern @ post" "pattern \<noteq> []"
    and "\<forall>k < length pre. take (length pattern) (drop k lines) \<noteq> pattern"
  shows "seek_sequence_tiered_checked lines pattern 0 False
    = Some (Inr (Some \<lparr>found = length pre, tier = Exact, line_count = length pattern\<rparr>))"
proof (rule seek_outcome [OF assms(2), of lines 0 False])
  have compare_eq: "compare_exact = (=)" by (intro ext) (simp add: compare_exact_def)
  have exact: "s \<in> tier_matches lines pattern 0 False Exact
      \<longleftrightarrow> s + length pattern \<le> length lines \<and> take (length pattern) (drop s lines) = pattern" for s
    by (simp add: tier_matches_def matches_at_def compare_eq list.rel_eq)
  have mem: "length pre \<in> tier_matches lines pattern 0 False Exact" unfolding exact using assms(1) by simp
  {
    fix f assume f: "f \<in> tier_matches lines pattern 0 False Exact"
      "\<And>s. s \<in> tier_matches lines pattern 0 False Exact \<Longrightarrow> f \<le> s"
      "seek_sequence_tiered_checked lines pattern 0 False
        = Some (Inr (Some \<lparr>found = f, tier = Exact, line_count = length pattern\<rparr>))"
    then show ?thesis using assms(3) f(2) [OF mem] exact [of f] by (metis nat_less_le)
  next
    fix t assume "t \<in> {Rstrip, Trim, Unicode}" "settling_tier lines pattern 0 False t"
    then have "tier_matches lines pattern 0 False Exact = {}" by (auto simp: settling_tier_def)
    then show ?thesis using mem by simp
  next
    assume "\<forall>u. u \<noteq> Reflow \<longrightarrow> tier_matches lines pattern 0 False u = {}"
    then have "tier_matches lines pattern 0 False Exact = {}" by blast
    then show ?thesis using mem by simp
  }
qed

text \<open>A chunk whose old lines occur verbatim replaces their first occurrence, and only it: the lines before and
  after it are kept as they are.\<close>

theorem apply_exact_chunk:
  assumes "original_lines_of content = pre @ old_lines chunk @ post" "old_lines chunk \<noteq> []"
    and "\<forall>k < length pre. take (length (old_lines chunk)) (drop k (original_lines_of content)) \<noteq> old_lines chunk"
    and "change_context chunk = None" "\<not> is_end_of_file chunk"
  shows "apply_update_chunks content path [chunk] = Some (Inr (finish_text content (pre @ new_lines chunk @ post)))"
  using seek_first_exact [OF assms(1-3)] assms
  by (simp add: apply_update_chunks_def plan_chunk_def place_context_def effective_context_def match_chunk_def
      sort_key_def splice_def Let_def)

theorem apply_exact_chunk_witness:
  "apply_update_chunks (lit ''a'' @ [CR, LF] @ lit ''b'' @ [CR, LF] @ lit ''b'' @ [CR, LF]) (lit ''f'')
     [\<lparr>old_lines = [lit ''b''], new_lines = [lit ''c'', lit ''d''], change_context = None, is_end_of_file = False\<rparr>]
   = Some (Inr (lit ''a'' @ [CR, LF] @ lit ''c'' @ [CR, LF] @ lit ''d'' @ [CR, LF] @ lit ''b'' @ [CR, LF]))"
proof -
  let ?c = "\<lparr>old_lines = [lit ''b''], new_lines = [lit ''c'', lit ''d''], change_context = None, is_end_of_file = False\<rparr>"
  let ?t = "lit ''a'' @ [CR, LF] @ lit ''b'' @ [CR, LF] @ lit ''b'' @ [CR, LF]"
  have "original_lines_of ?t = [lit ''a''] @ old_lines ?c @ [lit ''b'']" by code_simp
  then have "apply_update_chunks ?t (lit ''f'') [?c]
      = Some (Inr (finish_text ?t ([lit ''a''] @ new_lines ?c @ [lit ''b''])))"
    by (rule apply_exact_chunk) (code_simp | simp add: lit_def)+
  also have "finish_text ?t ([lit ''a''] @ new_lines ?c @ [lit ''b''])
      = lit ''a'' @ [CR, LF] @ lit ''c'' @ [CR, LF] @ lit ''d'' @ [CR, LF] @ lit ''b'' @ [CR, LF]" by code_simp
  finally show ?thesis .
qed

section \<open>Line endings\<close>

fun tally :: "byte \<Rightarrow> byte list \<Rightarrow> nat \<times> nat" where
  "tally prev [] = (0, 0)"
| "tally prev (b # bs) = (case tally b bs of (n, c) \<Rightarrow>
     if b = 10 then (n + 1, if prev = 13 then c + 1 else c) else (n, c))"

lemma count_newlines_tally: "count_newlines bs = tally 0 bs"
proof -
  have "foldl (\<lambda>(n, c) (i, b). if b = 10 then (n + 1, if i > 0 \<and> bs ! (i - 1) = 13 then c + 1 else c) else (n, c))
      (n, c) (List.enumerate (length ps) xs)
    = (n + fst (tally (last (0 # ps)) xs), c + snd (tally (last (0 # ps)) xs))"
    if "bs = ps @ xs" for ps xs n c
    using that
  proof (induction xs arbitrary: ps n c)
    case (Cons x xs)
    have p: "(0 < length ps \<and> (ps @ x # xs) ! (length ps - 1) = 13) = (last (0 # ps) = 13)"
      by (cases ps rule: rev_cases) (auto simp: nth_append)
    show ?case using Cons.IH [of "ps @ [x]"] Cons.prems p
      by (auto simp: split: prod.splits)
  qed simp
  from this [of "[]" bs 0 0] show ?thesis by (simp add: count_newlines_def)
qed

lemma tally_free: "10 \<notin> set bs \<Longrightarrow> tally prev (bs @ rest) = tally (last (prev # bs)) rest"
  by (induction bs arbitrary: prev) (auto split: prod.splits)

lemma utf8_char_ascii:
  assumes "is_scalar c" "n < 128" "of_nat n \<in> set (utf8_char c)"
  shows "c = n"
proof -
  have *: "n = m" if "of_nat n = (of_nat m :: byte)" "m < 256" for m
    using arg_cong [OF that(1), of unat] that(2) assms(2) by (simp add: unat_byte)
  have "c div 64 mod 64 < 64" "c mod 64 < 64" "c div 4096 mod 64 < 64" by auto
  moreover have "c < 0x800 \<Longrightarrow> 192 + c div 64 < 256" "c < 0x10000 \<Longrightarrow> 224 + c div 4096 < 256"
    "240 + c div 262144 < 256" using assms(1) by (auto simp: is_scalar_def)
  ultimately show ?thesis using assms(2,3)
    by (auto simp: utf8_char_def simp del: of_nat_add split: if_splits dest!: *)
qed

lemma as_bytes_ascii:
  "list_all is_scalar l \<Longrightarrow> n < 128 \<Longrightarrow> of_nat n \<in> set (as_bytes l) \<Longrightarrow> n \<in> set l"
  using utf8_char_ascii by (induction l) auto

lemma last_as_bytes:
  assumes "list_all is_scalar l" "l \<noteq> []" "last (as_bytes l) = 13"
  shows "last l = CR"
proof -
  obtain k c where l: "l = k @ [c]" using assms(2) by (cases l rule: rev_cases) auto
  have "utf8_char c \<noteq> []" by (simp add: utf8_char_def)
  then have "13 \<in> set (utf8_char c)" using assms(3) l last_in_set [of "utf8_char c"] by simp
  then show ?thesis using utf8_char_ascii [of c 13] assms(1) l by simp
qed

text \<open>The lines a file of one line ending is made of.\<close>

definition clean_line :: "rstr \<Rightarrow> bool" where
  "clean_line l \<longleftrightarrow> list_all is_scalar l \<and> LF \<notin> set l \<and> \<not> ends_with l [CR]"

lemma tally_line:
  assumes "clean_line l" "prev \<noteq> 13"
  shows "tally prev (as_bytes l @ 10 # rest) = (fst (tally 10 rest) + 1, snd (tally 10 rest))"
    "tally prev (as_bytes l @ 13 # 10 # rest) = (fst (tally 10 rest) + 1, snd (tally 10 rest) + 1)"
proof -
  have free: "10 \<notin> set (as_bytes l)" using as_bytes_ascii [of l 10] assms(1) by (auto simp: clean_line_def)
  have "last (prev # as_bytes l) \<noteq> 13"
  proof (cases "l = []")
    case False
    then show ?thesis using last_as_bytes [of l] assms
      by (cases l rule: rev_cases) (auto simp: clean_line_def ends_with_suffix suffix_def utf8_char_def)
  qed (use assms in simp)
  then show "tally prev (as_bytes l @ 10 # rest) = (fst (tally 10 rest) + 1, snd (tally 10 rest))"
    "tally prev (as_bytes l @ 13 # 10 # rest) = (fst (tally 10 rest) + 1, snd (tally 10 rest) + 1)"
    by (simp_all add: tally_free [OF free] split: prod.splits)
qed

lemma tally_uniform:
  assumes "list_all clean_line ls" "prev \<noteq> 13"
  shows "tally prev (as_bytes (concat (map (\<lambda>l. l @ [LF]) ls))) = (length ls, 0)"
    "tally prev (as_bytes (concat (map (\<lambda>l. l @ [CR, LF]) ls))) = (length ls, length ls)"
  using assms by (induction ls arbitrary: prev) (simp_all add: tally_line utf8_char_def)

lemma dominant_uniform:
  assumes "list_all clean_line ls" "ls \<noteq> []" "e = [LF] \<or> e = [CR, LF]"
  shows "dominant_line_ending (concat (map (\<lambda>l. l @ e) ls)) = e"
  using assms by (auto simp: dominant_line_ending_def count_newlines_tally tally_uniform)

lemma strip_cr_clean: "clean_line l \<Longrightarrow> strip_cr l = l" "strip_cr (l @ [CR]) = l"
  by (auto simp: strip_cr_def strip_suffix_def clean_line_def ends_with_def)

lemma original_lines_uniform:
  assumes "list_all clean_line ls" "e = [LF] \<or> e = [CR, LF]"
  shows "original_lines_of (concat (map (\<lambda>l. l @ e) ls)) = ls"
proof -
  obtain f where f: "\<And>l. l @ e = f l @ [LF]" "\<And>l. clean_line l \<Longrightarrow> LF \<notin> set (f l) \<and> strip_cr (f l) = l"
    using assms(2) strip_cr_clean by (auto simp: clean_line_def)
  have "concat (map (\<lambda>l. l @ e) ls) = join [LF] (map f ls @ [[]])"
    using concat_join [of "[LF]" "map f ls" "[]"] f(1) by (simp add: comp_def)
  moreover have "split_on LF (join [LF] (map f ls @ [[]])) = map f ls @ [[]]"
    using assms(1) f(2) by (intro split_on_join) (auto simp: list_all_iff)
  moreover have "map (\<lambda>l. strip_cr (f l)) ls = ls" using assms(1) f(2) by (simp add: list_all_iff map_idI)
  moreover have "strip_cr [] = []" by (simp add: strip_cr_def strip_suffix_def ends_with_def)
  ultimately show ?thesis by (simp add: original_lines_of_def drop_last_blank_def comp_def)
qed

text \<open>C25. A file whose lines all end in LF, or all in CRLF, keeps its line ending: the lines an application leaves are
  written back with it, and an application without chunks gives the very same text.\<close>

theorem apply_keeps_line_ending:
  assumes "list_all clean_line ls" "ls \<noteq> []" "e = [LF] \<or> e = [CR, LF]"
  shows "original_lines_of (concat (map (\<lambda>l. l @ e) ls)) = ls
    \<and> finish_text (concat (map (\<lambda>l. l @ e) ls)) result = concat (map (\<lambda>l. l @ e) result)
    \<and> apply_update_chunks (concat (map (\<lambda>l. l @ e) ls)) path [] = Some (Inr (concat (map (\<lambda>l. l @ e) ls)))"
proof -
  let ?content = "concat (map (\<lambda>l. l @ e) ls)"
  have "ends_with ?content [LF]" using assms(2,3)
    by (cases ls rule: rev_cases) (auto simp: ends_with_suffix suffix_def)
  then have "finish_text ?content result = concat (map (\<lambda>l. l @ e) result)" for result
    using dominant_uniform [OF assms] concat_join [of e result "[]"] by (simp add: finish_text_def)
  then show ?thesis using original_lines_uniform [OF assms(1,3)]
    by (simp add: apply_update_chunks_def sort_key_def)
qed

theorem apply_keeps_line_ending_witness:
  "apply_update_chunks (lit ''a'' @ [CR, LF] @ [CR, LF]) (lit ''f'') [] = Some (Inr (lit ''a'' @ [CR, LF] @ [CR, LF]))"
proof -
  have "list_all clean_line [lit ''a'', []]" by code_simp
  from apply_keeps_line_ending [OF this, of "[CR, LF]" _ "lit ''f''"] show ?thesis by simp
qed

end
