(* ===== verification/Hashline_Hash.thy ===== *)
theory Hashline_Hash
  imports Prelude
begin

unbundle bit_operations_syntax

text \<open>
  The whole-file tag of the hashline engine, \<^verbatim>\<open>crates/aft/src/hashline/oracle/xxhash32.rs\<close>: xxHash32
  on 32-bit words with wrapping arithmetic, the normalisation of a file before it is hashed, and
  the four-digit tag.

  The loops of the source move an offset through the input; the model's loops carry the rest of the
  input. The results: the normalisation is the line-wise removal of trailing blanks, so files that
  differ only in trailing blanks or in LF against CRLF share a tag, and a tag is always four upper-case
  hexadecimal digits.
\<close>

section \<open>xxHash32\<close>

type_synonym u32 = "32 word"

definition PRIME1 :: u32 where "PRIME1 = 0x9E3779B1"
definition PRIME2 :: u32 where "PRIME2 = 0x85EBCA77"
definition PRIME3 :: u32 where "PRIME3 = 0xC2B2AE3D"
definition PRIME4 :: u32 where "PRIME4 = 0x27D4EB2F"
definition PRIME5 :: u32 where "PRIME5 = 0x165667B1"

definition rotate_left :: "u32 \<Rightarrow> nat \<Rightarrow> u32" where
  "rotate_left value count = word_rotl count value"

definition xx_round :: "u32 \<Rightarrow> u32 \<Rightarrow> u32" where
  "xx_round accumulator lane = rotate_left (accumulator + lane * PRIME2) 13 * PRIME1"

text \<open>\<^verbatim>\<open>u32::from_le_bytes\<close> of the first four bytes.\<close>

definition from_le_bytes :: "byte list \<Rightarrow> u32" where
  "from_le_bytes bs = foldr (\<lambda>b v. v * 256 + ucast b) (take 4 bs) 0"

function xx_stripes :: "u32 \<times> u32 \<times> u32 \<times> u32 \<Rightarrow> byte list \<Rightarrow> (u32 \<times> u32 \<times> u32 \<times> u32) \<times> byte list" where
  "xx_stripes (lane1, lane2, lane3, lane4) input =
     (if 16 \<le> length input
      then xx_stripes
        (xx_round lane1 (from_le_bytes input),
         xx_round lane2 (from_le_bytes (drop 4 input)),
         xx_round lane3 (from_le_bytes (drop 8 input)),
         xx_round lane4 (from_le_bytes (drop 12 input))) (drop 16 input)
      else ((lane1, lane2, lane3, lane4), input))"
  by pat_completeness auto
termination
  by (relation "measure (length \<circ> snd)") auto

declare xx_stripes.simps [simp del]

function xx_words :: "u32 \<Rightarrow> byte list \<Rightarrow> u32 \<times> byte list" where
  "xx_words result input =
     (if 4 \<le> length input
      then xx_words (rotate_left (result + from_le_bytes input * PRIME3) 17 * PRIME4) (drop 4 input)
      else (result, input))"
  by pat_completeness auto
termination
  by (relation "measure (length \<circ> snd)") auto

declare xx_words.simps [simp del]

fun xx_bytes :: "u32 \<Rightarrow> byte list \<Rightarrow> u32" where
  "xx_bytes result [] = result"
| "xx_bytes result (b # bs) = xx_bytes (rotate_left (result + ucast b * PRIME5) 11 * PRIME1) bs"

definition xx_finish :: "u32 \<Rightarrow> u32" where
  "xx_finish result =
     (let a = result XOR drop_bit 15 result;
          b = a * PRIME2;
          c = b XOR drop_bit 13 b;
          d = c * PRIME3
      in d XOR drop_bit 16 d)"

definition xxhash32 :: "byte list \<Rightarrow> u32 \<Rightarrow> u32" where
  "xxhash32 input seed =
     (let (start, rest) =
        (if 16 \<le> length input
         then (case xx_stripes (seed + PRIME1 + PRIME2, seed + PRIME2, seed, seed - PRIME1) input of
                 ((lane1, lane2, lane3, lane4), rest) \<Rightarrow>
                   (rotate_left lane1 1 + rotate_left lane2 7 + rotate_left lane3 12 + rotate_left lane4 18, rest))
         else (seed + PRIME5, input));
          (words, tail) = xx_words (start + of_nat (length input)) rest
      in xx_finish (xx_bytes words tail))"

definition xxhash32_seed_zero :: "byte list \<Rightarrow> u32" where
  "xxhash32_seed_zero input = xxhash32 input 0"

section \<open>Normalisation and tag\<close>

definition is_tag_blank :: "byte \<Rightarrow> bool" where
  "is_tag_blank b \<longleftrightarrow> b = 32 \<or> b = 9 \<or> b = 13"

function pop_blanks :: "byte list \<Rightarrow> byte list" where
  "pop_blanks normalized =
     (if normalized \<noteq> [] \<and> is_tag_blank (last normalized) then pop_blanks (butlast normalized) else normalized)"
  by pat_completeness auto
termination
  by (relation "measure length") auto

declare pop_blanks.simps [simp del]

definition normalize_step :: "byte list \<Rightarrow> byte \<Rightarrow> byte list" where
  "normalize_step normalized b = (if b = 10 then pop_blanks normalized else normalized) @ [b]"

definition normalize_for_tag :: "byte list \<Rightarrow> byte list" where
  "normalize_for_tag input = pop_blanks (foldl normalize_step [] input)"

definition hex_digit :: "nat \<Rightarrow> uchar" where
  "hex_digit d = (if d < 10 then 48 + d else 55 + d)"

text \<open>\<^verbatim>\<open>{:04X}\<close>.\<close>

fun hex_upper :: "nat \<Rightarrow> rstr" where
  "hex_upper n = (if n < 16 then [hex_digit n] else hex_upper (n div 16) @ [hex_digit (n mod 16)])"

declare hex_upper.simps [simp del]

definition format_04X :: "u32 \<Rightarrow> rstr" where
  "format_04X w = (let s = hex_upper (unat w) in replicate (4 - length s) 48 @ s)"

definition tag_for :: "byte list \<Rightarrow> rstr" where
  "tag_for input = format_04X (xxhash32_seed_zero (normalize_for_tag input) AND 0xFFFF)"

section \<open>Normalisation, line by line\<close>

text \<open>The reference: split at line feeds, drop the trailing blanks of every line, join again.\<close>

definition strip_blanks :: "byte list \<Rightarrow> byte list" where
  "strip_blanks line = rev (dropWhile is_tag_blank (rev line))"

definition normalize_lines :: "byte list \<Rightarrow> byte list" where
  "normalize_lines input = join [10] (map strip_blanks (split_on 10 input))"

lemma pop_blanks_strip: "pop_blanks v = strip_blanks v"
proof (induction v rule: pop_blanks.induct)
  case (1 v)
  then show ?case by (cases v rule: rev_cases) (auto simp: pop_blanks.simps [of v] pop_blanks.simps [of "_ @ [_]"] strip_blanks_def pop_blanks.simps [of "[]"])
qed

lemma strip_blanks_append:
  "strip_blanks (u @ 10 # v) = u @ 10 # strip_blanks v"
  by (simp add: strip_blanks_def dropWhile_append is_tag_blank_def) 

lemma strip_blanks_idem [simp]: "strip_blanks (strip_blanks l) = strip_blanks l"
proof -
  have "dropWhile P (dropWhile P xs) = dropWhile P xs" for P :: "byte \<Rightarrow> bool" and xs by (induction xs) auto
  then show ?thesis by (simp add: strip_blanks_def)
qed

lemma strip_blanks_after: "u = [] \<or> last u = 10 \<Longrightarrow> strip_blanks (u @ v) = u @ strip_blanks v"
  using strip_blanks_append [of "butlast u" v] by (cases u rule: rev_cases) auto

lemma strip_blanks_prefix: "prefix (strip_blanks l) l"
  using suffix_dropWhile [of is_tag_blank "rev l"] by (simp add: strip_blanks_def suffix_to_prefix)

lemma strip_blanks_set: "set (strip_blanks l) \<subseteq> set l"
  using strip_blanks_prefix set_mono_prefix by blast

lemma foldl_normalize_line: "10 \<notin> set p \<Longrightarrow> foldl normalize_step u p = u @ p"
  by (induction p arbitrary: u) (auto simp: normalize_step_def)

lemma foldl_normalize:
  assumes "u = [] \<or> last u = 10"
  shows "strip_blanks (foldl normalize_step u input) = u @ normalize_lines input"
  using assms
proof (induction input arbitrary: u rule: length_induct)
  case (1 input)
  show ?case
  proof (cases "10 \<in> set input")
    case True
    then obtain p rest where p: "input = p @ 10 # rest" "10 \<notin> set p" using split_list_first by fastforce
    have "foldl normalize_step u input = foldl normalize_step (u @ strip_blanks p @ [10]) rest"
      using p "1.prems" by (simp add: foldl_normalize_line normalize_step_def pop_blanks_strip strip_blanks_after)
    moreover have "normalize_lines input = strip_blanks p @ 10 # normalize_lines rest"
      using p by (simp add: normalize_lines_def split_on_append join_Cons)
    ultimately show ?thesis using "1.IH" [rule_format, of rest "u @ strip_blanks p @ [10]"] p(1) by simp
  next
    case False
    then show ?thesis using "1.prems"
      by (simp add: foldl_normalize_line strip_blanks_after normalize_lines_def split_on_single)
  qed
qed

lemma normalize_for_tag_lines: "normalize_for_tag input = normalize_lines input"
  using foldl_normalize [of "[]" input] by (simp add: normalize_for_tag_def pop_blanks_strip)

lemma split_normalize_lines: "split_on 10 (normalize_lines input) = map strip_blanks (split_on 10 input)"
  unfolding normalize_lines_def
  by (rule split_on_join) (use strip_blanks_set split_on_pieces in fastforce)+

lemma split_on_between: "split_on d (u @ d # v) = split_on d u @ split_on d v"
  by (induction u) (auto split: list.splits)

lemma split_on_snoc: "x \<noteq> d \<Longrightarrow> split_on d (u @ [x]) = butlast (split_on d u) @ [last (split_on d u) @ [x]]"
  by (induction u) (auto split: list.splits)

lemma normalize_lines_CR: "normalize_lines (u @ 13 # 10 # v) = normalize_lines (u @ 10 # v)"
proof -
  have "map strip_blanks (split_on 10 (u @ [13])) = map strip_blanks (split_on 10 u)"
  proof -
    have "strip_blanks (p @ [13]) = strip_blanks p" for p by (simp add: strip_blanks_def is_tag_blank_def)
    then have "map strip_blanks (split_on 10 (u @ [13])) = map strip_blanks (butlast (split_on 10 u) @ [last (split_on 10 u)])"
      by (simp add: split_on_snoc del: append_butlast_last_id)
    then show ?thesis by (simp only: append_butlast_last_id [OF split_on_not_Nil])
  qed
  then show ?thesis using split_on_between [of 10 "u @ [13]" v] split_on_between [of 10 u v]
    by (simp add: normalize_lines_def)
qed

lemma normalize_lines_CRLF:
  "normalize_lines (u @ concat (map (\<lambda>l. l @ [13, 10]) ls)) = normalize_lines (u @ concat (map (\<lambda>l. l @ [10]) ls))"
proof (induction ls arbitrary: u)
  case (Cons l ls)
  then show ?case using normalize_lines_CR [of "u @ l"] Cons [of "u @ l @ [10]"] by simp
qed simp

section \<open>The shape of a tag\<close>

lemma hex_upper_digits:
  "n < 16 ^ k \<Longrightarrow> 0 < k \<Longrightarrow> length (hex_upper n) \<le> k \<and> hex_upper n \<noteq> [] \<and>
     list_all (\<lambda>c. is_ascii_digit c \<or> 65 \<le> c \<and> c \<le> 70) (hex_upper n)"
proof (induction n arbitrary: k rule: hex_upper.induct)
  case (1 n)
  have d: "is_ascii_digit (hex_digit d) \<or> 65 \<le> hex_digit d \<and> hex_digit d \<le> 70" if "d < 16" for d
    using that by (auto simp: hex_digit_def is_ascii_digit_def)
  show ?case
  proof (cases "n < 16")
    case True
    then show ?thesis using "1.prems" d by (simp add: hex_upper.simps [of n] Suc_le_eq)
  next
    case False
    then obtain j where j: "k = Suc j" "0 < j" using "1.prems"
      by (cases k; cases "k - 1") (auto simp: not_less)
    then have "n div 16 < 16 ^ j" using "1.prems"(1) by (simp add: less_mult_imp_div_less mult.commute)
    then show ?thesis using "1.IH" [OF False, of j] False j d [of "n mod 16"] by (simp add: hex_upper.simps [of n])
  qed
qed

lemma format_04X_shape:
  assumes "unat w < 65536"
  shows "length (format_04X w) = 4 \<and> list_all (\<lambda>c. is_ascii_digit c \<or> 65 \<le> c \<and> c \<le> 70) (format_04X w)"
  using hex_upper_digits [of "unat w" 4] assms
  by (auto simp: format_04X_def Let_def list_all_iff is_ascii_digit_def)

section \<open>Properties\<close>

text \<open>C27. The normalisation that precedes hashing, one pass that pops blanks from the end of its output at every line
  feed, is the line-wise removal of trailing blanks, tabs and carriage returns. It is idempotent.\<close>

theorem normalize_for_tag_linewise:
  "normalize_for_tag input = join [10] (map strip_blanks (split_on 10 input))
   \<and> normalize_for_tag (normalize_for_tag input) = normalize_for_tag input"
proof -
  have "normalize_lines (normalize_lines input) = normalize_lines input"
    unfolding normalize_lines_def [of "normalize_lines input"] split_normalize_lines
    by (simp add: normalize_lines_def comp_def)
  then show ?thesis by (simp add: normalize_for_tag_lines normalize_lines_def [symmetric])
qed

text \<open>C28. A tag is four upper-case hexadecimal digits, and it does not depend on trailing blanks or on the
  line ending: files whose lines agree after their trailing blanks are dropped share a tag.\<close>

theorem tag_for_shape:
  "length (tag_for input) = 4
   \<and> list_all (\<lambda>c. is_ascii_digit c \<or> 65 \<le> c \<and> c \<le> 70) (tag_for input)
   \<and> tag_for (concat (map (\<lambda>l. l @ [13, 10]) ls)) = tag_for (concat (map (\<lambda>l. l @ [10]) ls))"
proof -
  have "unat (w AND 0xFFFF) < 65536" for w :: u32
  proof -
    have "w AND 0xFFFF = take_bit 16 w" by (simp add: take_bit_eq_mask mask_eq_exp_minus_1)
    then show ?thesis using take_bit_nat_less_exp [of 16 "unat w"] by (simp add: unsigned_take_bit_eq)
  qed
  then show ?thesis using format_04X_shape normalize_lines_CRLF [of "[]" ls]
    by (simp add: tag_for_def normalize_for_tag_lines)
qed

text \<open>The digest agrees with the vectors pinned in the repository, on the empty input, on one that takes
  the short path and on one that takes the stripe loop and leaves a tail.\<close>

theorem xxhash32_vectors:
  "xxhash32_seed_zero [] = 0x02CC5D05
   \<and> xxhash32_seed_zero (as_bytes (lit ''a'')) = 0x550D7456
   \<and> xxhash32_seed_zero (map of_nat [0..<17]) = 0x7C77ADC2"
  by code_simp

end
