(* ===== verification/Ordered_Map.thy ===== *)
theory Ordered_Map
  imports Prelude
begin

text \<open>
  \<^verbatim>\<open>BTreeMap\<close> and \<^verbatim>\<open>BTreeSet\<close> of Rust's standard library: an ordered map is the list of its
  entries in ascending key order, an ordered set the list of its elements. The locale
  \<open>ordered_map\<close> is what the components rely on (lookups after an insertion or a removal, the
  order of the keys), together with what follows from it for a sequence of insertions; the
  interpretation \<open>btree\<close> discharges it for the lists.
\<close>

type_synonym ('k, 'v) btree_map = "('k \<times> 'v) list"

definition bt_empty :: "('k :: linorder, 'v) btree_map" where
  "bt_empty = []"

definition bt_get :: "('k :: linorder, 'v) btree_map \<Rightarrow> 'k \<Rightarrow> 'v option" where
  "bt_get m k = map_of m k"

fun bt_insert :: "'k \<Rightarrow> 'v \<Rightarrow> ('k :: linorder, 'v) btree_map \<Rightarrow> ('k, 'v) btree_map" where
  "bt_insert k v [] = [(k, v)]"
| "bt_insert k v ((k', v') # m) =
     (if k < k' then (k, v) # (k', v') # m
      else if k = k' then (k, v) # m
      else (k', v') # bt_insert k v m)"

definition bt_remove :: "'k \<Rightarrow> ('k :: linorder, 'v) btree_map \<Rightarrow> ('k, 'v) btree_map" where
  "bt_remove k m = filter (\<lambda>e. fst e \<noteq> k) m"

definition bt_keys :: "('k :: linorder, 'v) btree_map \<Rightarrow> 'k list" where
  "bt_keys m = map fst m"

definition bt_values :: "('k :: linorder, 'v) btree_map \<Rightarrow> 'v list" where
  "bt_values m = map snd m"

definition bt_inv :: "('k :: linorder, 'v) btree_map \<Rightarrow> bool" where
  "bt_inv m \<longleftrightarrow> sorted_wrt (<) (map fst m)"

text \<open>\<^verbatim>\<open>collect\<close> into a \<^verbatim>\<open>BTreeSet\<close>.\<close>

definition collect_set :: "'a :: linorder list \<Rightarrow> 'a list" where
  "collect_set xs = sort (remdups xs)"

lemma set_collect_set [simp]: "set (collect_set xs) = set xs"
  by (simp add: collect_set_def)

lemma collect_set_sorted: "sorted_wrt (<) (collect_set xs)"
  by (simp add: collect_set_def strict_sorted_iff)

section \<open>The contract\<close>

locale ordered_map =
  fixes empty :: 'm
    and get :: "'m \<Rightarrow> 'k :: linorder \<Rightarrow> 'v option"
    and insert :: "'k \<Rightarrow> 'v \<Rightarrow> 'm \<Rightarrow> 'm"
    and remove :: "'k \<Rightarrow> 'm \<Rightarrow> 'm"
    and keys :: "'m \<Rightarrow> 'k list"
    and inv :: "'m \<Rightarrow> bool"
  assumes inv_empty: "inv empty"
    and inv_insert: "inv m \<Longrightarrow> inv (insert k v m)"
    and inv_remove: "inv m \<Longrightarrow> inv (remove k m)"
    and get_empty: "get empty k = None"
    and get_insert: "inv m \<Longrightarrow> get (insert k v m) k' = (if k' = k then Some v else get m k')"
    and get_remove: "inv m \<Longrightarrow> get (remove k m) k' = (if k' = k then None else get m k')"
    and keys_get: "inv m \<Longrightarrow> k \<in> set (keys m) \<longleftrightarrow> get m k \<noteq> None"
    and keys_sorted: "inv m \<Longrightarrow> sorted_wrt (<) (keys m)"
begin

lemma inv_insert_all: "inv m \<Longrightarrow> inv (fold (\<lambda>x. insert (f x) (g x)) xs m)"
  by (induction xs arbitrary: m) (auto intro: inv_insert)

text \<open>The last insertion under a key wins.\<close>

lemma get_insert_all:
  "inv m \<Longrightarrow> get (fold (\<lambda>x. insert (f x) (g x)) xs m) k
     = (case List.find (\<lambda>x. f x = k) (rev xs) of Some x \<Rightarrow> Some (g x) | None \<Rightarrow> get m k)"
proof (induction xs rule: rev_induct)
  case (snoc x xs)
  then show ?case using inv_insert_all [of m f g xs] by (auto simp: get_insert)
qed simp

lemma keys_insert: "inv m \<Longrightarrow> set (keys (insert k v m)) = Set.insert k (set (keys m))"
  using keys_get [OF inv_insert] keys_get get_insert by (auto split: if_splits)

lemma keys_remove: "inv m \<Longrightarrow> set (keys (remove k m)) = set (keys m) - {k}"
  using keys_get [OF inv_remove] keys_get get_remove by (auto split: if_splits)

lemma keys_distinct: "inv m \<Longrightarrow> distinct (keys m)"
  using keys_sorted strict_sorted_iff by blast

end

lemma set_bt_insert: "set (map fst (bt_insert k v m)) = insert k (set (map fst m))"
  by (induction k v m rule: bt_insert.induct) auto

lemma bt_insert_inv: "bt_inv m \<Longrightarrow> bt_inv (bt_insert k v m)"
proof (induction k v m rule: bt_insert.induct)
  case (2 k v k' v' m)
  then show ?case using set_bt_insert [of k v m] by (auto simp: bt_inv_def)
qed (simp add: bt_inv_def)

lemma bt_get_insert: "bt_inv m \<Longrightarrow> bt_get (bt_insert k v m) k' = (if k' = k then Some v else bt_get m k')"
  by (induction k v m rule: bt_insert.induct) (auto simp: bt_get_def bt_inv_def)

lemma bt_get_remove: "bt_get (bt_remove k m) k' = (if k' = k then None else bt_get m k')"
  by (induction m) (auto simp: bt_get_def bt_remove_def)

lemma bt_remove_inv: "bt_inv m \<Longrightarrow> bt_inv (bt_remove k m)"
  by (induction m) (auto simp: bt_inv_def bt_remove_def)

interpretation btree: ordered_map bt_empty bt_get bt_insert bt_remove bt_keys bt_inv
proof unfold_locales
  show "bt_inv bt_empty" by (simp add: bt_inv_def bt_empty_def)
  show "bt_get bt_empty k = None" for k :: 'a by (simp add: bt_get_def bt_empty_def)
  show "k \<in> set (bt_keys m) \<longleftrightarrow> bt_get m k \<noteq> None" for k :: 'a and m :: "('a, 'b) btree_map"
    by (auto simp: bt_keys_def bt_get_def map_of_eq_None_iff)
  show "sorted_wrt (<) (bt_keys m)" if "bt_inv m" for m :: "('a, 'b) btree_map"
    using that by (simp add: bt_keys_def bt_inv_def)
qed (simp_all add: bt_insert_inv bt_remove_inv bt_get_insert bt_get_remove)

section \<open>Sums over the entries of an ordered map\<close>

lemma bt_get_set: "bt_inv m \<Longrightarrow> bt_get m k = Some v \<longleftrightarrow> (k, v) \<in> set m"
proof -
  assume "bt_inv m"
  then have "distinct (map fst m)" by (simp add: bt_inv_def strict_sorted_iff)
  then show ?thesis by (simp add: bt_get_def)
qed

lemma set_bt_insert_entries:
  "bt_inv m \<Longrightarrow> set (bt_insert k v m) = insert (k, v) {e \<in> set m. fst e \<noteq> k}"
proof (induction k v m rule: bt_insert.induct)
  case (2 k v k' v' m)
  show ?case
  proof (cases "k' < k")
    case True
    then show ?thesis using 2 by (auto simp: bt_inv_def)
  next
    case False
    then have "\<forall>e \<in> set m. k < fst e" using "2.prems" by (auto simp: bt_inv_def)
    then show ?thesis using False by (cases "k = k'") auto
  qed
qed simp

lemma bt_sum_insert:
  "bt_inv m \<Longrightarrow> sum_list (map f (bt_values (bt_insert k v m))) + (case bt_get m k of Some w \<Rightarrow> f w | None \<Rightarrow> 0)
     = sum_list (map f (bt_values m)) + (f v :: nat)"
proof (induction k v m rule: bt_insert.induct)
  case (2 k v k' v' m)
  have "bt_get m k = None" if "k < k'"
    using "2.prems" that by (force simp: bt_inv_def bt_get_def map_of_eq_None_iff)
  then show ?case using 2 by (auto simp: bt_values_def bt_get_def bt_inv_def)
qed (simp add: bt_values_def bt_get_def)

lemma bt_sum_remove:
  "bt_inv m \<Longrightarrow> sum_list (map f (bt_values (bt_remove k m))) + (case bt_get m k of Some w \<Rightarrow> f w | None \<Rightarrow> 0)
     = (sum_list (map f (bt_values m)) :: nat)"
proof (induction m)
  case (Cons e m)
  have "bt_get m k = None \<and> bt_remove k m = m" if "fst e = k"
    using Cons.prems that
    by (force simp: bt_inv_def bt_get_def map_of_eq_None_iff bt_remove_def filter_id_conv)
  then show ?case using Cons by (cases e) (auto simp: bt_values_def bt_get_def bt_remove_def bt_inv_def)
qed (simp add: bt_values_def bt_get_def bt_remove_def)

lemma bt_length_insert:
  "bt_inv m \<Longrightarrow> length (bt_insert k v m) = length m + (if bt_get m k = None then 1 else 0)"
  using bt_sum_insert [of m "\<lambda>_. 1" k v] by (auto simp: bt_values_def sum_list_triv o_def split: option.splits)

lemma bt_length_remove:
  "bt_inv m \<Longrightarrow> length (bt_remove k m) = length m - (if bt_get m k = None then 0 else 1)"
  using bt_sum_remove [of m "\<lambda>_. 1" k] by (auto simp: bt_values_def sum_list_triv o_def split: option.splits)

lemma set_bt_remove: "set (bt_remove k m) = {e \<in> set m. fst e \<noteq> k}"
  by (simp add: bt_remove_def)

end
