(* ===== verification/Hashline_Scan.thy ===== *)
theory Hashline_Scan
  imports Hashline_Hash Ordered_Map
begin

text \<open>
  The byte-level scan that builds a snapshot, \<^verbatim>\<open>crates/aft/src/hashline/scan/mod.rs\<close>: raw line
  records with their terminators, the coverage a caller asks for, the incremental forward scanner, the
  reader loop around it, and the descriptor capture with its stability check.

  The file system is a parameter: a reader is the list of what its successive reads return, and one
  capture attempt is a record of what the descriptor and the path report. A \<^verbatim>\<open>SystemTime\<close> is an
  \<open>int\<close>; a \<^verbatim>\<open>u64\<close> offset is a \<open>nat\<close>, bounded by the buffer it indexes.

  The scanner is shown equal to a specification on the whole input: however the input is cut into
  chunks, the snapshot is the one of its line records, it retains exactly the requested rows, and the
  records give the bytes back.
\<close>

section \<open>Line records\<close>

definition MAX_FILE_READ_BYTES :: nat where "MAX_FILE_READ_BYTES = 64 * 1024 * 1024"

datatype terminator_kind = Lf | CrLf | NoTerm

fun terminator_display :: "terminator_kind \<Rightarrow> rstr" where
  "terminator_display Lf = lit ''LF''"
| "terminator_display CrLf = lit ''CRLF''"
| "terminator_display NoTerm = lit ''none''"

record raw_line_record =
  rl_content :: "byte list"
  rl_terminator :: terminator_kind

fun terminator_bytes :: "terminator_kind \<Rightarrow> byte list" where
  "terminator_bytes Lf = [10]"
| "terminator_bytes CrLf = [13, 10]"
| "terminator_bytes NoTerm = []"

definition to_bytes :: "raw_line_record \<Rightarrow> byte list" where
  "to_bytes r = rl_content r @ terminator_bytes (rl_terminator r)"

record retained_line =
  line_number :: nat
  rt_record :: raw_line_record
  byte_start :: nat
  byte_end :: nat

section \<open>Coverage and provenance\<close>

record coverage_input =
  requested_lines :: "nat list"
  retain_all :: bool

definition coverage_none :: coverage_input where
  "coverage_none = \<lparr>requested_lines = [], retain_all = False\<rparr>"

definition coverage_whole_file :: coverage_input where
  "coverage_whole_file = \<lparr>requested_lines = [], retain_all = True\<rparr>"

definition coverage_lines :: "nat list \<Rightarrow> coverage_input" where
  "coverage_lines lines = \<lparr>requested_lines = collect_set lines, retain_all = False\<rparr>"

definition coverage_range :: "nat \<Rightarrow> nat \<Rightarrow> coverage_input" where
  "coverage_range first to =
     (if first > to then coverage_none
      else \<lparr>requested_lines = [first..<to + 1], retain_all = False\<rparr>)"

definition retains :: "coverage_input \<Rightarrow> nat \<Rightarrow> bool" where
  "retains c n \<longleftrightarrow> retain_all c \<or> n \<in> set (requested_lines c)"

record file_identity =
  device :: nat
  inode :: nat

record capture_provenance =
  cp_source :: "rstr option"
  cp_file_identity :: "file_identity option"
  cp_byte_len :: "nat option"
  cp_modified :: "int option"
  cp_labels :: "(rstr \<times> rstr) list"

definition default_provenance :: capture_provenance where
  "default_provenance = \<lparr>cp_source = None, cp_file_identity = None, cp_byte_len = None,
     cp_modified = None, cp_labels = []\<rparr>"

text \<open>What \<^verbatim>\<open>metadata\<close> reports, as far as the capture reads it.\<close>

record metadata =
  md_identity :: "file_identity option"
  md_len :: nat
  md_modified :: "int option"

definition from_metadata :: "rstr \<Rightarrow> metadata \<Rightarrow> capture_provenance" where
  "from_metadata source md = \<lparr>cp_source = Some source, cp_file_identity = md_identity md,
     cp_byte_len = Some (md_len md), cp_modified = md_modified md, cp_labels = []\<rparr>"

definition differ :: "'a option \<Rightarrow> 'a option \<Rightarrow> bool" where
  "differ a b \<longleftrightarrow> a \<noteq> None \<and> b \<noteq> None \<and> a \<noteq> b"

definition same_file_version :: "capture_provenance \<Rightarrow> capture_provenance \<Rightarrow> bool" where
  "same_file_version p q \<longleftrightarrow>
     (if differ (cp_file_identity p) (cp_file_identity q) then False
      else if differ (cp_byte_len p) (cp_byte_len q) then False
      else if differ (cp_modified p) (cp_modified q) then False
      else True)"

record scan_request =
  rq_coverage :: coverage_input
  rq_provenance :: capture_provenance

definition request_whole_file :: scan_request where
  "request_whole_file = \<lparr>rq_coverage = coverage_whole_file, rq_provenance = default_provenance\<rparr>"

section \<open>Snapshots\<close>

record scan_coverage =
  sc_requested_lines :: "nat list"
  sc_retain_all :: bool
  sc_retained_lines :: "nat list"
  sc_seen_lines :: "nat list"
  sc_scanned_line_count :: nat
  sc_total_lines :: nat
  sc_byte_count :: nat
  sc_eof_observed :: bool

definition coverage_is_seen :: "scan_coverage \<Rightarrow> nat \<Rightarrow> bool" where
  "coverage_is_seen c n \<longleftrightarrow> n \<in> set (sc_seen_lines c)"

record boundary_evidence =
  empty_file :: bool
  bof_observed :: bool
  eof_observed :: bool
  first_seen :: "nat option"
  last_seen :: "nat option"

record snapshot =
  sn_tag :: rstr
  normalized_bytes :: "byte list"
  records :: "(nat, raw_line_record) btree_map"
  sn_retained_lines :: "(nat, retained_line) btree_map"
  coverage :: scan_coverage
  boundary :: boundary_evidence
  total_lines :: nat
  byte_count :: nat
  sn_provenance :: capture_provenance
  sn_capture_provenance :: capture_provenance

definition raw_record :: "snapshot \<Rightarrow> nat \<Rightarrow> raw_line_record option" where
  "raw_record s n = bt_get (records s) n"

definition is_seen :: "snapshot \<Rightarrow> nat \<Rightarrow> bool" where
  "is_seen s n \<longleftrightarrow> coverage_is_seen (coverage s) n"

definition verify_record :: "snapshot \<Rightarrow> nat \<Rightarrow> raw_line_record \<Rightarrow> bool" where
  "verify_record s n expected \<longleftrightarrow> raw_record s n = Some expected"

record scan_result =
  sr_snapshot :: "snapshot option"
  sr_coverage :: scan_coverage
  sr_provenance :: capture_provenance
  sr_capture_provenance :: capture_provenance

section \<open>The forward scanner\<close>

text \<open>An \<^verbatim>\<open>io::Error\<close> is opaque: its text.\<close>

datatype scan_error = ScanIo rstr | AlreadyFinished

record forward_scanner =
  fs_request :: scan_request
  fs_capture_provenance :: capture_provenance
  raw_bytes :: "byte list"
  current_line :: "byte list"
  current_line_start :: nat
  next_line_number :: nat
  scanned_line_count :: nat
  fs_retained_lines :: "(nat, retained_line) btree_map"
  finished :: bool
  published :: "snapshot option"

definition with_capture_provenance :: "scan_request \<Rightarrow> capture_provenance \<Rightarrow> forward_scanner" where
  "with_capture_provenance request capture =
     \<lparr>fs_request = request, fs_capture_provenance = capture, raw_bytes = [], current_line = [],
      current_line_start = 0, next_line_number = 1, scanned_line_count = 0,
      fs_retained_lines = bt_empty, finished = False, published = None\<rparr>"

definition scanner_new :: "scan_request \<Rightarrow> forward_scanner" where
  "scanner_new request = with_capture_provenance request default_provenance"

definition retain_line_if_requested ::
    "nat \<Rightarrow> raw_line_record \<Rightarrow> nat \<Rightarrow> nat \<Rightarrow> forward_scanner \<Rightarrow> forward_scanner" where
  "retain_line_if_requested n r from to sc =
     (if retains (rq_coverage (fs_request sc)) n
      then sc\<lparr>fs_retained_lines := bt_insert n
        \<lparr>line_number = n, rt_record = r, byte_start = from, byte_end = to\<rparr> (fs_retained_lines sc)\<rparr>
      else sc)"

text \<open>\<^verbatim>\<open>slice::split_inclusive\<close> at line feeds: no empty last piece.\<close>

fun split_inclusive :: "byte list \<Rightarrow> byte list list" where
  "split_inclusive [] = []"
| "split_inclusive (b # bs) =
     (if b = 10 then [b] # split_inclusive bs
      else (case split_inclusive bs of [] \<Rightarrow> [[b]] | p # ps \<Rightarrow> (b # p) # ps))"

text \<open>The record of a line that a line feed ended.\<close>

definition terminated :: "byte list \<Rightarrow> raw_line_record" where
  "terminated line =
     (if line \<noteq> [] \<and> last line = 13 then \<lparr>rl_content = butlast line, rl_terminator = CrLf\<rparr>
      else \<lparr>rl_content = line, rl_terminator = Lf\<rparr>)"

fun push_segment :: "nat \<Rightarrow> forward_scanner \<times> nat \<Rightarrow> byte list \<Rightarrow> forward_scanner \<times> nat" where
  "push_segment chunk_start (sc, consumed) segment =
     (let consumed = consumed + length segment in
      if ends_with segment [10]
      then (let line = current_line sc @ butlast segment;
                n = next_line_number sc;
                byte_end = chunk_start + consumed;
                sc = sc\<lparr>current_line := [], scanned_line_count := scanned_line_count sc + 1,
                        next_line_number := n + 1\<rparr>;
                sc = retain_line_if_requested n (terminated line) (current_line_start sc) byte_end sc
            in (sc\<lparr>current_line_start := byte_end\<rparr>, consumed))
      else (sc\<lparr>current_line := current_line sc @ segment\<rparr>, consumed))"

definition push :: "forward_scanner \<Rightarrow> byte list \<Rightarrow> scan_error + forward_scanner" where
  "push sc bytes =
     (if finished sc then Inl AlreadyFinished
      else Inr (fst (foldl (push_segment (length (raw_bytes sc)))
             (sc\<lparr>raw_bytes := raw_bytes sc @ bytes\<rparr>, 0) (split_inclusive bytes))))"

definition finish_line :: "forward_scanner \<Rightarrow> forward_scanner" where
  "finish_line sc =
     (if current_line sc \<noteq> []
      then (let line = current_line sc;
                sc = sc\<lparr>scanned_line_count := scanned_line_count sc + 1, current_line := []\<rparr>
            in retain_line_if_requested (next_line_number sc)
                 \<lparr>rl_content = line, rl_terminator = NoTerm\<rparr>
                 (current_line_start sc) (length (raw_bytes sc)) sc)
      else sc)"

definition finish :: "forward_scanner \<Rightarrow> scan_error + scan_result \<times> forward_scanner" where
  "finish sc0 =
     (if finished sc0 then Inl AlreadyFinished
      else
        (let sc = (finish_line sc0)\<lparr>finished := True\<rparr>;
             retained = fs_retained_lines sc;
             cov = \<lparr>sc_requested_lines = requested_lines (rq_coverage (fs_request sc)),
                    sc_retain_all = retain_all (rq_coverage (fs_request sc)),
                    sc_retained_lines = bt_keys retained, sc_seen_lines = bt_keys retained,
                    sc_scanned_line_count = scanned_line_count sc, sc_total_lines = scanned_line_count sc,
                    sc_byte_count = length (raw_bytes sc), sc_eof_observed = True\<rparr>;
             evidence = \<lparr>empty_file = (raw_bytes sc = []), bof_observed = True, eof_observed = True,
                    first_seen = (case bt_keys retained of [] \<Rightarrow> None | k # _ \<Rightarrow> Some k),
                    last_seen = (case rev (bt_keys retained) of [] \<Rightarrow> None | k # _ \<Rightarrow> Some k)\<rparr>;
             normalized = normalize_for_tag (raw_bytes sc);
             capture = (fs_capture_provenance sc)\<lparr>cp_byte_len := Some (length (raw_bytes sc))\<rparr>;
             snap = \<lparr>sn_tag = format_04X (and (xxhash32_seed_zero normalized) 0xFFFF),
                     normalized_bytes = normalized,
                     records = map (\<lambda>(n, r). (n, rt_record r)) retained,
                     sn_retained_lines = retained, coverage = cov, boundary = evidence,
                     total_lines = scanned_line_count sc, byte_count = length (raw_bytes sc),
                     sn_provenance = rq_provenance (fs_request sc), sn_capture_provenance = capture\<rparr>
         in Inr (\<lparr>sr_snapshot = Some snap, sr_coverage = cov,
                  sr_provenance = rq_provenance (fs_request sc), sr_capture_provenance = capture\<rparr>,
                 sc\<lparr>fs_retained_lines := bt_empty, raw_bytes := [], published := Some snap\<rparr>)))"

section \<open>Whole scans\<close>

text \<open>A reader is what its reads return, in order; a read of no bytes is the end of the input, and so is
  the end of the list.\<close>

type_synonym reader = "(rstr + byte list) list"

fun read_loop :: "forward_scanner \<Rightarrow> reader \<Rightarrow> scan_error + forward_scanner" where
  "read_loop sc [] = Inr sc"
| "read_loop sc (Inl e # rs) = Inl (ScanIo e)"
| "read_loop sc (Inr bytes # rs) =
     (if bytes = [] then Inr sc
      else (case push sc bytes of Inl e \<Rightarrow> Inl e | Inr sc' \<Rightarrow> read_loop sc' rs))"

definition scan_reader_with_provenance ::
    "reader \<Rightarrow> scan_request \<Rightarrow> capture_provenance \<Rightarrow> scan_error + scan_result" where
  "scan_reader_with_provenance r request capture =
     (case read_loop (with_capture_provenance request capture) r of
        Inl e \<Rightarrow> Inl e
      | Inr sc \<Rightarrow> (case finish sc of Inl e \<Rightarrow> Inl e | Inr (result, _) \<Rightarrow> Inr result))"

definition scan_reader :: "reader \<Rightarrow> scan_request \<Rightarrow> scan_error + scan_result" where
  "scan_reader r request = scan_reader_with_provenance r request default_provenance"

text \<open>The two \<^verbatim>\<open>expect\<close> calls are the option.\<close>

definition scan_bytes_with_request :: "byte list \<Rightarrow> scan_request \<Rightarrow> scan_result option" where
  "scan_bytes_with_request bytes request =
     (let capture = (rq_provenance request)\<lparr>cp_byte_len := Some (length bytes)\<rparr> in
      case push (with_capture_provenance request capture) bytes of
        Inl _ \<Rightarrow> None
      | Inr sc \<Rightarrow> (case finish sc of Inl _ \<Rightarrow> None | Inr (result, _) \<Rightarrow> Some result))"

definition scan_bytes_with_coverage :: "byte list \<Rightarrow> coverage_input \<Rightarrow> snapshot option" where
  "scan_bytes_with_coverage bytes cov =
     Option.bind (scan_bytes_with_request bytes
       \<lparr>rq_coverage = cov, rq_provenance = default_provenance\<rparr>) sr_snapshot"

definition scan_bytes :: "byte list \<Rightarrow> snapshot option" where
  "scan_bytes bytes = Option.bind (scan_bytes_with_request bytes request_whole_file) sr_snapshot"

definition raw_line_records :: "byte list \<Rightarrow> raw_line_record list option" where
  "raw_line_records bytes = map_option (\<lambda>s. bt_values (records s)) (scan_bytes bytes)"

section \<open>Descriptor capture\<close>

datatype capture_error =
    CaptureIo rstr
  | Unstable (ue_before: capture_provenance) (ue_after: capture_provenance) (ue_observed: nat)

definition capture_scan_error :: "scan_error \<Rightarrow> capture_error" where
  "capture_scan_error e =
     (case e of ScanIo t \<Rightarrow> CaptureIo t
      | AlreadyFinished \<Rightarrow> CaptureIo (lit ''hashline scan finished before capture completed''))"

text \<open>What one attempt observes: the open, the descriptor's metadata, its reads, its metadata again, and
  the metadata of the path.\<close>

record capture_io =
  io_open :: "rstr + unit"
  io_before :: "rstr + metadata"
  io_reads :: reader
  io_after_descriptor :: "rstr + metadata"
  io_after_path :: "rstr + metadata"

definition capture_path_once :: "rstr \<Rightarrow> capture_io \<Rightarrow> scan_request \<Rightarrow> capture_error + snapshot" where
  "capture_path_once path io request =
     (case io_open io of Inl e \<Rightarrow> Inl (CaptureIo e) | Inr _ \<Rightarrow>
     (case io_before io of Inl e \<Rightarrow> Inl (CaptureIo e) | Inr md_before \<Rightarrow>
       (let before = from_metadata path md_before in
        case scan_reader_with_provenance (io_reads io) request before of
          Inl e \<Rightarrow> Inl (capture_scan_error e)
        | Inr result \<Rightarrow>
     (case io_after_descriptor io of Inl e \<Rightarrow> Inl (CaptureIo e) | Inr md_descriptor \<Rightarrow>
     (case io_after_path io of Inl e \<Rightarrow> Inl (CaptureIo e) | Inr md_path \<Rightarrow>
       (let after_descriptor = from_metadata path md_descriptor;
            after_path = from_metadata path md_path;
            observed_bytes = sc_byte_count (sr_coverage result);
            stable = (same_file_version before after_descriptor \<and> same_file_version before after_path
              \<and> cp_byte_len before = Some observed_bytes
              \<and> cp_byte_len after_descriptor = Some observed_bytes
              \<and> cp_byte_len after_path = Some observed_bytes)
        in if \<not> stable then Inl (Unstable before after_path observed_bytes)
           else (case sr_snapshot result of
                   Some s \<Rightarrow> Inr s | None \<Rightarrow> Inl (Unstable before after_path observed_bytes))))))))"

text \<open>The second attempt's error is returned as it is, so the error recorded by the first is never used.\<close>

definition capture_path ::
    "rstr \<Rightarrow> capture_io \<Rightarrow> capture_io \<Rightarrow> scan_request \<Rightarrow> capture_error + snapshot \<times> nat" where
  "capture_path path io1 io2 request =
     (case capture_path_once path io1 request of
        Inr s \<Rightarrow> Inr (s, 1)
      | Inl (Unstable before after observed) \<Rightarrow>
          (case capture_path_once path io2 request of Inr s \<Rightarrow> Inr (s, 2) | Inl e \<Rightarrow> Inl e)
      | Inl e \<Rightarrow> Inl e)"

definition scan_path :: "rstr \<Rightarrow> capture_io \<Rightarrow> capture_io \<Rightarrow> scan_request \<Rightarrow> capture_error + snapshot" where
  "scan_path path io1 io2 request =
     (case capture_path path io1 io2 request of Inl e \<Rightarrow> Inl e | Inr (s, _) \<Rightarrow> Inr s)"

section \<open>The specification: records of the whole input\<close>

definition line_pieces :: "byte list \<Rightarrow> byte list list" where
  "line_pieces bs = butlast (split_on 10 bs)"

definition open_line :: "byte list \<Rightarrow> byte list" where
  "open_line bs = last (split_on 10 bs)"

definition complete_records :: "byte list \<Rightarrow> raw_line_record list" where
  "complete_records bs = map terminated (line_pieces bs)"

definition line_records :: "byte list \<Rightarrow> raw_line_record list" where
  "line_records bs = complete_records bs
     @ (if open_line bs = [] then [] else [\<lparr>rl_content = open_line bs, rl_terminator = NoTerm\<rparr>])"

fun retained_of :: "(nat \<Rightarrow> bool) \<Rightarrow> nat \<Rightarrow> nat \<Rightarrow> raw_line_record list \<Rightarrow> (nat \<times> retained_line) list" where
  "retained_of P n off [] = []"
| "retained_of P n off (r # rs) =
     (if P n then [(n, \<lparr>line_number = n, rt_record = r, byte_start = off, byte_end = off + length (to_bytes r)\<rparr>)] else [])
     @ retained_of P (n + 1) (off + length (to_bytes r)) rs"

lemma to_bytes_terminated: "to_bytes (terminated p) = p @ [10]"
  by (cases p rule: rev_cases) (auto simp: terminated_def to_bytes_def)

lemma split_pieces: "split_on 10 bs = line_pieces bs @ [open_line bs]"
  by (simp add: line_pieces_def open_line_def)

lemma split_on_extend: "d \<notin> set p \<Longrightarrow> split_on d (u @ p) = butlast (split_on d u) @ [last (split_on d u) @ p]"
proof (induction p arbitrary: u)
  case (Cons x p)
  then have "split_on d (u @ [x]) = butlast (split_on d u) @ [last (split_on d u) @ [x]]"
    by (intro split_on_snoc) auto
  then show ?case using Cons.IH [of "u @ [x]"] Cons.prems by simp
qed simp

lemma pieces_extend:
  assumes "10 \<notin> set p"
  shows "line_pieces (u @ p) = line_pieces u" "open_line (u @ p) = open_line u @ p"
  using split_on_extend [OF assms, of u] by (simp_all add: line_pieces_def open_line_def)

lemma pieces_newline:
  "line_pieces (u @ [10]) = line_pieces u @ [open_line u]" "open_line (u @ [10]) = []"
  using split_on_between [of 10 u "[]"] by (simp_all add: line_pieces_def open_line_def)

lemma complete_bytes: "concat (map to_bytes (complete_records bs)) @ open_line bs = bs"
proof -
  have "concat (map (\<lambda>l. l @ [10]) (line_pieces bs)) @ open_line bs = bs"
    using concat_join [of "[10]" "line_pieces bs" "open_line bs"] split_pieces [of bs] join_split_on [of 10 bs] by simp
  then show ?thesis by (simp add: complete_records_def to_bytes_terminated comp_def)
qed

lemma line_records_bytes: "concat (map to_bytes (line_records bs)) = bs"
  using complete_bytes [of bs] by (auto simp: line_records_def to_bytes_def)

lemma retained_of_append:
  "retained_of P n off (rs @ qs) = retained_of P n off rs
     @ retained_of P (n + length rs) (off + length (concat (map to_bytes rs))) qs"
  by (induction rs arbitrary: n off) (simp_all add: add.assoc)

lemma retained_of_keys: "k \<in> set (map fst (retained_of P n off rs)) \<longleftrightarrow> P k \<and> n \<le> k \<and> k < n + length rs"
proof (induction rs arbitrary: n off)
  case (Cons r rs)
  have "k \<in> set (map fst (retained_of P n off (r # rs)))
      \<longleftrightarrow> (P n \<and> k = n) \<or> k \<in> set (map fst (retained_of P (n + 1) (off + length (to_bytes r)) rs))" by auto
  also have "\<dots> \<longleftrightarrow> (P n \<and> k = n) \<or> (P k \<and> n + 1 \<le> k \<and> k < n + 1 + length rs)" by (simp only: Cons.IH)
  also have "\<dots> \<longleftrightarrow> P k \<and> n \<le> k \<and> k < n + length (r # rs)" by (cases "k = n") auto
  finally show ?case .
qed simp

lemma retained_of_inv: "bt_inv (retained_of P n off rs)"
proof (induction rs arbitrary: n off)
  case (Cons r rs)
  have "n < k" if "k \<in> set (map fst (retained_of P (n + 1) (off + length (to_bytes r)) rs))" for k
    using that unfolding retained_of_keys by simp
  then show ?case using Cons.IH [of "n + 1" "off + length (to_bytes r)"] by (simp add: bt_inv_def)
qed (simp add: bt_inv_def)

lemma bt_insert_last: "\<forall>k' \<in> set (map fst m). k' < k \<Longrightarrow> bt_insert k v m = m @ [(k, v)]"
  by (induction m) auto

section \<open>The scanner after any input\<close>

definition scanner_at :: "scan_request \<Rightarrow> capture_provenance \<Rightarrow> byte list \<Rightarrow> forward_scanner" where
  "scanner_at request capture bs =
     \<lparr>fs_request = request, fs_capture_provenance = capture, raw_bytes = bs, current_line = open_line bs,
      current_line_start = length bs - length (open_line bs),
      next_line_number = length (line_pieces bs) + 1, scanned_line_count = length (line_pieces bs),
      fs_retained_lines = retained_of (retains (rq_coverage request)) 1 0 (complete_records bs),
      finished = False, published = None\<rparr>"

lemma complete_start: "length (concat (map to_bytes (complete_records bs))) = length bs - length (open_line bs)"
  using arg_cong [OF complete_bytes [of bs], of length] by simp

lemma retain_next:
  assumes "n = Suc (length rs)"
  shows "(if P n then bt_insert n \<lparr>line_number = n, rt_record = r, byte_start = length (concat (map to_bytes rs)),
        byte_end = length (concat (map to_bytes rs)) + length (to_bytes r)\<rparr> (retained_of P 1 0 rs)
      else retained_of P 1 0 rs) = retained_of P 1 0 (rs @ [r])"
proof -
  have "\<forall>k \<in> set (map fst (retained_of P 1 0 rs)). k < n"
    using assms unfolding retained_of_keys Ball_def by simp
  then show ?thesis using assms by (simp add: retained_of_append bt_insert_last)
qed

lemma push_segment_at:
  assumes "10 \<notin> set p" "length start \<le> length bs"
  shows "push_segment (length start) ((scanner_at request capture bs)\<lparr>raw_bytes := all\<rparr>, length bs - length start) p
      = ((scanner_at request capture (bs @ p))\<lparr>raw_bytes := all\<rparr>, length (bs @ p) - length start)"
    and "push_segment (length start) ((scanner_at request capture bs)\<lparr>raw_bytes := all\<rparr>, length bs - length start) (p @ [10])
      = ((scanner_at request capture (bs @ p @ [10]))\<lparr>raw_bytes := all\<rparr>, length (bs @ p @ [10]) - length start)"
proof -
  have ne: "\<not> ends_with p [10]" using assms(1) by (auto simp: ends_with_suffix suffix_def)
  have "length (open_line bs) \<le> length bs" using arg_cong [OF complete_bytes [of bs], of length] by simp
  then show "push_segment (length start) ((scanner_at request capture bs)\<lparr>raw_bytes := all\<rparr>, length bs - length start) p
      = ((scanner_at request capture (bs @ p))\<lparr>raw_bytes := all\<rparr>, length (bs @ p) - length start)"
    using ne assms by (simp add: scanner_at_def pieces_extend complete_records_def Let_def)
  have p10: "line_pieces (bs @ p @ [10]) = line_pieces bs @ [open_line bs @ p]" "open_line (bs @ p @ [10]) = []"
    using pieces_newline [of "bs @ p"] pieces_extend [OF assms(1), of bs] by simp_all
  let ?line = "open_line bs @ p"
  have len: "length bs - length (open_line bs) + length (to_bytes (terminated ?line)) = length (bs @ p @ [10])"
    using \<open>length (open_line bs) \<le> length bs\<close> by (simp add: to_bytes_terminated)
  have rec: "complete_records (bs @ p @ [10]) = complete_records bs @ [terminated ?line]"
    by (simp add: complete_records_def p10)
  have ret: "(if P (Suc (length (line_pieces bs))) then bt_insert (Suc (length (line_pieces bs)))
        \<lparr>line_number = Suc (length (line_pieces bs)), rt_record = terminated ?line,
         byte_start = length bs - length (open_line bs), byte_end = length (bs @ p @ [10])\<rparr>
        (retained_of P 1 0 (complete_records bs))
      else retained_of P 1 0 (complete_records bs)) = retained_of P 1 0 (complete_records (bs @ p @ [10]))" for P
    unfolding rec by (rule retain_next [of "Suc (length (line_pieces bs))" "complete_records bs" P "terminated ?line",
        unfolded complete_start len]) (simp add: complete_records_def)
  show "push_segment (length start) ((scanner_at request capture bs)\<lparr>raw_bytes := all\<rparr>, length bs - length start) (p @ [10])
      = ((scanner_at request capture (bs @ p @ [10]))\<lparr>raw_bytes := all\<rparr>, length (bs @ p @ [10]) - length start)"
    using assms(2) p10 ret [of "retains (rq_coverage request)"]
    by (cases "retains (rq_coverage request) (Suc (length (line_pieces bs)))")
      (simp_all add: scanner_at_def retain_line_if_requested_def Let_def ends_with_suffix suffix_def Suc_diff_le)
qed

definition segment_ok :: "byte list \<Rightarrow> bool" where
  "segment_ok s \<longleftrightarrow> 10 \<notin> set (butlast s)"

lemma split_inclusive_segments:
  "list_all segment_ok (split_inclusive bs) \<and> concat (split_inclusive bs) = bs"
  by (induction bs) (auto simp: segment_ok_def split: list.splits)

lemma segment_cases:
  assumes "segment_ok s"
  obtains "10 \<notin> set s" | p where "s = p @ [10]" "10 \<notin> set p"
  using assms by (cases s rule: rev_cases) (auto simp: segment_ok_def)

lemma push_segments_at:
  assumes "list_all segment_ok segs" "length start \<le> length bs"
  shows "foldl (push_segment (length start)) ((scanner_at request capture bs)\<lparr>raw_bytes := all\<rparr>, length bs - length start) segs
      = ((scanner_at request capture (bs @ concat segs))\<lparr>raw_bytes := all\<rparr>, length (bs @ concat segs) - length start)"
  using assms
proof (induction segs arbitrary: bs)
  case (Cons s segs)
  have "push_segment (length start) ((scanner_at request capture bs)\<lparr>raw_bytes := all\<rparr>, length bs - length start) s
      = ((scanner_at request capture (bs @ s))\<lparr>raw_bytes := all\<rparr>, length (bs @ s) - length start)"
    using Cons.prems by (auto elim!: segment_cases simp: push_segment_at simp del: push_segment.simps append_assoc length_append)
  then show ?case using Cons.IH [of "bs @ s"] Cons.prems by (simp del: push_segment.simps)
qed simp

lemma push_at: "push (scanner_at request capture bs) chunk = Inr (scanner_at request capture (bs @ chunk))"
proof -
  have f: "\<not> finished (scanner_at request capture bs)" "raw_bytes (scanner_at request capture bs) = bs"
    by (simp_all add: scanner_at_def)
  have "(scanner_at request capture (bs @ chunk))\<lparr>raw_bytes := bs @ chunk\<rparr> = scanner_at request capture (bs @ chunk)"
    by (simp add: scanner_at_def)
  then show ?thesis
    using push_segments_at [where segs = "split_inclusive chunk" and start = bs and bs = bs and request = request
        and capture = capture and all = "bs @ chunk"] split_inclusive_segments [of chunk] f
    by (simp add: push_def)
qed

lemma new_at: "with_capture_provenance request capture = scanner_at request capture []"
  by (simp add: with_capture_provenance_def scanner_at_def open_line_def line_pieces_def complete_records_def bt_empty_def)

lemma read_loop_at:
  "list_all (\<lambda>c. c \<noteq> []) chunks \<Longrightarrow>
   read_loop (scanner_at request capture bs) (map Inr chunks) = Inr (scanner_at request capture (bs @ concat chunks))"
  by (induction chunks arbitrary: bs) (simp_all add: push_at)

text \<open>The snapshot of an input, from its line records.\<close>

lemma finish_line_at:
  "finish_line (scanner_at request capture bs) =
     (scanner_at request capture bs)\<lparr>current_line := [], scanned_line_count := length (line_records bs),
        fs_retained_lines := retained_of (retains (rq_coverage request)) 1 0 (line_records bs)\<rparr>"
proof (cases "open_line bs = []")
  case True
  then show ?thesis by (simp add: finish_line_def scanner_at_def line_records_def complete_records_def)
next
  case False
  let ?r = "\<lparr>rl_content = open_line bs, rl_terminator = NoTerm\<rparr>" and ?P = "retains (rq_coverage request)"
  have ret: "(if ?P (Suc (length (line_pieces bs))) then bt_insert (Suc (length (line_pieces bs)))
        \<lparr>line_number = Suc (length (line_pieces bs)), rt_record = ?r,
         byte_start = length bs - length (open_line bs), byte_end = length bs\<rparr>
        (retained_of ?P 1 0 (complete_records bs))
      else retained_of ?P 1 0 (complete_records bs)) = retained_of ?P 1 0 (complete_records bs @ [?r])"
  proof -
    have len: "length bs - length (open_line bs) + length (to_bytes ?r) = length bs"
      using arg_cong [OF complete_bytes [of bs], of length] by (simp add: to_bytes_def)
    show ?thesis
      by (rule retain_next [of "Suc (length (line_pieces bs))" "complete_records bs" ?P ?r, unfolded complete_start len])
        (simp add: complete_records_def)
  qed
  show ?thesis using False ret
    by (cases "?P (Suc (length (line_pieces bs)))")
      (simp_all add: finish_line_def scanner_at_def line_records_def retain_line_if_requested_def complete_records_def)
qed

lemma scanner_at_simps [simp]:
  "fs_request (scanner_at request capture bs) = request" "raw_bytes (scanner_at request capture bs) = bs"
  "fs_capture_provenance (scanner_at request capture bs) = capture" "\<not> finished (scanner_at request capture bs)"
  by (simp_all add: scanner_at_def)

lemma finish_at:
  "\<exists>s sc. finish (scanner_at request capture bs) = Inr (\<lparr>sr_snapshot = Some s, sr_coverage = coverage s,
       sr_provenance = rq_provenance request, sr_capture_provenance = capture\<lparr>cp_byte_len := Some (length bs)\<rparr>\<rparr>, sc)
     \<and> sn_tag s = tag_for bs \<and> total_lines s = length (line_records bs) \<and> byte_count s = length bs
     \<and> sc_byte_count (coverage s) = length bs \<and> normalized_bytes s = normalize_for_tag bs
     \<and> sn_retained_lines s = retained_of (retains (rq_coverage request)) 1 0 (line_records bs)
     \<and> records s = map (\<lambda>(n, r). (n, rt_record r)) (sn_retained_lines s)
     \<and> sc_seen_lines (coverage s) = bt_keys (sn_retained_lines s)
     \<and> empty_file (boundary s) = (bs = []) \<and> finished sc \<and> published sc = Some s
     \<and> bof_observed (boundary s) \<and> eof_observed (boundary s)"
  by (simp add: finish_def finish_line_at Let_def tag_for_def)

lemma retained_of_get:
  "bt_get (retained_of P m off rs) n =
     (if P n \<and> m \<le> n \<and> n < m + length rs
      then (let start = off + length (concat (map to_bytes (take (n - m) rs))); r = rs ! (n - m) in
        Some \<lparr>line_number = n, rt_record = r, byte_start = start, byte_end = start + length (to_bytes r)\<rparr>)
      else None)"
proof (induction rs arbitrary: m off)
  case (Cons r rs)
  show ?case
  proof (cases "n = m")
    case True
    have "bt_get (retained_of P (m + 1) (off + length (to_bytes r)) rs) n = None"
      unfolding Cons.IH using True by simp
    then show ?thesis using True by (simp add: bt_get_def)
  next
    case False
    have "bt_get (retained_of P m off (r # rs)) n = bt_get (retained_of P (m + 1) (off + length (to_bytes r)) rs) n"
      using False by (simp add: bt_get_def)
    also have "\<dots> = (if P n \<and> m \<le> n \<and> n < m + length (r # rs)
      then (let start = off + length (concat (map to_bytes (take (n - m) (r # rs)))); q = (r # rs) ! (n - m) in
        Some \<lparr>line_number = n, rt_record = q, byte_start = start, byte_end = start + length (to_bytes q)\<rparr>)
      else None)"
    proof (cases "m < n")
      case True
      then have "n - m = Suc (n - Suc m)" by simp
      then show ?thesis using True unfolding Cons.IH by (simp add: Let_def add.assoc)
    qed (use False in \<open>simp add: Cons.IH\<close>)
    finally show ?thesis .
  qed
qed (auto simp: bt_get_def)

lemma retained_of_all: "map (\<lambda>e. rt_record (snd e)) (retained_of (\<lambda>_. True) n off rs) = rs"
  by (induction rs arbitrary: n off) simp_all

text \<open>The snapshot a scan of a byte buffer publishes.\<close>

lemma scan_bytes_with_coverage_spec:
  obtains s where "scan_bytes_with_coverage bs cov = Some s"
    "sn_tag s = tag_for bs" "total_lines s = length (line_records bs)" "byte_count s = length bs"
    "sn_retained_lines s = retained_of (retains cov) 1 0 (line_records bs)"
    "records s = map (\<lambda>(n, r). (n, rt_record r)) (sn_retained_lines s)"
    "sc_seen_lines (coverage s) = bt_keys (sn_retained_lines s)"
    "empty_file (boundary s) = (bs = [])" "normalized_bytes s = normalize_for_tag bs"
    "bof_observed (boundary s)" "eof_observed (boundary s)"
proof -
  let ?r = "\<lparr>rq_coverage = cov, rq_provenance = default_provenance\<rparr>"
  let ?c = "default_provenance\<lparr>cp_byte_len := Some (length bs)\<rparr>"
  obtain s sc where f: "finish (scanner_at ?r ?c bs) = Inr (\<lparr>sr_snapshot = Some s, sr_coverage = coverage s,
       sr_provenance = rq_provenance ?r, sr_capture_provenance = ?c\<lparr>cp_byte_len := Some (length bs)\<rparr>\<rparr>, sc)"
    "sn_tag s = tag_for bs" "total_lines s = length (line_records bs)" "byte_count s = length bs"
    "sn_retained_lines s = retained_of (retains (rq_coverage ?r)) 1 0 (line_records bs)"
    "records s = map (\<lambda>(n, r). (n, rt_record r)) (sn_retained_lines s)"
    "sc_seen_lines (coverage s) = bt_keys (sn_retained_lines s)" "empty_file (boundary s) = (bs = [])"
    "normalized_bytes s = normalize_for_tag bs" "bof_observed (boundary s)" "eof_observed (boundary s)"
    using finish_at [of ?r ?c bs] by blast
  have "scan_bytes_with_coverage bs cov = Some s"
    using f(1) push_at [of ?r ?c "[]" bs]
    by (simp add: scan_bytes_with_coverage_def scan_bytes_with_request_def new_at Let_def)
  then show thesis using f(2-) that by simp
qed

lemma scan_bytes_whole: "scan_bytes bs = scan_bytes_with_coverage bs coverage_whole_file"
  by (simp add: scan_bytes_def scan_bytes_with_coverage_def request_whole_file_def)

lemma raw_line_records_spec: "raw_line_records bs = Some (line_records bs)"
proof -
  obtain s where s: "scan_bytes_with_coverage bs coverage_whole_file = Some s"
    "sn_retained_lines s = retained_of (retains coverage_whole_file) 1 0 (line_records bs)"
    "records s = map (\<lambda>(n, r). (n, rt_record r)) (sn_retained_lines s)"
    by (rule scan_bytes_with_coverage_spec)
  have "retains coverage_whole_file = (\<lambda>_. True)" by (intro ext) (simp add: retains_def coverage_whole_file_def)
  then have "bt_values (records s) = map (\<lambda>e. rt_record (snd e)) (retained_of (\<lambda>_. True) 1 0 (line_records bs))"
    using s(2,3) by (simp add: bt_values_def case_prod_unfold)
  then show ?thesis using s(1) retained_of_all by (simp add: raw_line_records_def scan_bytes_whole)
qed

lemma read_loop_prefix:
  "read_loop (scanner_at request capture bs) r = Inr sc \<Longrightarrow>
   \<exists>chunks. sc = scanner_at request capture (bs @ concat chunks) \<and> prefix (map Inr chunks) r"
proof (induction r arbitrary: bs)
  case Nil
  then show ?case by (intro exI [of _ "[]"]) simp
next
  case (Cons x r)
  show ?case
  proof (cases x)
    case (Inr c)
    show ?thesis
    proof (cases "c = []")
      case True
      then show ?thesis using Cons.prems Inr by (intro exI [of _ "[]"]) simp
    next
      case False
      then obtain chunks where "sc = scanner_at request capture ((bs @ c) @ concat chunks)" "prefix (map Inr chunks) r"
        using Cons.IH [of "bs @ c"] Cons.prems Inr by (auto simp: push_at)
      then show ?thesis using Inr by (intro exI [of _ "c # chunks"]) simp
    qed
  qed (use Cons.prems in simp)
qed

lemma scan_reader_spec:
  assumes "scan_reader_with_provenance r request capture = Inr result"
  obtains chunks s where "prefix (map Inr chunks) r" "sr_snapshot result = Some s"
    "sc_byte_count (sr_coverage result) = length (concat chunks)" "byte_count s = length (concat chunks)"
    "sn_tag s = tag_for (concat chunks)"
proof -
  obtain sc where sc: "read_loop (scanner_at request capture []) r = Inr sc" "\<exists>q. finish sc = Inr (result, q)"
    using assms by (auto simp: scan_reader_with_provenance_def new_at split: sum.splits)
  obtain chunks where chunks: "sc = scanner_at request capture (concat chunks)" "prefix (map Inr chunks) r"
    using read_loop_prefix [OF sc(1)] by auto
  obtain s where "sr_snapshot result = Some s" "sr_coverage result = coverage s" "sn_tag s = tag_for (concat chunks)"
    "byte_count s = length (concat chunks)" "sc_byte_count (coverage s) = length (concat chunks)"
    using finish_at [of request capture "concat chunks"] sc(2) unfolding chunks(1) by auto
  then show thesis using that [OF chunks(2)] by simp
qed

section \<open>Well-formed records\<close>

definition wf_record :: "raw_line_record \<Rightarrow> bool" where
  "wf_record r \<longleftrightarrow> 10 \<notin> set (rl_content r)
     \<and> (rl_terminator r = Lf \<longrightarrow> \<not> ends_with (rl_content r) [13])
     \<and> (rl_terminator r = NoTerm \<longrightarrow> rl_content r \<noteq> [])"

definition wf_records :: "raw_line_record list \<Rightarrow> bool" where
  "wf_records rs \<longleftrightarrow> list_all wf_record rs \<and> list_all (\<lambda>r. rl_terminator r \<noteq> NoTerm) (butlast rs)"

lemma terminated_wf: "10 \<notin> set p \<Longrightarrow> wf_record (terminated p) \<and> rl_terminator (terminated p) \<noteq> NoTerm"
  by (cases p rule: rev_cases) (auto simp: wf_record_def terminated_def ends_with_suffix suffix_def)

lemma line_records_wf: "wf_records (line_records bs)"
proof -
  have *: "10 \<notin> set p" if "p \<in> set (split_on 10 bs)" for p using split_on_pieces [OF that] .
  have "10 \<notin> set (open_line bs)" unfolding open_line_def by (rule *) simp
  moreover have "\<forall>r \<in> set (complete_records bs). wf_record r \<and> rl_terminator r \<noteq> NoTerm"
    using * terminated_wf by (auto simp: complete_records_def line_pieces_def dest: in_set_butlastD)
  ultimately show ?thesis
    by (auto simp: wf_records_def line_records_def list_all_iff wf_record_def dest: in_set_butlastD)
qed

lemma wf_terminated:
  assumes "wf_record r" "rl_terminator r \<noteq> NoTerm"
  obtains p where "10 \<notin> set p" "r = terminated p" "to_bytes r = p @ [10]"
proof (cases "rl_terminator r")
  case Lf
  then have "r = terminated (rl_content r)"
    using assms(1) by (cases r; cases "rl_content r" rule: rev_cases) (auto simp: wf_record_def terminated_def ends_with_suffix suffix_def)
  then show ?thesis using that assms(1) to_bytes_terminated by (metis wf_record_def)
next
  case CrLf
  then have "r = terminated (rl_content r @ [13])" by (cases r) (simp add: terminated_def)
  moreover have "10 \<notin> set (rl_content r @ [13])" using assms(1) by (simp add: wf_record_def)
  ultimately show ?thesis using that to_bytes_terminated by metis
qed (use assms in simp)

lemma line_records_Cons: "10 \<notin> set p \<Longrightarrow> line_records (p @ 10 # bs) = terminated p # line_records bs"
  using split_on_append [of 10 p bs]
  by (simp add: line_records_def complete_records_def line_pieces_def open_line_def)

lemma line_records_concat: "wf_records rs \<Longrightarrow> line_records (concat (map to_bytes rs)) = rs"
proof (induction rs)
  case Nil
  then show ?case by (simp add: line_records_def complete_records_def line_pieces_def open_line_def)
next
  case (Cons r rs)
  show ?case
  proof (cases "rl_terminator r = NoTerm")
    case True
    then have "rs = []" "10 \<notin> set (rl_content r)" "rl_content r \<noteq> []"
      using Cons.prems by (auto simp: wf_records_def wf_record_def split: if_splits)
    then show ?thesis using True
      by (cases r) (simp add: to_bytes_def line_records_def complete_records_def line_pieces_def open_line_def split_on_single)
  next
    case False
    obtain p where p: "10 \<notin> set p" "r = terminated p" "to_bytes r = p @ [10]"
      using wf_terminated [of r] False Cons.prems by (auto simp: wf_records_def)
    have "wf_records rs" using Cons.prems by (cases rs) (auto simp: wf_records_def)
    then show ?thesis using p Cons.IH by (simp add: line_records_Cons)
  qed
qed

section \<open>Stable captures\<close>

lemma capture_path_once_stable:
  assumes "capture_path_once path io request = Inr s"
  shows "\<exists>md md_d md_p chunks. io_before io = Inr md \<and> io_after_descriptor io = Inr md_d \<and> io_after_path io = Inr md_p
     \<and> byte_count s = md_len md \<and> md_len md_d = md_len md \<and> md_len md_p = md_len md
     \<and> \<not> differ (md_identity md) (md_identity md_d) \<and> \<not> differ (md_identity md) (md_identity md_p)
     \<and> \<not> differ (md_modified md) (md_modified md_d) \<and> \<not> differ (md_modified md) (md_modified md_p)
     \<and> sn_tag s = tag_for (concat chunks) \<and> prefix (map Inr chunks) (io_reads io)"
proof -
  obtain md md_d md_p result where md: "io_before io = Inr md" "io_after_descriptor io = Inr md_d" "io_after_path io = Inr md_p"
    and scan: "scan_reader_with_provenance (io_reads io) request (from_metadata path md) = Inr result"
    and st: "same_file_version (from_metadata path md) (from_metadata path md_d)"
      "same_file_version (from_metadata path md) (from_metadata path md_p)"
      "md_len md = sc_byte_count (sr_coverage result)" "md_len md_d = md_len md" "md_len md_p = md_len md"
      "sr_snapshot result = Some s"
    using assms unfolding capture_path_once_def
    by (simp add: Let_def from_metadata_def split: sum.splits if_splits option.splits)
  obtain chunks where "prefix (map Inr chunks) (io_reads io)" "sc_byte_count (sr_coverage result) = length (concat chunks)"
    "byte_count s = length (concat chunks)" "sn_tag s = tag_for (concat chunks)"
    by (rule scan_reader_spec [OF scan]) (use st(6) in auto)
  moreover have "\<not> differ (md_identity md) (md_identity md_d)" "\<not> differ (md_identity md) (md_identity md_p)"
    "\<not> differ (md_modified md) (md_modified md_d)" "\<not> differ (md_modified md) (md_modified md_p)"
    using st(1,2) by (simp_all add: same_file_version_def from_metadata_def split: if_splits)
  ultimately show ?thesis using md st(3-5) by (intro exI [of _ md] exI [of _ md_d] exI [of _ md_p] exI [of _ chunks]) simp
qed

section \<open>Properties\<close>

text \<open>C19. Line records are a faithful decomposition of a file: the records of any bytes are well formed and concatenate to exactly
  those bytes, byte-order mark, carriage returns and a missing final terminator included, and any well-formed
  records are the records of the bytes they stand for.\<close>

theorem raw_line_records_round_trip:
  "(\<exists>rs. raw_line_records bs = Some rs \<and> wf_records rs \<and> concat (map to_bytes rs) = bs)
   \<and> (wf_records qs \<longrightarrow> raw_line_records (concat (map to_bytes qs)) = Some qs)"
  using line_records_wf line_records_bytes by (simp add: raw_line_records_spec line_records_concat)

theorem raw_line_records_round_trip_witness:
  "wf_records [\<lparr>rl_content = [97, 13, 98], rl_terminator = CrLf\<rparr>, \<lparr>rl_content = [], rl_terminator = Lf\<rparr>,
       \<lparr>rl_content = [99, 13], rl_terminator = NoTerm\<rparr>]
   \<and> raw_line_records [97, 13, 98, 13, 10, 10, 99, 13]
     = Some [\<lparr>rl_content = [97, 13, 98], rl_terminator = CrLf\<rparr>, \<lparr>rl_content = [], rl_terminator = Lf\<rparr>,
       \<lparr>rl_content = [99, 13], rl_terminator = NoTerm\<rparr>]"
proof -
  let ?rs = "[\<lparr>rl_content = [97, 13, 98], rl_terminator = CrLf\<rparr>, \<lparr>rl_content = [], rl_terminator = Lf\<rparr>,
       \<lparr>rl_content = [99, 13], rl_terminator = NoTerm\<rparr>]"
  have "wf_records ?rs" by (simp add: wf_records_def wf_record_def ends_with_def)
  then show ?thesis using raw_line_records_round_trip [of _ ?rs] by (simp add: to_bytes_def)
qed

text \<open>C26. However a reader cuts the input into reads, the scan gives the same result as one read of the whole input.\<close>

theorem scan_reader_chunk_free:
  assumes "list_all (\<lambda>c. c \<noteq> []) chunks" "chunks \<noteq> []"
  shows "scan_reader_with_provenance (map Inr chunks) request capture
       = scan_reader_with_provenance [Inr (concat chunks)] request capture"
proof -
  have "concat chunks \<noteq> []" using assms by (cases chunks) auto
  then show ?thesis using read_loop_at [OF assms(1), of request capture "[]"]
    by (simp add: scan_reader_with_provenance_def new_at push_at del: concat_eq_Nil_conv)
qed

theorem scan_reader_chunk_free_witness:
  "scan_reader_with_provenance (map Inr [[97, 13], [10, 98], [10]]) request_whole_file default_provenance
   = scan_reader_with_provenance [Inr (concat [[97, 13], [10, 98], [10]])] request_whole_file default_provenance"
  by (rule scan_reader_chunk_free) simp_all

text \<open>C14. A ranged scan authorises the rows it was asked for and no others: walking the rest of the file for the tag and the
  line count does not make those rows seen. Every retained row is the row of that number in the file, and its byte
  span is where the row stands.\<close>

theorem scan_coverage_exact:
  "\<exists>s. scan_bytes_with_coverage bs cov = Some s \<and> sn_tag s = tag_for bs
     \<and> total_lines s = length (line_records bs)
     \<and> (\<forall>n. is_seen s n \<longleftrightarrow> retains cov n \<and> 1 \<le> n \<and> n \<le> total_lines s)
     \<and> (\<forall>n. raw_record s n = (if is_seen s n then Some (line_records bs ! (n - 1)) else None))
     \<and> (\<forall>n r. bt_get (sn_retained_lines s) n = Some r \<longrightarrow>
          take (byte_end r - byte_start r) (drop (byte_start r) bs) = to_bytes (rt_record r))"
proof -
  let ?rs = "line_records bs"
  obtain s where s: "scan_bytes_with_coverage bs cov = Some s" "sn_tag s = tag_for bs" "total_lines s = length ?rs"
    "sn_retained_lines s = retained_of (retains cov) 1 0 ?rs"
    "records s = map (\<lambda>(n, r). (n, rt_record r)) (sn_retained_lines s)"
    "sc_seen_lines (coverage s) = bt_keys (sn_retained_lines s)"
    by (rule scan_bytes_with_coverage_spec)
  have seen: "is_seen s n \<longleftrightarrow> retains cov n \<and> 1 \<le> n \<and> n \<le> total_lines s" for n
    using retained_of_keys [of n "retains cov" 1 0 ?rs] s(3,4,6)
    by (simp add: is_seen_def coverage_is_seen_def bt_keys_def less_Suc_eq_le)
  moreover have "raw_record s n = (if is_seen s n then Some (?rs ! (n - 1)) else None)" for n
  proof -
    have "raw_record s n = map_option rt_record (bt_get (sn_retained_lines s) n)"
      using s(5) by (simp add: raw_record_def bt_get_def map_of_map)
    then show ?thesis using seen [of n] s(3,4) by (simp add: retained_of_get Let_def less_Suc_eq_le)
  qed
  moreover have "take (byte_end r - byte_start r) (drop (byte_start r) bs) = to_bytes (rt_record r)"
    if r: "bt_get (sn_retained_lines s) n = Some r" for n r
  proof -
    have n: "1 \<le> n" "n - 1 < length ?rs" and r': "rt_record r = ?rs ! (n - 1)"
      "byte_start r = length (concat (map to_bytes (take (n - 1) ?rs)))"
      "byte_end r = byte_start r + length (to_bytes (?rs ! (n - 1)))"
      using r s(4) by (auto simp: retained_of_get Let_def split: if_splits)
    have "bs = concat (map to_bytes (take (n - 1) ?rs)) @ to_bytes (?rs ! (n - 1)) @ concat (map to_bytes (drop n ?rs))"
      using line_records_bytes [of bs] id_take_nth_drop [OF n(2)] n(1)
      by (metis Suc_diff_1 concat.simps(2) concat_append less_eq_Suc_le list.map(2) map_append One_nat_def)
    then show ?thesis using r' by (metis append_eq_conv_conj diff_add_inverse)
  qed
  ultimately show ?thesis using s(1-3) by blast
qed

theorem scan_coverage_exact_witness:
  "\<exists>s. scan_bytes_with_coverage [97, 10, 98, 13, 10, 99] (coverage_range 2 5) = Some s
     \<and> is_seen s 2 \<and> \<not> is_seen s 1 \<and> \<not> is_seen s 4
     \<and> raw_record s 2 = Some \<lparr>rl_content = [98], rl_terminator = CrLf\<rparr>"
proof -
  let ?bs = "[97, 10, 98, 13, 10, 99] :: byte list" and ?cov = "coverage_range 2 5"
  obtain s where s: "scan_bytes_with_coverage ?bs ?cov = Some s" "total_lines s = length (line_records ?bs)"
    "\<forall>n. is_seen s n \<longleftrightarrow> retains ?cov n \<and> 1 \<le> n \<and> n \<le> total_lines s"
    "\<forall>n. raw_record s n = (if is_seen s n then Some (line_records ?bs ! (n - 1)) else None)"
    using scan_coverage_exact [of ?bs ?cov] by blast
  have r: "line_records ?bs = [\<lparr>rl_content = [97], rl_terminator = Lf\<rparr>, \<lparr>rl_content = [98], rl_terminator = CrLf\<rparr>,
      \<lparr>rl_content = [99], rl_terminator = NoTerm\<rparr>]"
    by (simp add: line_records_def complete_records_def line_pieces_def open_line_def terminated_def)
  have c: "retains ?cov 2" "\<not> retains ?cov 1" by (simp_all add: retains_def coverage_range_def coverage_none_def)
  have "is_seen s 2" "\<not> is_seen s 1" "\<not> is_seen s 4" using s(2,3) r c by simp_all
  then show ?thesis using s(1,4) r by auto
qed

text \<open>C20. A capture publishes a snapshot only from a stable attempt, the first or its one retry: the scan read exactly as
  many bytes as the descriptor and the path reported before and after it, and where both report an identity or a
  modification time these agree.\<close>

theorem capture_path_stable:
  assumes "capture_path path io1 io2 request = Inr (s, k)"
  shows "\<exists>io md md_d md_p chunks. io = (if k = 1 then io1 else io2) \<and> k \<in> {1, 2}
     \<and> io_before io = Inr md \<and> io_after_descriptor io = Inr md_d \<and> io_after_path io = Inr md_p
     \<and> byte_count s = md_len md \<and> md_len md_d = md_len md \<and> md_len md_p = md_len md
     \<and> \<not> differ (md_identity md) (md_identity md_d) \<and> \<not> differ (md_identity md) (md_identity md_p)
     \<and> \<not> differ (md_modified md) (md_modified md_d) \<and> \<not> differ (md_modified md) (md_modified md_p)
     \<and> sn_tag s = tag_for (concat chunks) \<and> prefix (map Inr chunks) (io_reads io)"
proof -
  obtain io where io: "io = (if k = 1 then io1 else io2)" "k \<in> {1, 2}" "capture_path_once path io request = Inr s"
    using assms by (auto simp: capture_path_def split: sum.splits capture_error.splits)
  from capture_path_once_stable [OF io(3)] show ?thesis using io(1,2) by blast
qed

theorem capture_path_stable_witness:
  "\<exists>s. capture_path (lit ''f'')
       \<lparr>io_open = Inr (), io_before = Inr \<lparr>md_identity = None, md_len = 3, md_modified = Some 7\<rparr>,
        io_reads = [Inr [97], Inr [13, 10]],
        io_after_descriptor = Inr \<lparr>md_identity = None, md_len = 3, md_modified = Some 7\<rparr>,
        io_after_path = Inr \<lparr>md_identity = None, md_len = 3, md_modified = Some 7\<rparr>\<rparr>
       \<lparr>io_open = Inl [], io_before = Inl [], io_reads = [], io_after_descriptor = Inl [], io_after_path = Inl []\<rparr>
       request_whole_file = Inr (s, 1) \<and> byte_count s = 3"
proof -
  let ?md = "\<lparr>md_identity = None, md_len = 3, md_modified = Some 7\<rparr>"
  let ?io = "\<lparr>io_open = Inr (), io_before = Inr ?md, io_reads = [Inr [97], Inr [13, 10]],
        io_after_descriptor = Inr ?md, io_after_path = Inr ?md\<rparr>"
  let ?io2 = "\<lparr>io_open = Inl [], io_before = Inl [], io_reads = [], io_after_descriptor = Inl [], io_after_path = Inl []\<rparr>"
  let ?cap = "from_metadata (lit ''f'') ?md"
  obtain s sc where f: "finish (scanner_at request_whole_file ?cap [97, 13, 10])
      = Inr (\<lparr>sr_snapshot = Some s, sr_coverage = coverage s, sr_provenance = rq_provenance request_whole_file,
          sr_capture_provenance = ?cap\<lparr>cp_byte_len := Some (length [97, 13, 10 :: byte])\<rparr>\<rparr>, sc)"
    "sc_byte_count (coverage s) = length [97, 13, 10 :: byte]"
    using finish_at [of request_whole_file ?cap "[97, 13, 10]"] by blast
  have "read_loop (scanner_at request_whole_file ?cap []) [Inr [97], Inr [13, 10]]
      = Inr (scanner_at request_whole_file ?cap [97, 13, 10])"
    using read_loop_at [of "[[97], [13, 10]]" request_whole_file ?cap "[]"] by simp
  then have c: "capture_path (lit ''f'') ?io ?io2 request_whole_file = Inr (s, 1)"
    using f by (simp add: capture_path_def capture_path_once_def scan_reader_with_provenance_def new_at Let_def
        same_file_version_def differ_def) (simp add: from_metadata_def)
  have "byte_count s = 3" using capture_path_stable [OF c] by auto
  then show ?thesis using c by blast
qed

end
