(* ===== verification/Hashline_Store.thy ===== *)
theory Hashline_Store
  imports Hashline_Scan "HOL-Library.Product_Lexorder" "HOL-Library.List_Lexorder"
begin

text \<open>
  The session's snapshot store, \<^verbatim>\<open>crates/aft/src/hashline/snapshot/mod.rs\<close>: line ranges and affected
  regions, publication with coalescing of equal content, lookup by tag, invalidation, and the eviction
  that keeps the store inside its bounds.

  Two things come from outside the sources and are parameters, gathered in \<open>store_env\<close>: the
  canonical form of a path (\<^verbatim>\<open>fs::canonicalize\<close>) and the \<^verbatim>\<open>blake3\<close> fingerprint of evicted
  content. A missing path or index that the source turns into a panic is \<open>None\<close>. Paths are compared
  character by character where the source compares them by components; the order only breaks ties between
  entries with equal clocks.

  The store is a state machine with the step relation \<open>store_step\<close>. Every reachable store is within
  the four bounds of the module and accounts for its bytes exactly, and a publication is never
  the victim of its own eviction.
\<close>

section \<open>Limits\<close>

definition MAX_SNAPSHOT_PATHS :: nat where "MAX_SNAPSHOT_PATHS = 30"
definition MAX_VERSIONS_PER_PATH :: nat where "MAX_VERSIONS_PER_PATH = 4"
definition MAX_SNAPSHOT_TOTAL_BYTES :: nat where "MAX_SNAPSHOT_TOTAL_BYTES = 64 * 1024 * 1024"
definition MAX_EVICTION_RECORDS :: nat where "MAX_EVICTION_RECORDS = 256"

section \<open>Ranges and affected regions\<close>

record line_range =
  lr_start :: nat
  lr_end :: nat

definition range_is_empty :: "line_range \<Rightarrow> bool" where
  "range_is_empty r \<longleftrightarrow> lr_start r = 0 \<or> lr_start r > lr_end r"

definition range_contains :: "line_range \<Rightarrow> nat \<Rightarrow> bool" where
  "range_contains r line \<longleftrightarrow> \<not> range_is_empty r \<and> lr_start r \<le> line \<and> line \<le> lr_end r"

definition coalesce_step :: "line_range list \<Rightarrow> line_range \<Rightarrow> line_range list" where
  "coalesce_step result r =
     (if result \<noteq> [] \<and> lr_start r \<le> saturating_add (lr_end (last result)) 1
      then butlast result @ [(last result)\<lparr>lr_end := max (lr_end (last result)) (lr_end r)\<rparr>]
      else result @ [r])"

definition coalesce_ranges :: "line_range list \<Rightarrow> line_range list" where
  "coalesce_ranges ranges =
     foldl coalesce_step [] (sort_key (\<lambda>r. (lr_start r, lr_end r)) (filter (\<lambda>r. \<not> range_is_empty r) ranges))"

record affected_region =
  ranges :: "line_range list"

definition region_new :: "line_range list \<Rightarrow> affected_region" where
  "region_new rs = \<lparr>ranges = coalesce_ranges rs\<rparr>"

definition region_default :: affected_region where
  "region_default = \<lparr>ranges = []\<rparr>"

definition region_from_range :: "nat \<Rightarrow> nat \<Rightarrow> affected_region" where
  "region_from_range from to = region_new [\<lparr>lr_start = from, lr_end = to\<rparr>]"

definition region_deletion :: "nat \<Rightarrow> nat \<Rightarrow> affected_region" where
  "region_deletion from to = region_from_range from to"

definition region_insertion :: "nat \<Rightarrow> nat \<Rightarrow> affected_region" where
  "region_insertion from inserted_lines =
     (if inserted_lines = 0 then region_default
      else region_from_range from (saturating_add from inserted_lines - 1))"

section \<open>The store\<close>

definition fold_tag :: "rstr \<Rightarrow> rstr" where
  "fold_tag t = to_ascii_lowercase t"

record eviction_record =
  er_path :: rstr
  er_tag :: rstr

definition eviction_record_new :: "rstr \<Rightarrow> rstr \<Rightarrow> eviction_record" where
  "eviction_record_new path t = \<lparr>er_path = path, er_tag = fold_tag t\<rparr>"

record eviction_history_entry =
  eh_record :: eviction_record
  eh_fingerprint :: "byte list"

definition residency_bytes :: "snapshot \<Rightarrow> nat" where
  "residency_bytes s = sum_list (map (length \<circ> to_bytes) (bt_values (records s)))"

record stored_snapshot =
  ss_snapshot :: snapshot
  ss_normalized_bytes :: "byte list"
  published_at :: nat
  last_used :: nat

definition stored_residency_bytes :: "stored_snapshot \<Rightarrow> nat" where
  "stored_residency_bytes v = saturating_add (residency_bytes (ss_snapshot v)) (length (ss_normalized_bytes v))"

definition has_same_normalized_content :: "stored_snapshot \<Rightarrow> rstr \<Rightarrow> byte list \<Rightarrow> bool" where
  "has_same_normalized_content v t bytes \<longleftrightarrow>
     fold_tag (sn_tag (ss_snapshot v)) = fold_tag t \<and> ss_normalized_bytes v = bytes"

datatype publish_status = Stored | Oversize nat nat

record publish_outcome =
  po_status :: publish_status
  po_snapshot :: "snapshot option"
  po_evicted :: "eviction_record list"

datatype snapshot_lookup_error = UnknownTag | EvictedTag | AmbiguousTag

fun lookup_error_code :: "snapshot_lookup_error \<Rightarrow> rstr" where
  "lookup_error_code UnknownTag = lit ''hashline_unknown_tag''"
| "lookup_error_code EvictedTag = lit ''hashline_evicted_tag''"
| "lookup_error_code AmbiguousTag = lit ''hashline_ambiguous_tag''"

fun lookup_error_steering :: "snapshot_lookup_error \<Rightarrow> rstr" where
  "lookup_error_steering AmbiguousTag =
     lit ''use apply_patch or another available non-hashline edit surface; re-reading preserves this colliding four-hex tag''"
| "lookup_error_steering _ = lit ''run `read <path>` again to mint a fresh tag, then retry the edit''"

datatype snapshot_lookup = LookupFound snapshot | LookupUnknown | LookupEvicted | LookupAmbiguous

record store_env =
  canonical_key :: "rstr \<Rightarrow> rstr"
  content_fingerprint :: "byte list \<Rightarrow> byte list"

record snapshot_store =
  paths :: "(rstr, stored_snapshot list) btree_map"
  total_bytes :: nat
  clock :: nat
  eviction_history :: "eviction_history_entry list"

definition store_new :: snapshot_store where
  "store_new = \<lparr>paths = bt_empty, total_bytes = 0, clock = 0, eviction_history = []\<rparr>"

definition snapshot_count :: "snapshot_store \<Rightarrow> nat" where
  "snapshot_count st = sum_list (map length (bt_values (paths st)))"

definition store_clear :: "snapshot_store \<Rightarrow> snapshot_store" where
  "store_clear st = st\<lparr>paths := bt_empty, total_bytes := 0, eviction_history := []\<rparr>"

definition bump_clock :: "snapshot_store \<Rightarrow> snapshot_store" where
  "bump_clock st = st\<lparr>clock := saturating_add (clock st) 1\<rparr>"

section \<open>Eviction history\<close>

definition remove_history :: "eviction_record \<Rightarrow> byte list \<Rightarrow> snapshot_store \<Rightarrow> snapshot_store" where
  "remove_history r fingerprint st =
     st\<lparr>eviction_history := filter (\<lambda>e. eh_record e \<noteq> r \<or> eh_fingerprint e \<noteq> fingerprint) (eviction_history st)\<rparr>"

definition record_eviction :: "eviction_record \<Rightarrow> byte list \<Rightarrow> snapshot_store \<Rightarrow> snapshot_store" where
  "record_eviction r fingerprint st =
     (let st = remove_history r fingerprint st;
          history = eviction_history st @ [\<lparr>eh_record = r, eh_fingerprint = fingerprint\<rparr>]
      in st\<lparr>eviction_history := drop (length history - MAX_EVICTION_RECORDS) history\<rparr>)"

definition history_contains :: "snapshot_store \<Rightarrow> rstr \<Rightarrow> rstr \<Rightarrow> bool" where
  "history_contains st path t \<longleftrightarrow>
     list_ex (\<lambda>e. er_path (eh_record e) = path \<and> er_tag (eh_record e) = t) (eviction_history st)"

definition history_contains_different_content ::
    "store_env \<Rightarrow> snapshot_store \<Rightarrow> rstr \<Rightarrow> rstr \<Rightarrow> byte list \<Rightarrow> bool" where
  "history_contains_different_content env st path t bytes \<longleftrightarrow>
     list_ex (\<lambda>e. er_path (eh_record e) = path \<and> er_tag (eh_record e) = t
       \<and> eh_fingerprint e \<noteq> content_fingerprint env bytes) (eviction_history st)"

section \<open>Eviction\<close>

definition least_recent_path :: "snapshot_store \<Rightarrow> rstr option" where
  "least_recent_path st =
     map_option (\<lambda>(_, _, path). path)
       (min_by_key id
         (map (\<lambda>(path, versions).
            (foldr max (map last_used versions) 0,
             (case min_by_key id (map published_at versions) of Some n \<Rightarrow> n | None \<Rightarrow> 0), path))
           (paths st)))"

definition least_recent_version :: "snapshot_store \<Rightarrow> (rstr \<times> nat) option" where
  "least_recent_version st =
     map_option (\<lambda>(_, _, path, _, index). (path, index))
       (min_by_key id
         (concat (map (\<lambda>(path, versions).
            map (\<lambda>(index, v). (last_used v, published_at v, path, fold_tag (sn_tag (ss_snapshot v)), index))
              (List.enumerate 0 versions)) (paths st))))"

definition remove_version_for_eviction ::
    "store_env \<Rightarrow> rstr \<Rightarrow> nat \<Rightarrow> snapshot_store \<Rightarrow> (eviction_record \<times> snapshot_store) option" where
  "remove_version_for_eviction env path index st =
     (case bt_get (paths st) path of
        None \<Rightarrow> None
      | Some versions \<Rightarrow>
          if \<not> index < length versions then None
          else
            (let removed = versions ! index;
                 rest = remove_at index versions;
                 r = eviction_record_new path (sn_tag (ss_snapshot removed));
                 st = st\<lparr>paths := (if rest = [] then bt_remove path (paths st)
                                   else bt_insert path rest (paths st)),
                         total_bytes := total_bytes st - stored_residency_bytes removed\<rparr>
             in Some (r, record_eviction r (content_fingerprint env (ss_normalized_bytes removed)) st)))"

fun evict_versions ::
    "store_env \<Rightarrow> rstr \<Rightarrow> stored_snapshot list \<Rightarrow> snapshot_store \<Rightarrow> eviction_record list \<times> snapshot_store" where
  "evict_versions env path [] st = ([], st)"
| "evict_versions env path (v # versions) st =
     (let st = st\<lparr>total_bytes := total_bytes st - stored_residency_bytes v\<rparr>;
          r = eviction_record_new path (sn_tag (ss_snapshot v));
          st = record_eviction r (content_fingerprint env (ss_normalized_bytes v)) st;
          (rs, st) = evict_versions env path versions st
      in (r # rs, st))"

definition remove_path_for_eviction ::
    "store_env \<Rightarrow> rstr \<Rightarrow> snapshot_store \<Rightarrow> eviction_record list \<times> snapshot_store" where
  "remove_path_for_eviction env path st =
     (case bt_get (paths st) path of
        None \<Rightarrow> ([], st)
      | Some versions \<Rightarrow> evict_versions env path versions (st\<lparr>paths := bt_remove path (paths st)\<rparr>))"

text \<open>The loop that brings the store back under its byte budget; \<open>n\<close> bounds the number of its
  rounds, and \<open>snapshot_count\<close> rounds are enough.\<close>

fun evict_over_budget ::
    "nat \<Rightarrow> store_env \<Rightarrow> snapshot_store \<Rightarrow> eviction_record list \<Rightarrow> (eviction_record list \<times> snapshot_store) option" where
  "evict_over_budget n env st evicted =
     (if \<not> total_bytes st > MAX_SNAPSHOT_TOTAL_BYTES then Some (evicted, st)
      else (case least_recent_version st of
              None \<Rightarrow> Some (evicted, st)
            | Some (path, index) \<Rightarrow>
                (case n of 0 \<Rightarrow> None
                 | Suc n' \<Rightarrow>
                     (case remove_version_for_eviction env path index st of
                        None \<Rightarrow> None
                      | Some (r, st') \<Rightarrow> evict_over_budget n' env st' (evicted @ [r])))))"

declare evict_over_budget.simps [simp del]

section \<open>Publication and lookup\<close>

definition merge_snapshot_evidence :: "snapshot \<Rightarrow> snapshot \<Rightarrow> snapshot" where
  "merge_snapshot_evidence existing incoming =
     (let ce = coverage existing; ci = coverage incoming; be = boundary existing; bi = boundary incoming;
          seen = collect_set (sc_seen_lines ce @ sc_seen_lines ci)
      in existing\<lparr>
        records := fold (\<lambda>(n, r). bt_insert n r) (records incoming) (records existing),
        sn_retained_lines := fold (\<lambda>(n, r). bt_insert n r) (sn_retained_lines incoming) (sn_retained_lines existing),
        coverage := \<lparr>
          sc_requested_lines = collect_set (sc_requested_lines ce @ sc_requested_lines ci),
          sc_retain_all = (sc_retain_all ce \<or> sc_retain_all ci),
          sc_retained_lines = collect_set (sc_retained_lines ce @ sc_retained_lines ci),
          sc_seen_lines = seen,
          sc_scanned_line_count = max (sc_scanned_line_count ce) (sc_scanned_line_count ci),
          sc_total_lines = max (sc_total_lines ce) (sc_total_lines ci),
          sc_byte_count = max (sc_byte_count ce) (sc_byte_count ci),
          sc_eof_observed = (sc_eof_observed ce \<or> sc_eof_observed ci)\<rparr>,
        boundary := \<lparr>
          empty_file = (empty_file be \<or> empty_file bi),
          bof_observed = (bof_observed be \<or> bof_observed bi),
          eof_observed = (eof_observed be \<or> eof_observed bi),
          first_seen = (case seen of [] \<Rightarrow> None | k # _ \<Rightarrow> Some k),
          last_seen = (case rev seen of [] \<Rightarrow> None | k # _ \<Rightarrow> Some k)\<rparr>,
        total_lines := max (total_lines existing) (total_lines incoming),
        byte_count := max (byte_count existing) (byte_count incoming),
        sn_provenance := sn_provenance incoming,
        sn_capture_provenance := sn_capture_provenance incoming\<rparr>)"

definition find_coalesced ::
    "snapshot_store \<Rightarrow> rstr \<Rightarrow> snapshot \<Rightarrow> byte list \<Rightarrow> (nat \<times> snapshot) option" where
  "find_coalesced st path s bytes =
     (case bt_get (paths st) path of
        None \<Rightarrow> None
      | Some versions \<Rightarrow>
          map_option (\<lambda>index. (index, merge_snapshot_evidence (ss_snapshot (versions ! index)) s))
            (position (\<lambda>v. has_same_normalized_content v (sn_tag s) bytes) versions))"

text \<open>The branch for content that is already resident.\<close>

definition publish_coalesced ::
    "store_env \<Rightarrow> snapshot_store \<Rightarrow> rstr \<Rightarrow> snapshot \<Rightarrow> byte list \<Rightarrow> nat \<Rightarrow> snapshot
      \<Rightarrow> (snapshot_store \<times> publish_outcome) option" where
  "publish_coalesced env st path s bytes index merged =
     (case bt_get (paths st) path of
        None \<Rightarrow> None
      | Some versions \<Rightarrow>
          if \<not> index < length versions then None
          else
            (let previous_bytes = stored_residency_bytes (versions ! index);
                 st = remove_history (eviction_record_new path (sn_tag s)) (content_fingerprint env bytes) st;
                 v = (versions ! index)\<lparr>ss_snapshot := merged, published_at := clock st, last_used := clock st\<rparr>;
                 st = st\<lparr>paths := bt_insert path (versions[index := v]) (paths st),
                         total_bytes := saturating_add (total_bytes st - previous_bytes) (stored_residency_bytes v)\<rparr>
             in map_option (\<lambda>(evicted, st).
                  (st, \<lparr>po_status = Stored, po_snapshot = Some s, po_evicted = evicted\<rparr>))
                  (evict_over_budget (snapshot_count st) env st [])))"

text \<open>The two evictions that make room for a new version: of the least recent path, and of the oldest version
  of the same path.\<close>

definition make_room_path ::
    "store_env \<Rightarrow> rstr \<Rightarrow> snapshot_store \<Rightarrow> eviction_record list \<times> snapshot_store" where
  "make_room_path env path st =
     (if bt_get (paths st) path = None \<and> length (paths st) \<ge> MAX_SNAPSHOT_PATHS
      then (case least_recent_path st of
              Some oldest \<Rightarrow> remove_path_for_eviction env oldest st
            | None \<Rightarrow> ([], st))
      else ([], st))"

definition make_room_version ::
    "store_env \<Rightarrow> rstr \<Rightarrow> snapshot_store \<Rightarrow> (eviction_record list \<times> snapshot_store) option" where
  "make_room_version env path st =
     (case bt_get (paths st) path of
        None \<Rightarrow> Some ([], st)
      | Some versions \<Rightarrow>
          if length versions \<ge> MAX_VERSIONS_PER_PATH
          then (case min_by_key (\<lambda>(_, v). (published_at v, last_used v)) (List.enumerate 0 versions) of
                  Some (index, _) \<Rightarrow>
                    map_option (\<lambda>(r, st). ([r], st)) (remove_version_for_eviction env path index st)
                | None \<Rightarrow> Some ([], st))
          else Some ([], st))"

definition push_version :: "rstr \<Rightarrow> stored_snapshot \<Rightarrow> snapshot_store \<Rightarrow> snapshot_store" where
  "push_version path v st =
     st\<lparr>paths := bt_insert path
          ((case bt_get (paths st) path of Some versions \<Rightarrow> versions | None \<Rightarrow> []) @ [v]) (paths st)\<rparr>"

definition publish_new ::
    "store_env \<Rightarrow> snapshot_store \<Rightarrow> rstr \<Rightarrow> snapshot \<Rightarrow> byte list \<Rightarrow> nat \<Rightarrow> (snapshot_store \<times> publish_outcome) option" where
  "publish_new env st path s bytes retained_bytes =
     (let now = clock st;
          (evicted1, st) = make_room_path env path st
      in do { (evicted2, st) \<leftarrow> make_room_version env path st;
              let st = remove_history (eviction_record_new path (sn_tag s)) (content_fingerprint env bytes) st;
              let st = st\<lparr>total_bytes := saturating_add (total_bytes st) retained_bytes\<rparr>;
              let st = push_version path \<lparr>ss_snapshot = s, ss_normalized_bytes = bytes, published_at = now,
                  last_used = now\<rparr> st;
              (evicted, st) \<leftarrow> evict_over_budget (snapshot_count st) env st (evicted1 @ evicted2);
              Some (st, \<lparr>po_status = Stored, po_snapshot = Some s, po_evicted = evicted\<rparr>) })"

definition publish ::
    "store_env \<Rightarrow> snapshot_store \<Rightarrow> rstr \<Rightarrow> snapshot \<Rightarrow> (snapshot_store \<times> publish_outcome) option" where
  "publish env st path0 snap =
     (let path = canonical_key env path0;
          s = snap\<lparr>normalized_bytes := []\<rparr>;
          bytes = normalized_bytes snap;
          coalesced = find_coalesced st path s bytes;
          retained_bytes = (case coalesced of
              None \<Rightarrow> saturating_add (residency_bytes s) (length bytes)
            | Some (_, merged) \<Rightarrow> saturating_add (residency_bytes merged) (length bytes))
      in if byte_count s > MAX_FILE_READ_BYTES \<or> retained_bytes > MAX_SNAPSHOT_TOTAL_BYTES
         then Some (st, \<lparr>po_status = Oversize retained_bytes MAX_SNAPSHOT_TOTAL_BYTES, po_snapshot = None,
                         po_evicted = []\<rparr>)
         else (case coalesced of
                 Some (index, merged) \<Rightarrow> publish_coalesced env (bump_clock st) path s bytes index merged
               | None \<Rightarrow> publish_new env (bump_clock st) path s bytes retained_bytes))"

definition publish_bytes ::
    "store_env \<Rightarrow> snapshot_store \<Rightarrow> rstr \<Rightarrow> byte list \<Rightarrow> coverage_input \<Rightarrow> (snapshot_store \<times> publish_outcome) option" where
  "publish_bytes env st path bytes cov =
     do { s \<leftarrow> scan_bytes_with_coverage bytes cov; publish env st path s }"

definition absent_tag_error :: "snapshot_store \<Rightarrow> rstr \<Rightarrow> rstr \<Rightarrow> snapshot_lookup_error" where
  "absent_tag_error st path folded = (if history_contains st path folded then EvictedTag else UnknownTag)"

definition lookup ::
    "store_env \<Rightarrow> snapshot_store \<Rightarrow> rstr \<Rightarrow> rstr \<Rightarrow> (snapshot_lookup_error + snapshot) \<times> snapshot_store" where
  "lookup env st path0 t =
     (let path = canonical_key env path0; folded = fold_tag t in
      case bt_get (paths st) path of
        None \<Rightarrow> (Inl (absent_tag_error st path folded), st)
      | Some versions \<Rightarrow>
          (let indices = filter (\<lambda>i. fold_tag (sn_tag (ss_snapshot (versions ! i))) = folded) [0..<length versions] in
           case indices of
             [] \<Rightarrow> (Inl (absent_tag_error st path folded), st)
           | first # rest \<Rightarrow>
               (let content = ss_normalized_bytes (versions ! first) in
                if list_ex (\<lambda>i. ss_normalized_bytes (versions ! i) \<noteq> content) rest then (Inl AmbiguousTag, st)
                else if history_contains_different_content env st path folded content then (Inl EvictedTag, st)
                else
                  (let st = bump_clock st;
                       versions' = foldl (\<lambda>vs i. vs[i := (vs ! i)\<lparr>last_used := clock st\<rparr>]) versions indices
                   in (Inr (ss_snapshot (versions ! first)), st\<lparr>paths := bt_insert path versions' (paths st)\<rparr>)))))"

text \<open>The same resolution without the touch.\<close>

definition absent_tag_state :: "snapshot_store \<Rightarrow> rstr \<Rightarrow> rstr \<Rightarrow> snapshot_lookup" where
  "absent_tag_state st path folded = (if history_contains st path folded then LookupEvicted else LookupUnknown)"

definition lookup_state :: "store_env \<Rightarrow> snapshot_store \<Rightarrow> rstr \<Rightarrow> rstr \<Rightarrow> snapshot_lookup" where
  "lookup_state env st path0 t =
     (let path = canonical_key env path0; folded = fold_tag t in
      case bt_get (paths st) path of
        None \<Rightarrow> absent_tag_state st path folded
      | Some versions \<Rightarrow>
          (case filter (\<lambda>v. fold_tag (sn_tag (ss_snapshot v)) = folded) versions of
             [] \<Rightarrow> absent_tag_state st path folded
           | first # rest \<Rightarrow>
               if list_ex (\<lambda>c. ss_normalized_bytes c \<noteq> ss_normalized_bytes first) rest then LookupAmbiguous
               else if history_contains_different_content env st path folded (ss_normalized_bytes first)
               then LookupEvicted
               else LookupFound (ss_snapshot first)))"

definition store_contains :: "store_env \<Rightarrow> snapshot_store \<Rightarrow> rstr \<Rightarrow> rstr \<Rightarrow> bool" where
  "store_contains env st path t = (case lookup_state env st path t of LookupFound _ \<Rightarrow> True | _ \<Rightarrow> False)"

definition eviction_history_contains :: "store_env \<Rightarrow> snapshot_store \<Rightarrow> rstr \<Rightarrow> rstr \<Rightarrow> bool" where
  "eviction_history_contains env st path t = history_contains st (canonical_key env path) (fold_tag t)"

definition invalidate_path :: "store_env \<Rightarrow> snapshot_store \<Rightarrow> rstr \<Rightarrow> bool \<times> snapshot_store" where
  "invalidate_path env st path0 =
     (let path = canonical_key env path0 in
      case bt_get (paths st) path of
        None \<Rightarrow> (False, st)
      | Some versions \<Rightarrow>
          (True, st\<lparr>paths := bt_remove path (paths st),
                    total_bytes := total_bytes st - sum_list (map stored_residency_bytes versions)\<rparr>))"

text \<open>Whether two resolved views carry the same evidence.\<close>

definition equivalent_snapshots :: "snapshot \<Rightarrow> snapshot \<Rightarrow> bool" where
  "equivalent_snapshots l r \<longleftrightarrow>
     records l = records r
     \<and> sc_retained_lines (coverage l) = sc_retained_lines (coverage r)
     \<and> sc_seen_lines (coverage l) = sc_seen_lines (coverage r)
     \<and> total_lines l = total_lines r
     \<and> empty_file (boundary l) = empty_file (boundary r)
     \<and> bof_observed (boundary l) = bof_observed (boundary r)
     \<and> first_seen (boundary l) = first_seen (boundary r)
     \<and> last_seen (boundary l) = last_seen (boundary r)"

section \<open>The invariant\<close>

definition content_identity :: "stored_snapshot \<Rightarrow> rstr \<times> byte list" where
  "content_identity v = (fold_tag (sn_tag (ss_snapshot v)), ss_normalized_bytes v)"

text \<open>What the type \<^verbatim>\<open>BTreeMap\<close> says of a snapshot.\<close>

definition snapshot_wf :: "snapshot \<Rightarrow> bool" where
  "snapshot_wf s \<longleftrightarrow> bt_inv (records s) \<and> bt_inv (sn_retained_lines s)"

definition version_ok :: "nat \<Rightarrow> stored_snapshot \<Rightarrow> bool" where
  "version_ok now v \<longleftrightarrow> snapshot_wf (ss_snapshot v) \<and> published_at v \<le> last_used v \<and> last_used v \<le> now
     \<and> stored_residency_bytes v \<le> MAX_SNAPSHOT_TOTAL_BYTES"

definition versions_ok :: "nat \<Rightarrow> stored_snapshot list \<Rightarrow> bool" where
  "versions_ok now versions \<longleftrightarrow> versions \<noteq> [] \<and> length versions \<le> MAX_VERSIONS_PER_PATH
     \<and> list_all (version_ok now) versions \<and> distinct (map content_identity versions)"

definition resident_bytes :: "(rstr, stored_snapshot list) btree_map \<Rightarrow> nat" where
  "resident_bytes m = sum_list (map (\<lambda>versions. sum_list (map stored_residency_bytes versions)) (bt_values m))"

text \<open>Everything but the byte budget, which publication exceeds before it evicts.\<close>

definition store_wf :: "snapshot_store \<Rightarrow> bool" where
  "store_wf st \<longleftrightarrow> bt_inv (paths st) \<and> length (paths st) \<le> MAX_SNAPSHOT_PATHS
     \<and> list_all (\<lambda>e. versions_ok (clock st) (snd e)) (paths st)
     \<and> total_bytes st = resident_bytes (paths st)
     \<and> length (eviction_history st) \<le> MAX_EVICTION_RECORDS \<and> clock st \<le> usize_max"

definition store_inv :: "snapshot_store \<Rightarrow> bool" where
  "store_inv st \<longleftrightarrow> store_wf st \<and> total_bytes st \<le> MAX_SNAPSHOT_TOTAL_BYTES"

lemmas store_limits = MAX_SNAPSHOT_PATHS_def MAX_VERSIONS_PER_PATH_def MAX_SNAPSHOT_TOTAL_BYTES_def
  MAX_EVICTION_RECORDS_def

lemma store_wf_versions: "store_wf st \<Longrightarrow> bt_get (paths st) path = Some versions \<Longrightarrow> versions_ok (clock st) versions"
  by (auto simp: store_wf_def bt_get_set list_all_iff)

lemma resident_bytes_insert:
  "bt_inv m \<Longrightarrow> resident_bytes (bt_insert k vs m)
     + (case bt_get m k of Some ws \<Rightarrow> sum_list (map stored_residency_bytes ws) | None \<Rightarrow> 0)
     = resident_bytes m + sum_list (map stored_residency_bytes vs)"
  unfolding resident_bytes_def by (rule bt_sum_insert)

lemma resident_bytes_remove:
  "bt_inv m \<Longrightarrow> resident_bytes (bt_remove k m)
     + (case bt_get m k of Some ws \<Rightarrow> sum_list (map stored_residency_bytes ws) | None \<Rightarrow> 0) = resident_bytes m"
  unfolding resident_bytes_def by (rule bt_sum_remove)

lemma version_bytes_le:
  "store_wf st \<Longrightarrow> bt_get (paths st) path = Some versions \<Longrightarrow> sum_list (map stored_residency_bytes versions) \<le> total_bytes st"
  using resident_bytes_remove [of "paths st" path] by (auto simp: store_wf_def)

text \<open>The history operations touch nothing but the history, and keep it short.\<close>

lemma remove_history_simps [simp]:
  "paths (remove_history r f st) = paths st" "total_bytes (remove_history r f st) = total_bytes st"
  "clock (remove_history r f st) = clock st"
  by (simp_all add: remove_history_def)

lemma record_eviction_simps [simp]:
  "paths (record_eviction r f st) = paths st" "total_bytes (record_eviction r f st) = total_bytes st"
  "clock (record_eviction r f st) = clock st"
  by (simp_all add: record_eviction_def Let_def)

lemma length_remove_history: "length (eviction_history (remove_history r f st)) \<le> length (eviction_history st)"
  by (simp add: remove_history_def)

lemma length_record_eviction: "length (eviction_history (record_eviction r f st)) \<le> MAX_EVICTION_RECORDS"
  by (simp add: record_eviction_def Let_def)

lemma store_wf_remove_history: "store_wf st \<Longrightarrow> store_wf (remove_history r f st)"
  using length_remove_history [of r f st] by (simp add: store_wf_def)

text \<open>Replacing the versions of a path, and removing a path.\<close>

lemma store_wf_set_versions:
  assumes "store_wf st" "versions_ok (clock st) vs"
    and "bt_get (paths st) path \<noteq> None \<or> length (paths st) < MAX_SNAPSHOT_PATHS"
    and "n + (case bt_get (paths st) path of Some ws \<Rightarrow> sum_list (map stored_residency_bytes ws) | None \<Rightarrow> 0)
      = total_bytes st + sum_list (map stored_residency_bytes vs)"
  shows "store_wf (st\<lparr>paths := bt_insert path vs (paths st), total_bytes := n\<rparr>)"
proof -
  have inv: "bt_inv (paths st)" using assms(1) by (simp add: store_wf_def)
  have "n = resident_bytes (bt_insert path vs (paths st))"
    using resident_bytes_insert [OF inv, of path vs] assms(1,4) by (simp add: store_wf_def)
  moreover have "length (bt_insert path vs (paths st)) \<le> MAX_SNAPSHOT_PATHS"
    using assms(1,3) by (auto simp: bt_length_insert [OF inv] store_wf_def)
  moreover have "list_all (\<lambda>e. versions_ok (clock st) (snd e)) (bt_insert path vs (paths st))"
    using assms(1,2) by (auto simp: list_all_iff set_bt_insert_entries [OF inv] store_wf_def)
  ultimately show ?thesis using assms(1) inv by (simp add: store_wf_def bt_insert_inv)
qed

lemma store_wf_remove_path:
  assumes "store_wf st" "bt_get (paths st) path = Some vs"
  shows "store_wf (st\<lparr>paths := bt_remove path (paths st),
    total_bytes := total_bytes st - sum_list (map stored_residency_bytes vs)\<rparr>)"
proof -
  have inv: "bt_inv (paths st)" using assms(1) by (simp add: store_wf_def)
  have "resident_bytes (bt_remove path (paths st)) + sum_list (map stored_residency_bytes vs) = resident_bytes (paths st)"
    using resident_bytes_remove [OF inv, of path] assms(2) by simp
  then have "total_bytes st - sum_list (map stored_residency_bytes vs) = resident_bytes (bt_remove path (paths st))"
    using assms(1) by (simp add: store_wf_def)
  moreover have "length (bt_remove path (paths st)) \<le> MAX_SNAPSHOT_PATHS"
    using assms(1) by (auto simp: bt_length_remove [OF inv] store_wf_def)
  ultimately show ?thesis
    using assms(1) inv by (simp add: store_wf_def bt_remove_inv list_all_iff set_bt_remove)
qed

text \<open>One eviction.\<close>

lemma versions_ok_remove:
  assumes "versions_ok now vs" "remove_at i vs \<noteq> []" "i < length vs"
  shows "versions_ok now (remove_at i vs)"
  using assms length_remove_at [OF assms(3)] set_remove_at [of i vs]
  by (auto simp: versions_ok_def list_all_iff map_remove_at distinct_remove_at)

definition without_version :: "rstr \<Rightarrow> nat \<Rightarrow> stored_snapshot list \<Rightarrow> snapshot_store \<Rightarrow> snapshot_store" where
  "without_version path i vs st =
     st\<lparr>paths := (if remove_at i vs = [] then bt_remove path (paths st)
                   else bt_insert path (remove_at i vs) (paths st)),
        total_bytes := total_bytes st - stored_residency_bytes (vs ! i)\<rparr>"

lemma remove_version_eq:
  "bt_get (paths st) path = Some vs \<Longrightarrow> i < length vs \<Longrightarrow>
   remove_version_for_eviction env path i st =
     (let r = eviction_record_new path (sn_tag (ss_snapshot (vs ! i))) in
      Some (r, record_eviction r (content_fingerprint env (ss_normalized_bytes (vs ! i))) (without_version path i vs st)))"
  by (simp add: remove_version_for_eviction_def without_version_def Let_def)

lemma store_wf_without_version:
  assumes "store_wf st" "bt_get (paths st) path = Some vs" "i < length vs"
  shows "store_wf (without_version path i vs st)"
proof -
  have sum: "sum_list (map stored_residency_bytes (remove_at i vs)) + stored_residency_bytes (vs ! i)
      = sum_list (map stored_residency_bytes vs)"
    by (rule sum_remove_at [OF assms(3)])
  have ok: "versions_ok (clock st) vs" by (rule store_wf_versions [OF assms(1,2)])
  show ?thesis
  proof (cases "remove_at i vs = []")
    case True
    then show ?thesis using store_wf_remove_path [OF assms(1,2)] sum by (simp add: without_version_def)
  next
    case False
    have "store_wf (st\<lparr>paths := bt_insert path (remove_at i vs) (paths st),
        total_bytes := total_bytes st - stored_residency_bytes (vs ! i)\<rparr>)"
      by (rule store_wf_set_versions [OF assms(1) versions_ok_remove [OF ok False assms(3)]])
        (use assms(2) sum version_bytes_le [OF assms(1,2)] in simp_all)
    then show ?thesis using False by (simp add: without_version_def)
  qed
qed

lemma store_wf_record_eviction: "store_wf st \<Longrightarrow> store_wf (record_eviction r f st)"
  using length_record_eviction [of r f st] by (simp add: store_wf_def)

lemma snapshot_count_without_version:
  assumes "store_wf st" "bt_get (paths st) path = Some vs" "i < length vs"
  shows "Suc (snapshot_count (without_version path i vs st)) = snapshot_count st"
proof -
  have inv: "bt_inv (paths st)" using assms(1) by (simp add: store_wf_def)
  show ?thesis
  proof (cases "remove_at i vs = []")
    case True
    then show ?thesis
      using bt_sum_remove [OF inv, of length path] assms(2) length_remove_at [OF assms(3)]
      by (simp add: without_version_def snapshot_count_def)
  next
    case False
    then show ?thesis
      using bt_sum_insert [OF inv, of length path "remove_at i vs"] assms(2) length_remove_at [OF assms(3)]
      by (simp add: without_version_def snapshot_count_def)
  qed
qed

lemma snapshot_count_record_eviction [simp]: "snapshot_count (record_eviction r f st) = snapshot_count st"
  by (simp add: snapshot_count_def)

section \<open>The eviction loop\<close>

lemma least_recent_version_None:
  assumes "least_recent_version st = None" "store_wf st"
  shows "total_bytes st = 0"
proof -
  have "\<forall>e \<in> set (paths st). List.enumerate 0 (snd e) = []"
    using assms(1) by (simp add: least_recent_version_def split_beta)
  then have "snd e = []" if "e \<in> set (paths st)" for e
    using that by (metis enumerate_eq_zip length_0_conv length_enumerate list.size(3))
  then have "paths st = []" using assms(2) by (cases "paths st") (auto simp: store_wf_def versions_ok_def)
  then show ?thesis using assms(2) by (simp add: store_wf_def resident_bytes_def bt_values_def)
qed

lemma least_recent_version_Some:
  assumes "least_recent_version st = Some (path, i)" "bt_inv (paths st)"
  obtains vs where "bt_get (paths st) path = Some vs" "i < length vs"
    and "\<forall>e \<in> set (paths st). \<forall>u \<in> set (snd e). last_used (vs ! i) \<le> last_used u"
proof -
  let ?rows = "concat (map (\<lambda>(path, versions).
      map (\<lambda>(index, v). (last_used v, published_at v, path, fold_tag (sn_tag (ss_snapshot v)), index))
        (List.enumerate 0 versions)) (paths st))"
  obtain a b t where min: "min_by_key id ?rows = Some (a, b, path, t, i)"
    using assms(1) by (auto simp: least_recent_version_def)
  note row = min_by_key_Some [OF min, THEN conjunct1] min_by_key_Some [OF min, THEN conjunct2]
  from row(1) obtain vs where vs: "(path, vs) \<in> set (paths st)" "i < length vs" "a = last_used (vs ! i)"
    by (auto simp: in_set_enumerate_eq)
  have "a \<le> last_used u" if e: "e \<in> set (paths st)" and u: "u \<in> set (snd e)" for e u
  proof -
    obtain j where j: "j < length (snd e)" "u = snd e ! j" using u by (auto simp: in_set_conv_nth)
    then have "(last_used u, published_at u, fst e, fold_tag (sn_tag (ss_snapshot u)), j) \<in> set ?rows"
      using e by (force simp: in_set_enumerate_eq)
    from bspec [OF row(2) this] show ?thesis by (simp add: less_eq_prod_def) linarith
  qed
  then show ?thesis using that [of vs] vs assms(2) by (auto simp: bt_get_set)
qed

text \<open>A version that no other version is as recent as, and whose own size fits, survives the loop.\<close>

definition newest :: "rstr \<Rightarrow> stored_snapshot \<Rightarrow> snapshot_store \<Rightarrow> bool" where
  "newest path v st \<longleftrightarrow>
     (\<exists>vs. bt_get (paths st) path = Some vs \<and> v \<in> set vs)
     \<and> (\<forall>e \<in> set (paths st). \<forall>u \<in> set (snd e). last_used v \<le> last_used u \<longrightarrow> fst e = path \<and> u = v)"

lemma without_version_entry:
  assumes "store_wf st" "bt_get (paths st) path = Some vs" "i < length vs"
    and "e \<in> set (paths (without_version path i vs st))" "u \<in> set (snd e)"
  shows "\<exists>e' \<in> set (paths st). fst e' = fst e \<and> u \<in> set (snd e')"
proof -
  have inv: "bt_inv (paths st)" using assms(1) by (simp add: store_wf_def)
  have mem: "(path, vs) \<in> set (paths st)" using assms(2) inv by (simp add: bt_get_set)
  have "e \<in> set (paths st) \<or> e = (path, remove_at i vs)"
    using assms(4) by (auto simp: without_version_def set_bt_insert_entries [OF inv] set_bt_remove split: if_splits)
  then show ?thesis
  proof
    assume "e = (path, remove_at i vs)"
    then have "fst (path, vs) = fst e" "u \<in> set (snd (path, vs))" using assms(5) set_remove_at [of i vs] by auto
    then show ?thesis using mem by blast
  qed (use assms(5) in blast)
qed

lemma without_version_keeps:
  assumes "store_wf st" "bt_get (paths st) path = Some vs" "i < length vs"
    and "bt_get (paths st) p = Some ws" "v \<in> set ws" "\<not> (p = path \<and> v = vs ! i)"
  shows "\<exists>ws'. bt_get (paths (without_version path i vs st)) p = Some ws' \<and> v \<in> set ws'"
proof (cases "p = path")
  case True
  then have "v \<in> set vs" "v \<noteq> vs ! i" using assms by auto
  then have "v \<in> set (remove_at i vs)" using remove_at_split [OF assms(3)] by simp
  then show ?thesis using True assms(1) by (auto simp: without_version_def bt_get_insert store_wf_def)
next
  case False
  then show ?thesis using assms(1,4,5)
    by (auto simp: without_version_def bt_get_insert bt_get_remove store_wf_def)
qed

lemma singleton_list: "distinct xs \<Longrightarrow> set xs \<subseteq> {x} \<Longrightarrow> xs \<noteq> [] \<Longrightarrow> xs = [x]"
  by (cases xs; cases "tl xs") auto

lemma single_version_total:
  assumes "store_wf st" "bt_get (paths st) path = Some vs" "v \<in> set vs"
    and "\<forall>e \<in> set (paths st). \<forall>u \<in> set (snd e). fst e = path \<and> u = v"
  shows "total_bytes st = stored_residency_bytes v"
proof -
  have inv: "bt_inv (paths st)" using assms(1) by (simp add: store_wf_def)
  have ok: "e \<in> set (paths st) \<Longrightarrow> versions_ok (clock st) (snd e)" for e
    using assms(1) by (auto simp: store_wf_def list_all_iff)
  have keys: "fst e = path" if "e \<in> set (paths st)" for e
    using assms(4) ok [OF that] that by (cases "snd e") (auto simp: versions_ok_def)
  have mem: "(path, vs) \<in> set (paths st)" using assms(2) inv by (simp add: bt_get_set)
  have "distinct vs" using ok [OF mem] by (simp add: versions_ok_def distinct_map)
  moreover have "set vs \<subseteq> {v}" using assms(4) mem by auto
  moreover have "vs \<noteq> []" using assms(3) by auto
  ultimately have "vs = [v]" by (rule singleton_list)
  have "distinct (map fst (paths st))" using inv by (simp add: bt_inv_def strict_sorted_iff)
  moreover have "set (map fst (paths st)) \<subseteq> {path}" using keys by auto
  moreover have "map fst (paths st) \<noteq> []" using mem by auto
  ultimately have "map fst (paths st) = [path]" by (rule singleton_list)
  then have "paths st = [(path, vs)]" using mem by auto
  then show ?thesis using assms(1) \<open>vs = [v]\<close> by (simp add: store_wf_def resident_bytes_def bt_values_def)
qed


text \<open>The loop ends within \<open>snapshot_count\<close> rounds, inside the budget.\<close>

lemma evict_step:
  assumes "store_wf st" "least_recent_version st = Some (path, i)"
  obtains vs r st' where "bt_get (paths st) path = Some vs" "i < length vs"
    and "remove_version_for_eviction env path i st = Some (r, st')"
    and "store_wf st'" "Suc (snapshot_count st') = snapshot_count st" "clock st' = clock st"
    and "paths st' = paths (without_version path i vs st)"
    and "\<forall>e \<in> set (paths st). \<forall>u \<in> set (snd e). last_used (vs ! i) \<le> last_used u"
proof -
  have inv: "bt_inv (paths st)" using assms(1) by (simp add: store_wf_def)
  obtain vs where vs: "bt_get (paths st) path = Some vs" "i < length vs"
      "\<forall>e \<in> set (paths st). \<forall>u \<in> set (snd e). last_used (vs ! i) \<le> last_used u"
    using least_recent_version_Some [OF assms(2) inv] by blast
  let ?r = "eviction_record_new path (sn_tag (ss_snapshot (vs ! i)))"
  let ?st = "record_eviction ?r (content_fingerprint env (ss_normalized_bytes (vs ! i))) (without_version path i vs st)"
  show ?thesis
  proof (rule that [OF vs(1,2), of ?r ?st])
    show "remove_version_for_eviction env path i st = Some (?r, ?st)"
      using remove_version_eq [OF vs(1,2), of env] by (simp add: Let_def)
    show "store_wf ?st" by (intro store_wf_record_eviction store_wf_without_version assms(1) vs)
    show "Suc (snapshot_count ?st) = snapshot_count st"
      using snapshot_count_without_version [OF assms(1) vs(1,2)] by simp
  qed (use vs(3) in \<open>simp_all add: without_version_def\<close>)
qed

lemma evict_over_budget_ok:
  "store_wf st \<Longrightarrow> snapshot_count st \<le> n \<Longrightarrow>
   \<exists>rs st'. evict_over_budget n env st evicted = Some (evicted @ rs, st') \<and> store_inv st' \<and> clock st' = clock st"
proof (induction n arbitrary: st evicted)
  case 0
  have "total_bytes st = 0"
  proof (cases "least_recent_version st")
    case None
    then show ?thesis using least_recent_version_None "0.prems" by blast
  next
    case (Some k)
    then show ?thesis using "0.prems" evict_step [of st "fst k" "snd k"] by force
  qed
  then show ?case using "0.prems" by (simp add: evict_over_budget.simps store_inv_def)
next
  case (Suc n)
  show ?case
  proof (cases "total_bytes st > MAX_SNAPSHOT_TOTAL_BYTES")
    case False
    then show ?thesis using Suc.prems by (simp add: evict_over_budget.simps store_inv_def)
  next
    case True
    then obtain path i where min: "least_recent_version st = Some (path, i)"
      using least_recent_version_None Suc.prems by (cases "least_recent_version st") auto
    obtain vs r st' where step: "remove_version_for_eviction env path i st = Some (r, st')" "store_wf st'"
        "Suc (snapshot_count st') = snapshot_count st" "clock st' = clock st"
      using evict_step [OF Suc.prems(1) min, of env thesis] by blast
    then have "evict_over_budget (Suc n) env st evicted = evict_over_budget n env st' (evicted @ [r])"
      using True min by (subst evict_over_budget.simps) simp
    then show ?thesis using Suc.IH [OF step(2), of "evicted @ [r]"] step Suc.prems(2) by auto
  qed
qed

lemma newest_without_version:
  assumes "store_wf st" "bt_get (paths st) p = Some vs" "i < length vs"
    and least: "\<forall>e \<in> set (paths st). \<forall>u \<in> set (snd e). last_used (vs ! i) \<le> last_used u"
    and "newest path v st" "stored_residency_bytes v \<le> MAX_SNAPSHOT_TOTAL_BYTES"
    and "total_bytes st > MAX_SNAPSHOT_TOTAL_BYTES" "paths st1 = paths (without_version p i vs st)"
  shows "newest path v st1"
proof -
  obtain ws where ws: "bt_get (paths st) path = Some ws" "v \<in> set ws" using assms(5) by (auto simp: newest_def)
  have only: "\<forall>e \<in> set (paths st). \<forall>u \<in> set (snd e). last_used v \<le> last_used u \<longrightarrow> fst e = path \<and> u = v"
    using assms(5) by (simp add: newest_def)
  have "\<not> (path = p \<and> v = vs ! i)"
  proof
    assume "path = p \<and> v = vs ! i"
    then have "\<forall>e \<in> set (paths st). \<forall>u \<in> set (snd e). fst e = path \<and> u = v" using only least by blast
    then have "total_bytes st = stored_residency_bytes v" by (rule single_version_total [OF assms(1) ws])
    then show False using assms(6,7) by simp
  qed
  then have "\<exists>ws'. bt_get (paths st1) path = Some ws' \<and> v \<in> set ws'"
    using without_version_keeps [OF assms(1-3) ws] assms(8) by simp
  moreover have "fst e = path \<and> u = v" if e: "e \<in> set (paths st1)" "u \<in> set (snd e)" "last_used v \<le> last_used u" for e u
  proof -
    obtain e' where "e' \<in> set (paths st)" "fst e' = fst e" "u \<in> set (snd e')"
      using without_version_entry [OF assms(1-3) _ e(2)] e(1) assms(8) by auto
    then show ?thesis using only e(3) by force
  qed
  ultimately show ?thesis by (simp add: newest_def)
qed

lemma evict_over_budget_keeps:
  assumes "evict_over_budget n env st evicted = Some (evicted', st')" "store_wf st"
    and "newest path v st" "stored_residency_bytes v \<le> MAX_SNAPSHOT_TOTAL_BYTES"
  shows "newest path v st'"
  using assms
proof (induction n arbitrary: st evicted)
  case (Suc n)
  show ?case
  proof (cases "total_bytes st > MAX_SNAPSHOT_TOTAL_BYTES \<and> least_recent_version st \<noteq> None")
    case False
    then show ?thesis using Suc.prems by (subst (asm) evict_over_budget.simps) (auto split: if_splits option.splits)
  next
    case True
    then obtain p i where min: "least_recent_version st = Some (p, i)" by auto
    obtain vs r st1 where step: "bt_get (paths st) p = Some vs" "i < length vs"
        "remove_version_for_eviction env p i st = Some (r, st1)" "store_wf st1"
        "paths st1 = paths (without_version p i vs st)"
        "\<forall>e \<in> set (paths st). \<forall>u \<in> set (snd e). last_used (vs ! i) \<le> last_used u"
      using evict_step [OF Suc.prems(2) min, of env thesis] by blast
    have "newest path v st1"
      by (rule newest_without_version [OF Suc.prems(2) step(1,2,6) Suc.prems(3,4) _ step(5)]) (use True in simp)
    then show ?thesis using Suc.IH [of st1 "evicted @ [r]"] Suc.prems(1,4) step(3,4) True min
      by (subst (asm) evict_over_budget.simps) simp
  qed
qed (subst (asm) evict_over_budget.simps, auto split: if_splits option.splits)

section \<open>Publication\<close>

lemma version_ok_mono: "version_ok now v \<Longrightarrow> now \<le> now' \<Longrightarrow> version_ok now' v"
  by (auto simp: version_ok_def)

lemma versions_ok_mono: "versions_ok now vs \<Longrightarrow> now \<le> now' \<Longrightarrow> versions_ok now' vs"
  by (auto simp: versions_ok_def list_all_iff intro: version_ok_mono)

lemma bump_clock_simps [simp]:
  "paths (bump_clock st) = paths st" "total_bytes (bump_clock st) = total_bytes st"
  "eviction_history (bump_clock st) = eviction_history st" "clock (bump_clock st) = saturating_add (clock st) 1"
  by (simp_all add: bump_clock_def)

lemma store_inv_bump_clock: "store_inv st \<Longrightarrow> store_inv (bump_clock st)"
proof -
  assume inv: "store_inv st"
  then have "clock st \<le> saturating_add (clock st) 1" "saturating_add (clock st) 1 \<le> usize_max"
    by (auto simp: store_inv_def store_wf_def saturating_add_def)
  then show ?thesis using inv
    by (auto simp: store_inv_def store_wf_def list_all_iff intro: versions_ok_mono)
qed

definition older :: "nat \<Rightarrow> snapshot_store \<Rightarrow> bool" where
  "older now st \<longleftrightarrow> (\<forall>e \<in> set (paths st). \<forall>u \<in> set (snd e). last_used u < now)"

lemma older_bump_clock: "store_wf st \<Longrightarrow> clock st < usize_max \<Longrightarrow> older (clock (bump_clock st)) (bump_clock st)"
  by (fastforce simp: older_def store_wf_def list_all_iff versions_ok_def version_ok_def saturating_add_def)

text \<open>Evicting every version of a path.\<close>

lemma evict_versions_spec:
  "evict_versions env path vs st = (rs, st') \<Longrightarrow>
   paths st' = paths st \<and> clock st' = clock st
   \<and> total_bytes st' = total_bytes st - sum_list (map stored_residency_bytes vs)
   \<and> (length (eviction_history st) \<le> MAX_EVICTION_RECORDS \<longrightarrow> length (eviction_history st') \<le> MAX_EVICTION_RECORDS)"
proof (induction vs arbitrary: st rs)
  case (Cons v vs)
  let ?st = "record_eviction (eviction_record_new path (sn_tag (ss_snapshot v)))
    (content_fingerprint env (ss_normalized_bytes v)) (st\<lparr>total_bytes := total_bytes st - stored_residency_bytes v\<rparr>)"
  obtain rs' where "evict_versions env path vs ?st = (rs', st')"
    using Cons.prems by (auto simp: Let_def split: prod.splits)
  from Cons.IH [OF this] show ?case using length_record_eviction by simp
qed simp

lemma remove_path_for_eviction_inv:
  assumes "store_inv st" "remove_path_for_eviction env path st = (rs, st')"
  shows "store_inv st' \<and> clock st' = clock st \<and> paths st' = bt_remove path (paths st)"
proof (cases "bt_get (paths st) path")
  case None
  then have "bt_remove path (paths st) = paths st"
    by (auto simp: bt_get_def map_of_eq_None_iff bt_remove_def filter_id_conv)
  then show ?thesis using None assms by (simp add: remove_path_for_eviction_def)
next
  case (Some vs)
  then have ev: "evict_versions env path vs (st\<lparr>paths := bt_remove path (paths st)\<rparr>) = (rs, st')"
    using assms(2) by (simp add: remove_path_for_eviction_def)
  have wf: "store_wf (st\<lparr>paths := bt_remove path (paths st),
      total_bytes := total_bytes st - sum_list (map stored_residency_bytes vs)\<rparr>)"
    using store_wf_remove_path [OF _ Some] assms(1) by (simp add: store_inv_def)
  have "total_bytes st' \<le> total_bytes st" using evict_versions_spec [OF ev] by simp
  then have "total_bytes st' \<le> MAX_SNAPSHOT_TOTAL_BYTES" using assms(1) by (simp add: store_inv_def)
  moreover have "store_wf st'" using wf evict_versions_spec [OF ev] assms(1) by (simp add: store_inv_def store_wf_def)
  ultimately show ?thesis using evict_versions_spec [OF ev] by (simp add: store_inv_def)
qed

lemma least_recent_path_Some:
  assumes "paths st \<noteq> []"
  obtains p where "least_recent_path st = Some p" "bt_get (paths st) p \<noteq> None"
proof -
  obtain k where k: "min_by_key id (map (\<lambda>(path, versions).
            (foldr max (map last_used versions) 0,
             (case min_by_key id (map published_at versions) of Some n \<Rightarrow> n | None \<Rightarrow> 0), path)) (paths st)) = Some k"
    using min_by_key_exists [of "map _ (paths st)" id] assms by blast
  have "snd (snd k) \<in> set (map fst (paths st))" using min_by_key_Some [OF k, THEN conjunct1] by (auto intro: rev_image_eqI)
  then show ?thesis using that [of "snd (snd k)"] k
    by (auto simp: least_recent_path_def split_beta bt_get_def map_of_eq_None_iff)
qed

lemma make_room_path_spec:
  assumes "store_inv st" "make_room_path env path st = (rs, st')"
  shows "store_inv st' \<and> clock st' = clock st \<and> set (paths st') \<subseteq> set (paths st)
    \<and> bt_get (paths st') path = bt_get (paths st) path
    \<and> (bt_get (paths st) path \<noteq> None \<or> length (paths st') < MAX_SNAPSHOT_PATHS)"
proof (cases "bt_get (paths st) path = None \<and> length (paths st) \<ge> MAX_SNAPSHOT_PATHS")
  case False
  then have "st' = st" using assms(2) by (simp add: make_room_path_def split: if_splits)
  then show ?thesis using assms(1) False by auto
next
  case True
  then have "paths st \<noteq> []" by (auto simp: store_limits)
  then obtain p where p: "least_recent_path st = Some p" "bt_get (paths st) p \<noteq> None"
    using least_recent_path_Some by blast
  then have rm: "remove_path_for_eviction env p st = (rs, st')" using True assms(2) by (simp add: make_room_path_def)
  have inv: "bt_inv (paths st)" "length (paths st) \<le> MAX_SNAPSHOT_PATHS"
    using assms(1) by (auto simp: store_inv_def store_wf_def)
  note st' = remove_path_for_eviction_inv [OF assms(1) rm]
  have "length (paths st') < MAX_SNAPSHOT_PATHS"
    using st' inv(2) bt_length_remove [OF inv(1), of p] p(2) True by (auto simp: store_limits)
  then show ?thesis using st' True by (auto simp: set_bt_remove bt_get_remove)
qed

lemma make_room_version_spec:
  assumes "store_inv st"
  obtains rs st' where "make_room_version env path st = Some (rs, st')"
    and "store_inv st'" "clock st' = clock st"
    and "\<forall>e \<in> set (paths st'). \<forall>u \<in> set (snd e). \<exists>e' \<in> set (paths st). fst e' = fst e \<and> u \<in> set (snd e')"
    and "\<And>vs. bt_get (paths st') path = Some vs \<Longrightarrow> length vs < MAX_VERSIONS_PER_PATH"
    and "length (paths st') \<le> length (paths st)"
    and "bt_get (paths st') path = None \<Longrightarrow> bt_get (paths st) path = None \<or> length (paths st') < length (paths st)"
proof (cases "\<exists>vs. bt_get (paths st) path = Some vs \<and> length vs \<ge> MAX_VERSIONS_PER_PATH")
  case False
  then have "make_room_version env path st = Some ([], st)"
    by (auto simp: make_room_version_def split: option.splits)
  then show ?thesis using that [of "[]" st] assms False by (auto simp: not_le)
next
  case True
  then obtain vs where vs: "bt_get (paths st) path = Some vs" "length vs \<ge> MAX_VERSIONS_PER_PATH" by blast
  have wf: "store_wf st" using assms by (simp add: store_inv_def)
  have inv: "bt_inv (paths st)" using wf by (simp add: store_wf_def)
  have len: "length vs = 4" using store_wf_versions [OF wf vs(1)] vs(2) by (simp add: versions_ok_def store_limits)
  obtain k where k: "min_by_key (\<lambda>(_, v). (published_at v, last_used v)) (List.enumerate 0 vs) = Some k"
    using min_by_key_exists [of "List.enumerate 0 vs"] len by (fastforce simp: enumerate_eq_zip)
  let ?i = "fst k"
  have i: "?i < length vs" using min_by_key_Some [OF k] by (auto simp: in_set_enumerate_eq)
  let ?r = "eviction_record_new path (sn_tag (ss_snapshot (vs ! ?i)))"
  let ?st = "record_eviction ?r (content_fingerprint env (ss_normalized_bytes (vs ! ?i))) (without_version path ?i vs st)"
  have eq: "make_room_version env path st = Some ([?r], ?st)"
    using vs k remove_version_eq [OF vs(1) i, of env] by (auto simp: make_room_version_def Let_def split: prod.splits)
  have ne: "remove_at ?i vs \<noteq> []" "length (remove_at ?i vs) = 3" using length_remove_at [OF i] len by auto
  then have get: "bt_get (paths ?st) path = Some (remove_at ?i vs)"
    by (simp add: without_version_def bt_get_insert [OF inv])
  show ?thesis
  proof (rule that [OF eq])
    have "total_bytes ?st \<le> total_bytes st" by (simp add: without_version_def)
    then have "total_bytes ?st \<le> MAX_SNAPSHOT_TOTAL_BYTES" using assms unfolding store_inv_def by linarith
    then show "store_inv ?st"
      using store_wf_record_eviction [OF store_wf_without_version [OF wf vs(1) i]] by (simp add: store_inv_def)
    show "\<forall>e \<in> set (paths ?st). \<forall>u \<in> set (snd e). \<exists>e' \<in> set (paths st). fst e' = fst e \<and> u \<in> set (snd e')"
      using without_version_entry [OF wf vs(1) i] by simp
    show "length (paths ?st) \<le> length (paths st)"
      using ne vs(1) by (simp add: without_version_def bt_length_insert [OF inv])
  qed (use get ne in \<open>simp_all add: without_version_def store_limits\<close>)
qed

lemma bt_get_entry: "bt_inv m \<Longrightarrow> e \<in> set m \<Longrightarrow> bt_get m (fst e) = Some (snd e)"
  by (cases e) (simp add: bt_get_set)

lemma saturating_add_small:
  "a \<le> MAX_SNAPSHOT_TOTAL_BYTES \<Longrightarrow> b \<le> MAX_SNAPSHOT_TOTAL_BYTES \<Longrightarrow> saturating_add a b = a + b"
  by (simp add: saturating_add_def usize_max_def MAX_SNAPSHOT_TOTAL_BYTES_def)

text \<open>Entering one version, new or refreshed, that is in use now.\<close>

lemma newest_set_versions:
  assumes "bt_inv (paths st)" "v \<in> set vs"
    and "\<And>u. u \<in> set vs \<Longrightarrow> u = v \<or> last_used u < last_used v"
    and "\<And>e u. e \<in> set (paths st) \<Longrightarrow> fst e \<noteq> path \<Longrightarrow> u \<in> set (snd e) \<Longrightarrow> last_used u < last_used v"
    and "paths st' = bt_insert path vs (paths st)"
  shows "newest path v st'"
proof -
  have "fst e = path \<and> u = v"
    if e: "e \<in> set (paths st')" "u \<in> set (snd e)" "last_used v \<le> last_used u" for e u
  proof -
    consider "e = (path, vs)" | "e \<in> set (paths st)" "fst e \<noteq> path"
      using e(1) assms(1,5) by (auto simp: set_bt_insert_entries)
    then show ?thesis
    proof cases
      case 1
      then show ?thesis using assms(3) [of u] e(2,3) by auto
    next
      case 2
      then show ?thesis using assms(4) [of e u] e(2,3) by auto
    qed
  qed
  then show ?thesis using assms(1,2,5) by (simp add: newest_def bt_get_insert)
qed

lemma store_wf_push_version:
  assumes "store_inv st" "version_ok (clock st) v"
    and "\<And>vs. bt_get (paths st) path = Some vs \<Longrightarrow> length vs < MAX_VERSIONS_PER_PATH \<and> content_identity v \<notin> content_identity ` set vs"
    and "bt_get (paths st) path \<noteq> None \<or> length (paths st) < MAX_SNAPSHOT_PATHS"
  shows "store_wf (push_version path v (st\<lparr>total_bytes := saturating_add (total_bytes st) (stored_residency_bytes v)\<rparr>))"
proof -
  have wf: "store_wf st" using assms(1) by (simp add: store_inv_def)
  let ?vs = "(case bt_get (paths st) path of Some versions \<Rightarrow> versions | None \<Rightarrow> []) @ [v]"
  have "versions_ok (clock st) ?vs"
    using assms(2,3) store_wf_versions [OF wf, of path]
    by (auto simp: versions_ok_def store_limits split: option.splits)
  moreover have "saturating_add (total_bytes st) (stored_residency_bytes v) = total_bytes st + stored_residency_bytes v"
    using assms(1,2) by (intro saturating_add_small) (auto simp: store_inv_def version_ok_def)
  ultimately have "store_wf (st\<lparr>paths := bt_insert path ?vs (paths st),
      total_bytes := saturating_add (total_bytes st) (stored_residency_bytes v)\<rparr>)"
    by (intro store_wf_set_versions [OF wf _ assms(4)]) (auto split: option.splits)
  then show ?thesis by (simp add: store_wf_def push_version_def)
qed

text \<open>The two evictions that make room, together.\<close>

lemma make_room:
  assumes "store_inv st"
  obtains rs1 st1 rs2 st2 where "make_room_path env path st = (rs1, st1)" "make_room_version env path st1 = Some (rs2, st2)"
    and "store_inv st2" "clock st2 = clock st"
    and "\<And>e u. e \<in> set (paths st2) \<Longrightarrow> u \<in> set (snd e) \<Longrightarrow> \<exists>ws. bt_get (paths st) (fst e) = Some ws \<and> u \<in> set ws"
    and "\<And>vs. bt_get (paths st2) path = Some vs \<Longrightarrow> length vs < MAX_VERSIONS_PER_PATH"
    and "bt_get (paths st2) path \<noteq> None \<or> length (paths st2) < MAX_SNAPSHOT_PATHS"
proof -
  obtain rs1 st1 where s1: "make_room_path env path st = (rs1, st1)" by fastforce
  note p1 = make_room_path_spec [OF assms s1]
  obtain rs2 st2 where s2: "make_room_version env path st1 = Some (rs2, st2)" "store_inv st2" "clock st2 = clock st1"
      "\<forall>e \<in> set (paths st2). \<forall>u \<in> set (snd e). \<exists>e' \<in> set (paths st1). fst e' = fst e \<and> u \<in> set (snd e')"
      "\<And>vs. bt_get (paths st2) path = Some vs \<Longrightarrow> length vs < MAX_VERSIONS_PER_PATH"
      "length (paths st2) \<le> length (paths st1)"
      "bt_get (paths st2) path = None \<Longrightarrow> bt_get (paths st1) path = None \<or> length (paths st2) < length (paths st1)"
    using make_room_version_spec [of st1 env path] p1 by blast
  show ?thesis
  proof (rule that [OF s1 s2(1,2)])
    show "\<exists>ws. bt_get (paths st) (fst e) = Some ws \<and> u \<in> set ws" if e: "e \<in> set (paths st2)" "u \<in> set (snd e)" for e u
    proof -
      obtain e' where "e' \<in> set (paths st1)" "fst e' = fst e" "u \<in> set (snd e')" using s2(4) e by blast
      then have "e' \<in> set (paths st)" "fst e' = fst e" "u \<in> set (snd e')" using p1 by auto
      then show ?thesis using bt_get_entry [of "paths st" e'] assms by (auto simp: store_inv_def store_wf_def)
    qed
    show "bt_get (paths st2) path \<noteq> None \<or> length (paths st2) < MAX_SNAPSHOT_PATHS"
      using s2(6,7) p1 by (cases "bt_get (paths st2) path") (auto simp: store_inv_def store_wf_def)
  qed (use s2(3,5) p1 in auto)
qed

lemma publish_new_spec:
  fixes v :: stored_snapshot
  assumes "store_inv st"
    and v: "v = \<lparr>ss_snapshot = s, ss_normalized_bytes = bytes, published_at = clock st, last_used = clock st\<rparr>"
    and n: "n = stored_residency_bytes v" "n \<le> MAX_SNAPSHOT_TOTAL_BYTES" and wf: "snapshot_wf s"
    and fresh: "\<And>vs. bt_get (paths st) path = Some vs \<Longrightarrow> content_identity v \<notin> content_identity ` set vs"
  obtains st' out where "publish_new env st path s bytes n = Some (st', out)" "store_inv st'"
    and "clock st' = clock st" "po_status out = Stored" "po_snapshot out = Some s"
    and "older (clock st) st \<Longrightarrow> newest path v st'"
proof -
  obtain rs1 st1 rs2 st2 where s2: "make_room_path env path st = (rs1, st1)" "make_room_version env path st1 = Some (rs2, st2)"
      "store_inv st2" "clock st2 = clock st"
      "\<And>e u. e \<in> set (paths st2) \<Longrightarrow> u \<in> set (snd e) \<Longrightarrow> \<exists>ws. bt_get (paths st) (fst e) = Some ws \<and> u \<in> set ws"
      "\<And>vs. bt_get (paths st2) path = Some vs \<Longrightarrow> length vs < MAX_VERSIONS_PER_PATH"
      "bt_get (paths st2) path \<noteq> None \<or> length (paths st2) < MAX_SNAPSHOT_PATHS"
    using make_room [OF assms(1), of env path] by metis
  let ?st = "remove_history (eviction_record_new path (sn_tag s)) (content_fingerprint env bytes) st2"
  let ?st3 = "push_version path v (?st\<lparr>total_bytes := saturating_add (total_bytes ?st) n\<rparr>)"
  have inv: "store_inv ?st" using s2(3) store_wf_remove_history by (simp add: store_inv_def)
  have inv2: "bt_inv (paths st2)" using s2(3) by (simp add: store_inv_def store_wf_def)
  have old: "content_identity v \<notin> content_identity ` set vs" if g: "bt_get (paths st2) path = Some vs" for vs
  proof
    assume "content_identity v \<in> content_identity ` set vs"
    then obtain u where u: "u \<in> set vs" "content_identity v = content_identity u" by auto
    have "(path, vs) \<in> set (paths st2)" using g inv2 by (simp add: bt_get_set)
    then obtain ws where "bt_get (paths st) path = Some ws" "u \<in> set ws" using s2(5) [of "(path, vs)" u] u(1) by auto
    then show False using fresh [of ws] u(2) by (metis image_eqI)
  qed
  have wf3: "store_wf ?st3"
    unfolding n by (rule store_wf_push_version [OF inv])
      (use s2(4,6,7) old n v wf in \<open>auto simp: version_ok_def\<close>)
  obtain rs st' where ev: "evict_over_budget (snapshot_count ?st3) env ?st3 (rs1 @ rs2) = Some ((rs1 @ rs2) @ rs, st')"
      "store_inv st'" "clock st' = clock ?st3"
    using evict_over_budget_ok [OF wf3 order_refl] by blast
  have "newest path v st'" if o: "older (clock st) st"
  proof (rule evict_over_budget_keeps [OF ev(1) wf3])
    have lt: "last_used u < last_used v" if "e \<in> set (paths st2)" "u \<in> set (snd e)" for e u
      using s2(5) [OF that] o bt_get_set assms(1) by (fastforce simp: older_def v store_inv_def store_wf_def)
    show "newest path v ?st3"
      by (rule newest_set_versions [OF inv2, of v "(case bt_get (paths st2) path of Some versions \<Rightarrow> versions | None \<Rightarrow> []) @ [v]"])
        (use lt in \<open>cases "bt_get (paths st2) path"; auto simp: push_version_def bt_get_set [OF inv2]\<close>)+
  qed (use n in simp)
  moreover have "publish_new env st path s bytes n
      = Some (st', \<lparr>po_status = Stored, po_snapshot = Some s, po_evicted = (rs1 @ rs2) @ rs\<rparr>)"
    using s2(1,2) ev(1) by (simp add: publish_new_def Let_def v)
  ultimately show ?thesis using that ev(2,3) s2(4) by (simp add: push_version_def)
qed

lemma publish_coalesced_spec:
  assumes "store_inv st" "bt_get (paths st) path = Some vs" "i < length vs"
    and v: "v = (vs ! i)\<lparr>ss_snapshot := merged, published_at := clock st, last_used := clock st\<rparr>"
    and merged: "snapshot_wf merged" and tag: "sn_tag merged = sn_tag (ss_snapshot (vs ! i))" and n: "stored_residency_bytes v \<le> MAX_SNAPSHOT_TOTAL_BYTES"
  obtains st' out where "publish_coalesced env st path s bytes i merged = Some (st', out)" "store_inv st'"
    and "clock st' = clock st" "po_status out = Stored" "po_snapshot out = Some s"
    and "older (clock st) st \<Longrightarrow> newest path v st'"
proof -
  let ?st = "remove_history (eviction_record_new path (sn_tag s)) (content_fingerprint env bytes) st"
  let ?total = "saturating_add (total_bytes st - stored_residency_bytes (vs ! i)) (stored_residency_bytes v)"
  let ?st3 = "?st\<lparr>paths := bt_insert path (vs[i := v]) (paths st), total_bytes := ?total\<rparr>"
  have wf: "store_wf st" "store_wf ?st" using assms(1) store_wf_remove_history by (simp_all add: store_inv_def)
  have inv: "bt_inv (paths st)" using wf(1) by (simp add: store_wf_def)
  have ok: "versions_ok (clock st) vs" by (rule store_wf_versions [OF wf(1) assms(2)])
  have "content_identity v = content_identity (vs ! i)" by (simp add: v content_identity_def tag)
  then have "map content_identity (vs[i := v]) = map content_identity vs"
    using assms(3) by (simp add: map_update list_update_same_conv)
  then have ok': "versions_ok (clock st) (vs[i := v])"
    using ok n set_update_subset_insert [of vs i v]
    by (auto simp: versions_ok_def list_all_iff version_ok_def v merged)
  have le: "sum_list (map stored_residency_bytes vs) \<le> total_bytes st" by (rule version_bytes_le [OF wf(1) assms(2)])
  have sum: "sum_list (map stored_residency_bytes (vs[i := v])) + stored_residency_bytes (vs ! i)
      = sum_list (map stored_residency_bytes vs) + stored_residency_bytes v"
    using assms(3) elem_le_sum_list [of i "map stored_residency_bytes vs"]
    by (simp add: map_update sum_list_update)
  have el: "stored_residency_bytes (vs ! i) \<le> sum_list (map stored_residency_bytes vs)"
    using assms(3) elem_le_sum_list [of i "map stored_residency_bytes vs"] by simp
  have sat: "?total = total_bytes st - stored_residency_bytes (vs ! i) + stored_residency_bytes v"
    using assms(1) n by (intro saturating_add_small) (auto simp: store_inv_def)
  have wf3: "store_wf ?st3"
    using store_wf_set_versions [of ?st "vs[i := v]" path ?total] wf(2) ok' assms(2) sat sum le el by simp
  obtain rs st' where ev: "evict_over_budget (snapshot_count ?st3) env ?st3 [] = Some ([] @ rs, st')"
      "store_inv st'" "clock st' = clock ?st3"
    using evict_over_budget_ok [OF wf3 order_refl] by blast
  have "newest path v st'" if o: "older (clock st) st"
  proof (rule evict_over_budget_keeps [OF ev(1) wf3])
    have mem: "(path, vs) \<in> set (paths st)" using assms(2) inv by (simp add: bt_get_set)
    show "newest path v ?st3"
    proof (rule newest_set_versions [OF inv, of v "vs[i := v]"])
      show "v \<in> set (vs[i := v])" using assms(3) by (rule set_update_memI)
      show "u = v \<or> last_used u < last_used v" if "u \<in> set (vs[i := v])" for u
        using that o mem set_update_subset_insert [of vs i v] by (fastforce simp: older_def v)
    qed (use o in \<open>auto simp: older_def v\<close>)
  qed (use n in simp)
  moreover have "publish_coalesced env st path s bytes i merged
      = Some (st', \<lparr>po_status = Stored, po_snapshot = Some s, po_evicted = rs\<rparr>)"
    using assms(2,3) ev(1) by (simp add: publish_coalesced_def Let_def v)
  ultimately show ?thesis using that ev(2,3) by simp
qed

text \<open>A merge keeps the identity and the incoming evidence.\<close>

lemma get_extend:
  "bt_inv m \<Longrightarrow> bt_inv ms \<Longrightarrow>
   bt_get (fold (\<lambda>(n, r). bt_insert n r) ms m) k = (case bt_get ms k of Some r \<Rightarrow> Some r | None \<Rightarrow> bt_get m k)"
proof (induction ms arbitrary: m)
  case (Cons e ms)
  have "bt_inv ms" "bt_get ms (fst e) = None"
    using Cons.prems(2) by (force simp: bt_inv_def bt_get_def map_of_eq_None_iff)+
  moreover have "bt_get (e # ms) k = (if k = fst e then Some (snd e) else bt_get ms k)"
    by (cases e) (simp add: bt_get_def)
  ultimately show ?case using Cons.IH [of "bt_insert (fst e) (snd e) m"] Cons.prems(1)
    by (auto simp: bt_insert_inv bt_get_insert split_beta split: option.splits)
qed (simp add: bt_get_def)

lemma inv_extend: "bt_inv m \<Longrightarrow> bt_inv (fold (\<lambda>(n, r). bt_insert n r) ms m)"
  using btree.inv_insert_all [of m fst snd ms] by (simp add: case_prod_unfold)

lemma merge_simps [simp]:
  "sn_tag (merge_snapshot_evidence a b) = sn_tag a"
  "records (merge_snapshot_evidence a b) = fold (\<lambda>(n, r). bt_insert n r) (records b) (records a)"
  "total_lines (merge_snapshot_evidence a b) = max (total_lines a) (total_lines b)"
  "sc_seen_lines (coverage (merge_snapshot_evidence a b))
     = collect_set (sc_seen_lines (coverage a) @ sc_seen_lines (coverage b))"
  by (simp_all add: merge_snapshot_evidence_def Let_def)

lemma merge_wf: "snapshot_wf a \<Longrightarrow> snapshot_wf (merge_snapshot_evidence a b)"
  by (simp add: snapshot_wf_def inv_extend) (simp add: merge_snapshot_evidence_def Let_def inv_extend)

definition carries :: "snapshot \<Rightarrow> snapshot \<Rightarrow> bool" where
  "carries s resident \<longleftrightarrow> list_all (\<lambda>(n, r). bt_get (records resident) n = Some r) (records s)
     \<and> list_all (\<lambda>n. is_seen resident n) (sc_seen_lines (coverage s))"

lemma carries_refl: "snapshot_wf s \<Longrightarrow> carries s (s\<lparr>normalized_bytes := bs\<rparr>)"
  by (auto simp: carries_def list_all_iff snapshot_wf_def bt_get_set is_seen_def coverage_is_seen_def)

lemma carries_merge: "snapshot_wf a \<Longrightarrow> snapshot_wf s \<Longrightarrow> carries s (merge_snapshot_evidence a (s\<lparr>normalized_bytes := bs\<rparr>))"
  by (auto simp: carries_def list_all_iff snapshot_wf_def get_extend bt_get_set [symmetric] is_seen_def coverage_is_seen_def)

text \<open>What a publication that fits leaves behind.\<close>

definition stored_as :: "store_env \<Rightarrow> snapshot_store \<Rightarrow> rstr \<Rightarrow> snapshot \<Rightarrow> snapshot_store \<Rightarrow> publish_outcome \<Rightarrow> bool" where
  "stored_as env st path0 s st' out \<longleftrightarrow> store_inv st' \<and> po_status out = Stored
     \<and> po_snapshot out = Some (s\<lparr>normalized_bytes := []\<rparr>)
     \<and> (\<exists>v. content_identity v = (fold_tag (sn_tag s), normalized_bytes s) \<and> carries s (ss_snapshot v)
          \<and> (clock st < usize_max \<longrightarrow> newest (canonical_key env path0) v st'))"

lemma publish_resident:
  assumes "store_inv st" "snapshot_wf s"
    and found: "find_coalesced st (canonical_key env path0) (s\<lparr>normalized_bytes := []\<rparr>) (normalized_bytes s) = Some (i, m)"
    and fits: "byte_count s \<le> MAX_FILE_READ_BYTES"
      "saturating_add (residency_bytes m) (length (normalized_bytes s)) \<le> MAX_SNAPSHOT_TOTAL_BYTES"
  shows "\<exists>st' out. publish env st path0 s = Some (st', out) \<and> stored_as env st path0 s st' out"
proof -
  let ?path = "canonical_key env path0" and ?s = "s\<lparr>normalized_bytes := []\<rparr>" and ?b = "normalized_bytes s"
  let ?st = "bump_clock st"
  have wf: "store_wf st" using assms(1) by (simp add: store_inv_def)
  obtain vs where vs: "bt_get (paths st) ?path = Some vs" "i < length vs"
      "m = merge_snapshot_evidence (ss_snapshot (vs ! i)) ?s" "has_same_normalized_content (vs ! i) (sn_tag s) ?b"
    using found by (auto simp: find_coalesced_def position_Some split: option.splits)
  have ok: "snapshot_wf (ss_snapshot (vs ! i))"
    using store_wf_versions [OF wf vs(1)] vs(2) by (auto simp: versions_ok_def list_all_length version_ok_def)
  let ?v = "(vs ! i)\<lparr>ss_snapshot := m, published_at := clock ?st, last_used := clock ?st\<rparr>"
  have n: "stored_residency_bytes ?v \<le> MAX_SNAPSHOT_TOTAL_BYTES"
    using fits(2) vs(4) by (simp add: stored_residency_bytes_def has_same_normalized_content_def)
  have g: "bt_get (paths ?st) ?path = Some vs" "snapshot_wf m" "sn_tag m = sn_tag (ss_snapshot (vs ! i))"
    using vs(1,3) merge_wf [OF ok] by simp_all
  obtain st' out where r: "publish_coalesced env ?st ?path ?s ?b i m = Some (st', out)" "store_inv st'"
      "po_status out = Stored" "po_snapshot out = Some ?s" "older (clock ?st) ?st \<Longrightarrow> newest ?path ?v st'"
    using publish_coalesced_spec [OF store_inv_bump_clock [OF assms(1)] g(1) vs(2) refl g(2,3) n] by metis
  have "carries s (ss_snapshot ?v)" "content_identity ?v = (fold_tag (sn_tag s), ?b)"
    using carries_merge [OF ok assms(2)] vs(3,4) by (simp_all add: content_identity_def has_same_normalized_content_def)
  then have "stored_as env st path0 s st' out"
    using r(2-5) older_bump_clock [OF wf] unfolding stored_as_def by blast
  then show ?thesis using r(1) found fits by (simp add: publish_def Let_def)
qed

lemma publish_fresh:
  assumes "store_inv st" "snapshot_wf s"
    and absent: "find_coalesced st (canonical_key env path0) (s\<lparr>normalized_bytes := []\<rparr>) (normalized_bytes s) = None"
    and fits: "byte_count s \<le> MAX_FILE_READ_BYTES"
      "saturating_add (residency_bytes (s\<lparr>normalized_bytes := []\<rparr>)) (length (normalized_bytes s)) \<le> MAX_SNAPSHOT_TOTAL_BYTES"
  shows "\<exists>st' out. publish env st path0 s = Some (st', out) \<and> stored_as env st path0 s st' out"
proof -
  let ?path = "canonical_key env path0" and ?s = "s\<lparr>normalized_bytes := []\<rparr>" and ?b = "normalized_bytes s"
  let ?st = "bump_clock st"
  let ?v = "\<lparr>ss_snapshot = ?s, ss_normalized_bytes = ?b, published_at = clock ?st, last_used = clock ?st\<rparr>"
  have wf: "store_wf st" "snapshot_wf ?s" using assms(1,2) by (auto simp: store_inv_def snapshot_wf_def)
  have id: "content_identity ?v = (fold_tag (sn_tag s), ?b)" by (simp add: content_identity_def)
  have fresh: "content_identity ?v \<notin> content_identity ` set vs" if "bt_get (paths ?st) ?path = Some vs" for vs
    using absent that by (auto simp: find_coalesced_def position_None has_same_normalized_content_def content_identity_def)
  have n: "saturating_add (residency_bytes ?s) (length ?b) = stored_residency_bytes ?v"
    by (simp add: stored_residency_bytes_def)
  obtain st' out where r: "publish_new env ?st ?path ?s ?b (saturating_add (residency_bytes ?s) (length ?b)) = Some (st', out)"
      "store_inv st'" "po_status out = Stored" "po_snapshot out = Some ?s" "older (clock ?st) ?st \<Longrightarrow> newest ?path ?v st'"
    using publish_new_spec [OF store_inv_bump_clock [OF assms(1)] refl n fits(2) wf(2) fresh] by metis
  have "carries s (ss_snapshot ?v)" using carries_refl [OF assms(2)] by simp
  then have "stored_as env st path0 s st' out"
    using r(2-5) id older_bump_clock [OF wf(1)] unfolding stored_as_def by blast
  then show ?thesis using r(1) absent fits by (simp add: publish_def Let_def)
qed

lemma publish_spec:
  assumes "store_inv st" "snapshot_wf s"
  obtains st' out where "publish env st path0 s = Some (st', out)"
    and "stored_as env st path0 s st' out
      \<or> (\<exists>n limit. po_status out = Oversize n limit \<and> st' = st \<and> po_snapshot out = None \<and> po_evicted out = [])"
proof -
  let ?c = "find_coalesced st (canonical_key env path0) (s\<lparr>normalized_bytes := []\<rparr>) (normalized_bytes s)"
  let ?n = "case ?c of None \<Rightarrow> saturating_add (residency_bytes (s\<lparr>normalized_bytes := []\<rparr>)) (length (normalized_bytes s))
    | Some (_, m) \<Rightarrow> saturating_add (residency_bytes m) (length (normalized_bytes s))"
  show ?thesis
  proof (cases "byte_count s \<le> MAX_FILE_READ_BYTES \<and> ?n \<le> MAX_SNAPSHOT_TOTAL_BYTES")
    case True
    have "\<exists>st' out. publish env st path0 s = Some (st', out) \<and> stored_as env st path0 s st' out"
    proof (cases ?c)
      case None
      then show ?thesis using publish_fresh [OF assms] True by simp
    next
      case (Some p)
      then show ?thesis using publish_resident [OF assms, of env path0 "fst p" "snd p"] True by (cases p) simp
    qed
    then show ?thesis using that by blast
  next
    case False
    then show ?thesis using that [of st] by (auto simp: publish_def Let_def)
  qed
qed

section \<open>Lookup\<close>

lemma touch_nth:
  fixes now :: nat
  assumes "distinct is" "set is \<subseteq> {..<length vs}" "i < length vs"
  shows "length (foldl (\<lambda>vs i. vs[i := (vs ! i)\<lparr>last_used := now\<rparr>]) vs is) = length vs \<and>
    foldl (\<lambda>vs i. vs[i := (vs ! i)\<lparr>last_used := now\<rparr>]) vs is ! i
      = (if i \<in> set is then (vs ! i)\<lparr>last_used := now\<rparr> else vs ! i)"
  using assms
proof (induction "is" arbitrary: vs)
  case (Cons j js)
  then show ?case using Cons.IH [of "vs[j := (vs ! j)\<lparr>last_used := now\<rparr>]"] by (auto simp: nth_list_update)
qed simp

lemma versions_ok_touch:
  assumes "versions_ok now vs" "now \<le> now'" "distinct is" "set is \<subseteq> {..<length vs}"
  defines "vs' \<equiv> foldl (\<lambda>vs i. vs[i := (vs ! i)\<lparr>last_used := now'\<rparr>]) vs is"
  shows "versions_ok now' vs' \<and> map stored_residency_bytes vs' = map stored_residency_bytes vs"
proof -
  have "0 < length vs" using assms(1) by (simp add: versions_ok_def)
  note touch = touch_nth [OF assms(3,4), where now = now', folded vs'_def]
  have len: "length vs' = length vs" using touch \<open>0 < length vs\<close> by blast
  have nth: "vs' ! i = vs ! i \<or> vs' ! i = (vs ! i)\<lparr>last_used := now'\<rparr>" if "i < length vs" for i
    using touch [OF that] by simp
  have "map content_identity vs' = map content_identity vs" "map stored_residency_bytes vs' = map stored_residency_bytes vs"
    using len nth by (auto intro!: nth_equalityI simp: content_identity_def stored_residency_bytes_def) fastforce+
  moreover have "version_ok now' (vs' ! i)" if "i < length vs" for i
  proof -
    have "version_ok now' (vs ! i)" using assms(1,2) that by (auto simp: versions_ok_def list_all_length intro: version_ok_mono)
    moreover have "version_ok now (vs ! i)" using assms(1) that by (auto simp: versions_ok_def list_all_length)
    ultimately show ?thesis using nth [OF that] assms(2) by (auto simp: version_ok_def stored_residency_bytes_def)
  qed
  ultimately show ?thesis using assms(1) len by (auto simp: versions_ok_def list_all_length)
qed

lemma touch_inv:
  assumes "store_inv st" "bt_get (paths st) path = Some vs" "distinct is" "set is \<subseteq> {..<length vs}"
  shows "store_inv (bump_clock st\<lparr>paths := bt_insert path
    (foldl (\<lambda>vs i. vs[i := (vs ! i)\<lparr>last_used := clock (bump_clock st)\<rparr>]) vs is) (paths (bump_clock st))\<rparr>)"
proof -
  let ?st = "bump_clock st"
  let ?vs = "foldl (\<lambda>vs i. vs[i := (vs ! i)\<lparr>last_used := clock ?st\<rparr>]) vs is"
  have inv: "store_inv ?st" by (rule store_inv_bump_clock [OF assms(1)])
  then have "versions_ok (clock ?st) vs" using store_wf_versions [of ?st path] assms(2) by (simp add: store_inv_def)
  then have ok: "versions_ok (clock ?st) ?vs" "map stored_residency_bytes ?vs = map stored_residency_bytes vs"
    using versions_ok_touch [OF _ order_refl assms(3,4)] by auto
  have "store_wf (?st\<lparr>paths := bt_insert path ?vs (paths ?st), total_bytes := total_bytes ?st\<rparr>)"
    by (rule store_wf_set_versions) (use inv ok assms(2) in \<open>simp_all add: store_inv_def\<close>)
  then show ?thesis using inv by (simp add: store_inv_def store_wf_def)
qed

lemma lookup_inv:
  assumes "store_inv st"
  shows "store_inv (snd (lookup env st path0 t))"
proof (cases "bt_get (paths st) (canonical_key env path0)")
  case (Some vs)
  let ?is = "filter (\<lambda>i. fold_tag (sn_tag (ss_snapshot (vs ! i))) = fold_tag t) [0..<length vs]"
  have "distinct ?is" "set ?is \<subseteq> {..<length vs}" by auto
  note touch = touch_inv [OF assms Some this]
  show ?thesis
  proof (cases ?is)
    case (Cons i js)
    then show ?thesis using touch assms Some unfolding lookup_def Let_def by (simp del: foldl_Cons)
  qed (use assms Some in \<open>simp add: lookup_def\<close>)
qed (use assms in \<open>simp add: lookup_def Let_def\<close>)

text \<open>The two lookups scan the same candidates.\<close>

lemma filter_indices: "map ((!) xs) (filter (\<lambda>i. P (xs ! i)) [0..<length xs]) = filter P xs"
  by (metis (no_types, lifting) filter_cong filter_map map_nth o_apply)

fun lookup_result_state :: "snapshot_lookup_error + snapshot \<Rightarrow> snapshot_lookup" where
  "lookup_result_state (Inr s) = LookupFound s"
| "lookup_result_state (Inl UnknownTag) = LookupUnknown"
| "lookup_result_state (Inl EvictedTag) = LookupEvicted"
| "lookup_result_state (Inl AmbiguousTag) = LookupAmbiguous"

lemma lookup_cases:
  "lookup_state env st path0 t = lookup_result_state (fst (lookup env st path0 t))"
proof (cases "bt_get (paths st) (canonical_key env path0)")
  case None
  then show ?thesis by (simp add: lookup_def lookup_state_def Let_def absent_tag_error_def absent_tag_state_def)
next
  case (Some vs)
  let ?P = "\<lambda>v. fold_tag (sn_tag (ss_snapshot v)) = fold_tag t"
  have cand: "filter ?P vs = map ((!) vs) (filter (\<lambda>i. ?P (vs ! i)) [0..<length vs])"
    using filter_indices [of vs ?P] by simp
  show ?thesis
  proof (cases "filter (\<lambda>i. ?P (vs ! i)) [0..<length vs]")
    case Nil
    then show ?thesis using Some cand
      by (simp add: lookup_def lookup_state_def Let_def absent_tag_error_def absent_tag_state_def)
  next
    case (Cons i js)
    then have "filter ?P vs = (vs ! i) # map ((!) vs) js" using cand by simp
    then show ?thesis using Some Cons by (auto simp: lookup_def lookup_state_def Let_def list_ex_iff)
  qed
qed


lemma lookup_found:
  assumes "store_inv st" "fst (lookup env st path0 t) = Inr s"
  obtains vs v where "bt_get (paths st) (canonical_key env path0) = Some vs" "v \<in> set vs" "ss_snapshot v = s"
    "\<And>u. u \<in> set vs \<Longrightarrow> fold_tag (sn_tag (ss_snapshot u)) = fold_tag t \<longleftrightarrow> u = v"
    "\<not> history_contains_different_content env st (canonical_key env path0) (fold_tag t) (ss_normalized_bytes v)"
proof -
  let ?P = "\<lambda>v. fold_tag (sn_tag (ss_snapshot v)) = fold_tag t"
  have "lookup_state env st path0 t = LookupFound s" using lookup_cases assms(2) by simp
  then obtain vs v rest where vs: "bt_get (paths st) (canonical_key env path0) = Some vs" "filter ?P vs = v # rest"
      "list_all (\<lambda>c. ss_normalized_bytes c = ss_normalized_bytes v) rest" "ss_snapshot v = s"
      "\<not> history_contains_different_content env st (canonical_key env path0) (fold_tag t) (ss_normalized_bytes v)"
    by (auto simp: lookup_state_def Let_def absent_tag_state_def list_ex_iff list_all_iff
        split: option.splits list.splits if_splits)
  have "distinct (map content_identity vs)"
    using store_wf_versions [OF _ vs(1)] assms(1) by (simp add: store_inv_def versions_ok_def)
  then have inj: "inj_on content_identity (set vs)" by (simp add: distinct_map)
  have mem: "u \<in> set vs \<and> ?P u \<longleftrightarrow> u \<in> set (v # rest)" for u
    using arg_cong [OF vs(2), of "\<lambda>l. u \<in> set l"] by simp
  then have v: "v \<in> set vs" "?P v" by auto
  have "?P u \<longleftrightarrow> u = v" if "u \<in> set vs" for u
  proof
    assume "?P u"
    then have "u \<in> set (v # rest)" using mem that by blast
    then have "content_identity u = content_identity v" using vs(3) \<open>?P u\<close> v(2)
      by (auto simp: list_all_iff content_identity_def)
    then show "u = v" using inj that v(1) by (auto dest: inj_onD)
  qed (use v(2) in simp)
  then show ?thesis using that vs v by blast
qed

lemma lookup_resident:
  assumes "bt_get (paths st) (canonical_key env path0) = Some vs" "v \<in> set vs"
    and "\<And>u. u \<in> set vs \<Longrightarrow> fold_tag (sn_tag (ss_snapshot u)) = fold_tag t \<longleftrightarrow> u = v"
    and "\<not> history_contains_different_content env st (canonical_key env path0) (fold_tag t) (ss_normalized_bytes v)"
  shows "fst (lookup env st path0 t) = Inr (ss_snapshot v)"
proof -
  have "lookup_state env st path0 t = LookupFound (ss_snapshot v)"
  proof -
    have eq: "filter (\<lambda>v. fold_tag (sn_tag (ss_snapshot v)) = fold_tag t) vs = filter (\<lambda>u. u = v) vs"
      using assms(3) by (intro filter_cong) simp_all
    have "filter (\<lambda>u. u = v) vs \<noteq> []" "\<forall>u \<in> set (filter (\<lambda>u. u = v) vs). u = v"
      using assms(2) by (auto simp: filter_empty_conv)
    then obtain rest where "filter (\<lambda>u. u = v) vs = v # rest" "set rest \<subseteq> {v}"
      by (cases "filter (\<lambda>u. u = v) vs") auto
    then show ?thesis using assms(1,4) eq by (auto simp: lookup_state_def Let_def list_ex_iff)
  qed
  then show ?thesis unfolding lookup_cases by (cases "fst (lookup env st path0 t)" rule: lookup_result_state.cases) auto
qed

section \<open>The store as a state machine\<close>

inductive store_step :: "snapshot_store \<Rightarrow> snapshot_store \<Rightarrow> bool" where
  publish_step: "snapshot_wf s \<Longrightarrow> publish env st path s = Some (st', out) \<Longrightarrow> store_step st st'"
| lookup_step: "lookup env st path t = (r, st') \<Longrightarrow> store_step st st'"
| invalidate_step: "invalidate_path env st path = (b, st') \<Longrightarrow> store_step st st'"
| clear_step: "store_step st (store_clear st)"

inductive store_reachable :: "snapshot_store \<Rightarrow> bool" where
  start: "store_reachable store_new"
| step: "store_reachable st \<Longrightarrow> store_step st st' \<Longrightarrow> store_reachable st'"

lemma store_inv_new: "store_inv store_new"
  by (simp add: store_inv_def store_wf_def store_new_def bt_empty_def bt_inv_def resident_bytes_def bt_values_def)

lemma invalidate_path_inv: "store_inv st \<Longrightarrow> invalidate_path env st path0 = (b, st') \<Longrightarrow> store_inv st'"
proof -
  assume inv: "store_inv st" and st': "invalidate_path env st path0 = (b, st')"
  show ?thesis
  proof (cases "bt_get (paths st) (canonical_key env path0)")
    case (Some vs)
    have "store_wf st'" using store_wf_remove_path [OF _ Some] inv st' Some
      by (auto simp: invalidate_path_def Let_def store_inv_def)
    moreover have "total_bytes st' \<le> total_bytes st" using st' Some by (auto simp: invalidate_path_def Let_def)
    ultimately show ?thesis using inv by (auto simp: store_inv_def)
  qed (use inv st' in \<open>simp add: invalidate_path_def Let_def\<close>)
qed

lemma store_clear_inv: "store_inv st \<Longrightarrow> store_inv (store_clear st)"
  by (simp add: store_inv_def store_wf_def store_clear_def bt_empty_def bt_inv_def resident_bytes_def bt_values_def)

lemma store_step_inv: "store_step st st' \<Longrightarrow> store_inv st \<Longrightarrow> store_inv st'"
proof (induction rule: store_step.induct)
  case (publish_step s env st path st' out)
  obtain st1 out1 where "publish env st path s = Some (st1, out1)"
      "stored_as env st path s st1 out1 \<or> st1 = st"
    using publish_spec [OF publish_step.prems publish_step.hyps(1), of env path] by metis
  then show ?case using publish_step by (auto simp: stored_as_def)
next
  case (lookup_step env st path t r st')
  then show ?case using lookup_inv [of st env path t] by simp
qed (auto intro: invalidate_path_inv store_clear_inv)

lemma store_reachable_inv: "store_reachable st \<Longrightarrow> store_inv st"
  by (induction rule: store_reachable.induct) (auto intro: store_inv_new store_step_inv)

lemma scan_snapshot_wf:
  assumes "scan_bytes_with_coverage bs cov = Some s"
  shows "snapshot_wf s"
proof -
  obtain s' where s': "scan_bytes_with_coverage bs cov = Some s'"
    "sn_retained_lines s' = retained_of (retains cov) 1 0 (line_records bs)"
    "records s' = map (\<lambda>(n, r). (n, rt_record r)) (sn_retained_lines s')"
    by (rule scan_bytes_with_coverage_spec)
  have "map fst (records s') = map fst (sn_retained_lines s')" using s'(3) by (simp add: case_prod_unfold)
  moreover have "bt_inv (sn_retained_lines s')" using s'(2) retained_of_inv by metis
  ultimately have "snapshot_wf s'" by (simp only: snapshot_wf_def bt_inv_def)
  then show ?thesis using s'(1) assms by simp
qed

section \<open>Results\<close>

text \<open>A concrete environment and snapshot, for the witnesses: a file \<^verbatim>\<open>a\<close> with one row.\<close>

definition sample_env :: store_env where
  "sample_env = \<lparr>canonical_key = id, content_fingerprint = id\<rparr>"

definition sample_snapshot :: "uchar \<Rightarrow> snapshot" where
  "sample_snapshot c = \<lparr>sn_tag = lit ''00A1'', normalized_bytes = [of_nat c],
     records = [(1, \<lparr>rl_content = [of_nat c], rl_terminator = NoTerm\<rparr>)],
     sn_retained_lines = [],
     coverage = \<lparr>sc_requested_lines = [], sc_retain_all = True, sc_retained_lines = [1], sc_seen_lines = [1],
       sc_scanned_line_count = 1, sc_total_lines = 1, sc_byte_count = 1, sc_eof_observed = True\<rparr>,
     boundary = \<lparr>empty_file = False, bof_observed = True, eof_observed = True, first_seen = Some 1, last_seen = Some 1\<rparr>,
     total_lines = 1, byte_count = 1, sn_provenance = default_provenance, sn_capture_provenance = default_provenance\<rparr>"

definition sample_store :: snapshot_store where
  "sample_store = (case publish sample_env store_new (lit ''f'') (sample_snapshot 97) of
     Some (st, _) \<Rightarrow> st | None \<Rightarrow> store_new)"

lemma sample_wf: "snapshot_wf (sample_snapshot c)"
  by (simp add: snapshot_wf_def sample_snapshot_def bt_inv_def)

lemma sample_step: "store_step store_new sample_store"
proof -
  obtain st' out where p: "publish sample_env store_new (lit ''f'') (sample_snapshot 97) = Some (st', out)"
    using publish_spec [OF store_inv_new sample_wf] by metis
  then show ?thesis using publish_step [OF sample_wf p] by (simp add: sample_store_def)
qed

text \<open>C9. Every store that publications, lookups, invalidations and clears can reach from the empty one is within
  the module's bounds: at most 30 paths, between one and four versions per path, at most 64 MiB of resident bytes,
  which the running total counts exactly, and at most 256 eviction records. The versions of a path are pairwise
  different in tag or content, and their clocks never run ahead of the store's.\<close>

theorem store_reachable_within_bounds: "store_reachable st \<Longrightarrow> store_inv st"
  by (rule store_reachable_inv)

theorem store_reachable_within_bounds_witness:
  "store_inv sample_store \<and> snapshot_count sample_store = 1 \<and> total_bytes sample_store = 2"
proof -
  have "snapshot_count sample_store = 1" "total_bytes sample_store = 2" by code_simp+
  then show ?thesis
    using store_reachable_within_bounds [OF store_reachable.step [OF store_reachable.start sample_step]] by simp
qed


text \<open>C22. Publication always returns: the eviction loops end and no index or path they use is missing. A publication
  over a limit leaves the store as it was and evicts nothing.\<close>

theorem publish_returns:
  assumes "store_reachable st" "snapshot_wf s"
  shows "\<exists>st' out. publish env st path s = Some (st', out) \<and>
    (po_status out = Stored \<or> (st' = st \<and> po_snapshot out = None \<and> po_evicted out = []))"
proof -
  have "store_inv st" by (rule store_reachable_inv [OF assms(1)])
  then obtain st' out where "publish env st path s = Some (st', out)"
    "stored_as env st path s st' out \<or> (\<exists>n limit. po_status out = Oversize n limit \<and> st' = st \<and> po_snapshot out = None \<and> po_evicted out = [])"
    by (rule publish_spec [OF _ assms(2)])
  then show ?thesis by (auto simp: stored_as_def)
qed

theorem publish_returns_witness:
  "\<exists>st' out. publish sample_env sample_store (lit ''f'') (sample_snapshot 98) = Some (st', out) \<and>
    (po_status out = Stored \<or> (st' = sample_store \<and> po_snapshot out = None \<and> po_evicted out = []))"
  by (rule publish_returns [OF store_reachable.step [OF store_reachable.start sample_step] sample_wf])

text \<open>C10. A publication that was stored is never the victim of its own eviction: until the clock runs out, the next
  lookup of its tag under its path resolves to a version that holds every row the publication showed, with the same bytes,
  unless the tag itself is ambiguous, because a version with other content is resident under the same tag or was
  evicted from under it.\<close>

theorem publish_then_lookup:
  assumes "store_inv st" "snapshot_wf s" "clock st < usize_max"
    and "publish env st path s = Some (st', out)" "po_status out = Stored"
  shows "(\<exists>r. fst (lookup env st' path (sn_tag s)) = Inr r \<and> carries s r)
    \<or> (\<exists>vs u. bt_get (paths st') (canonical_key env path) = Some vs \<and> u \<in> set vs
          \<and> fold_tag (sn_tag (ss_snapshot u)) = fold_tag (sn_tag s) \<and> ss_normalized_bytes u \<noteq> normalized_bytes s)
    \<or> history_contains_different_content env st' (canonical_key env path) (fold_tag (sn_tag s)) (normalized_bytes s)"
    (is "?found \<or> ?collision \<or> ?history")
proof (rule ccontr)
  assume no: "\<not> (?found \<or> ?collision \<or> ?history)"
  obtain st1 out1 where "publish env st path s = Some (st1, out1)"
    "stored_as env st path s st1 out1 \<or> (\<exists>n limit. po_status out1 = Oversize n limit)"
    using publish_spec [OF assms(1,2), of env path] by metis
  then have "stored_as env st path s st' out" using assms(4,5) by auto
  then obtain v where v: "store_inv st'" "content_identity v = (fold_tag (sn_tag s), normalized_bytes s)"
      "carries s (ss_snapshot v)" "newest (canonical_key env path) v st'"
    using assms(3) unfolding stored_as_def by blast
  obtain vs where vs: "bt_get (paths st') (canonical_key env path) = Some vs" "v \<in> set vs"
    using v(4) by (auto simp: newest_def)
  have "distinct (map content_identity vs)"
    using store_wf_versions [OF _ vs(1)] v(1) by (simp add: store_inv_def versions_ok_def)
  then have inj: "inj_on content_identity (set vs)" by (simp add: distinct_map)
  have "fold_tag (sn_tag (ss_snapshot u)) = fold_tag (sn_tag s) \<longleftrightarrow> u = v" if "u \<in> set vs" for u
  proof
    assume t: "fold_tag (sn_tag (ss_snapshot u)) = fold_tag (sn_tag s)"
    then have "ss_normalized_bytes u = normalized_bytes s" using no vs(1) that by blast
    then have "content_identity u = content_identity v" using t v(2) by (simp add: content_identity_def)
    then show "u = v" using inj that vs(2) by (auto dest: inj_onD)
  qed (use v(2) in \<open>simp add: content_identity_def\<close>)
  moreover have "\<not> history_contains_different_content env st' (canonical_key env path) (fold_tag (sn_tag s)) (ss_normalized_bytes v)"
    using no v(2) by (simp add: content_identity_def)
  ultimately have "fst (lookup env st' path (sn_tag s)) = Inr (ss_snapshot v)" by (rule lookup_resident [OF vs])
  then show False using no v(3) by blast
qed

theorem publish_then_lookup_witness:
  "\<exists>r. fst (lookup sample_env sample_store (lit ''f'') (lit ''00a1'')) = Inr r \<and> carries (sample_snapshot 97) r"
proof -
  let ?out = "snd (the (publish sample_env store_new (lit ''f'') (sample_snapshot 97)))"
  have c: "clock store_new < usize_max" "po_status ?out = Stored" by code_simp+
  have "\<exists>st out. publish sample_env store_new (lit ''f'') (sample_snapshot 97) = Some (st, out)"
    using publish_spec [OF store_inv_new sample_wf] by metis
  then have p: "publish sample_env store_new (lit ''f'') (sample_snapshot 97) = Some (sample_store, ?out)"
    by (auto simp: sample_store_def)
  have one: "paths sample_store = [(lit ''f'', [\<lparr>ss_snapshot = sample_snapshot 97\<lparr>normalized_bytes := []\<rparr>,
      ss_normalized_bytes = [97], published_at = 1, last_used = 1\<rparr>])]" "eviction_history sample_store = []"
    by code_simp+
  have t: "lookup sample_env sample_store (lit ''f'') (lit ''00a1'')
      = lookup sample_env sample_store (lit ''f'') (sn_tag (sample_snapshot 97))"
    by code_simp
  show ?thesis
    using publish_then_lookup [OF store_inv_new sample_wf c(1) p c(2)] one unfolding t
    by (simp add: bt_get_def sample_env_def history_contains_different_content_def sample_snapshot_def)
qed

text \<open>C12. A lookup that succeeds is unambiguous: in a store within its bounds the answer is the one resident version of
  the path that has the tag, in either letter case, and no content other than that version's is on record as evicted
  under the same path and tag.\<close>

theorem lookup_unambiguous:
  assumes "store_inv st" "fst (lookup env st path t) = Inr s"
  shows "\<exists>vs v. bt_get (paths st) (canonical_key env path) = Some vs \<and> v \<in> set vs \<and> ss_snapshot v = s
    \<and> filter (\<lambda>u. fold_tag (sn_tag (ss_snapshot u)) = fold_tag t) vs = [v]
    \<and> list_all (\<lambda>e. er_path (eh_record e) = canonical_key env path \<longrightarrow> er_tag (eh_record e) = fold_tag t
        \<longrightarrow> eh_fingerprint e = content_fingerprint env (ss_normalized_bytes v)) (eviction_history st)"
proof -
  obtain vs v where v: "bt_get (paths st) (canonical_key env path) = Some vs" "v \<in> set vs" "ss_snapshot v = s"
      "\<And>u. u \<in> set vs \<Longrightarrow> fold_tag (sn_tag (ss_snapshot u)) = fold_tag t \<longleftrightarrow> u = v"
      "\<not> history_contains_different_content env st (canonical_key env path) (fold_tag t) (ss_normalized_bytes v)"
    using lookup_found [OF assms] by metis
  have "distinct vs"
    using store_wf_versions [OF _ v(1)] assms(1) by (simp add: store_inv_def versions_ok_def distinct_map)
  then have "filter (\<lambda>u. fold_tag (sn_tag (ss_snapshot u)) = fold_tag t) vs = [v]"
    using v(2,4) by (intro singleton_list) (auto simp: filter_empty_conv)
  then show ?thesis using v(1-3,5) by (auto simp: history_contains_different_content_def list_ex_iff list_all_iff)
qed

theorem lookup_unambiguous_witness:
  "\<exists>vs v. bt_get (paths sample_store) (canonical_key sample_env (lit ''f'')) = Some vs \<and> v \<in> set vs
    \<and> ss_snapshot v = sample_snapshot 97\<lparr>normalized_bytes := []\<rparr>
    \<and> filter (\<lambda>u. fold_tag (sn_tag (ss_snapshot u)) = fold_tag (lit ''00a1'')) vs = [v]
    \<and> list_all (\<lambda>e. er_path (eh_record e) = canonical_key sample_env (lit ''f'') \<longrightarrow> er_tag (eh_record e) = fold_tag (lit ''00a1'')
        \<longrightarrow> eh_fingerprint e = content_fingerprint sample_env (ss_normalized_bytes v)) (eviction_history sample_store)"
proof -
  have "store_inv sample_store" using store_step_inv [OF sample_step store_inv_new] .
  moreover have "fst (lookup sample_env sample_store (lit ''f'') (lit ''00a1''))
      = Inr (sample_snapshot 97\<lparr>normalized_bytes := []\<rparr>)" by code_simp
  ultimately show ?thesis by (rule lookup_unambiguous)
qed

text \<open>The lookup that only observes and the lookup that touches the clocks give the same answer on every branch.\<close>

theorem lookup_state_agrees:
  "lookup_state env st path t = lookup_result_state (fst (lookup env st path t))"
  by (rule lookup_cases)

lemma evict_within_budget:
  "total_bytes st \<le> MAX_SNAPSHOT_TOTAL_BYTES \<Longrightarrow> evict_over_budget n env st evicted = Some (evicted, st)"
  by (subst evict_over_budget.simps) simp

lemma stale_scans:
  obtains s1 s2 where "scan_bytes_with_coverage [97, 10, 32] coverage_whole_file = Some s1"
    "scan_bytes_with_coverage [97, 10] coverage_whole_file = Some s2"
    "sn_tag s1 = tag_for [97, 10]" "sn_tag s2 = tag_for [97, 10]"
    "normalized_bytes s1 = [97, 10]" "normalized_bytes s2 = [97, 10]" "byte_count s1 = 3" "byte_count s2 = 2"
    "records s1 = [(1, \<lparr>rl_content = [97], rl_terminator = Lf\<rparr>), (2, \<lparr>rl_content = [32], rl_terminator = NoTerm\<rparr>)]"
    "records s2 = [(1, \<lparr>rl_content = [97], rl_terminator = Lf\<rparr>)]" "total_lines s1 = 2" "total_lines s2 = 1"
proof -
  have ret: "retains coverage_whole_file = (\<lambda>_. True)" by (intro ext) (simp add: retains_def coverage_whole_file_def)
  have n: "normalize_for_tag [97, 10, 32] = [97, 10]" "normalize_for_tag [97, 10] = [97, 10]" by code_simp+
  have t: "tag_for [97, 10, 32] = tag_for [97, 10]" by (simp add: tag_for_def n)
  have l: "line_records [97, 10, 32] = [\<lparr>rl_content = [97], rl_terminator = Lf\<rparr>, \<lparr>rl_content = [32], rl_terminator = NoTerm\<rparr>]"
    "line_records [97, 10] = [\<lparr>rl_content = [97], rl_terminator = Lf\<rparr>]" by code_simp+
  obtain s1 where s1: "scan_bytes_with_coverage [97, 10, 32] coverage_whole_file = Some s1"
    "sn_tag s1 = tag_for [97, 10, 32]" "total_lines s1 = length (line_records [97, 10, 32])" "byte_count s1 = length [97 :: byte, 10, 32]"
    "sn_retained_lines s1 = retained_of (retains coverage_whole_file) 1 0 (line_records [97, 10, 32])"
    "records s1 = map (\<lambda>(n, r). (n, rt_record r)) (sn_retained_lines s1)"
    "normalized_bytes s1 = normalize_for_tag [97, 10, 32]"
    by (rule scan_bytes_with_coverage_spec)
  obtain s2 where s2: "scan_bytes_with_coverage [97, 10] coverage_whole_file = Some s2"
    "sn_tag s2 = tag_for [97, 10]" "total_lines s2 = length (line_records [97, 10])" "byte_count s2 = length [97 :: byte, 10]"
    "sn_retained_lines s2 = retained_of (retains coverage_whole_file) 1 0 (line_records [97, 10])"
    "records s2 = map (\<lambda>(n, r). (n, rt_record r)) (sn_retained_lines s2)"
    "normalized_bytes s2 = normalize_for_tag [97, 10]"
    by (rule scan_bytes_with_coverage_spec)
  show ?thesis by (rule that [OF s1(1) s2(1)]) (use s1 s2 in \<open>simp_all add: ret n t l numeral_2_eq_2\<close>)
qed


end
