(* ===== verification/Hashline_Syntax.thy ===== *)
theory Hashline_Syntax
  imports Hashline_Store
begin

text \<open>
  The hashline patch language, \<^verbatim>\<open>crates/aft/src/hashline/syntax/mod.rs\<close>: rejections with their steering, the parser of
  patches, operations and addresses, the resolution of an address against the snapshot that minted its tag, the
  eligibility check, and the exact verification against a baseline.

  A \<^verbatim>\<open>Result\<close> is a sum whose left side is the rejection. The JSON value of the raw arguments and the
  canonicalisation of a path come from outside and are parameters. \<^verbatim>\<open>{:?}\<close> of a string, which only occurs in
  messages, is written out for ASCII; other characters are taken as printable.

  The parser inverts a printer, on whole patches and on every form of address; what it accepts satisfies the
  composition rules of the language. An operation that verifies exactly has only rows that the tagged read showed and that
  the baseline still has with the same bytes.
\<close>

section \<open>Library functions\<close>

text \<open>The \<^verbatim>\<open>?\<close> operator.\<close>

definition and_then :: "'e + 'a \<Rightarrow> ('a \<Rightarrow> 'e + 'b) \<Rightarrow> 'e + 'b" where
  "and_then r f = (case r of Inl e \<Rightarrow> Inl e | Inr x \<Rightarrow> f x)"

text \<open>\<^verbatim>\<open>str::split_once\<close> with a character predicate and with a string.\<close>

definition split_once_when :: "('a \<Rightarrow> bool) \<Rightarrow> 'a list \<Rightarrow> ('a list \<times> 'a list) option" where
  "split_once_when P s = map_option (\<lambda>i. (take i s, drop (Suc i) s)) (position P s)"

fun split_once_str :: "'a list \<Rightarrow> 'a list \<Rightarrow> ('a list \<times> 'a list) option" where
  "split_once_str [] p = (if p = [] then Some ([], []) else None)"
| "split_once_str (c # s) p =
     (if starts_with (c # s) p then Some ([], drop (length p) (c # s))
      else map_option (\<lambda>(a, b). (c # a, b)) (split_once_str s p))"

text \<open>\<^verbatim>\<open>str::split_whitespace\<close>.\<close>

definition split_whitespace :: "rstr \<Rightarrow> rstr list" where
  "split_whitespace s = filter (\<lambda>w. w \<noteq> []) (split_on SP (map (\<lambda>c. if is_whitespace c then SP else c) s))"

text \<open>\<^verbatim>\<open>{:?}\<close> of a string.\<close>

definition debug_char :: "uchar \<Rightarrow> rstr" where
  "debug_char c =
     (if c = 0 then [92, 48] else if c = 9 then [92, 116] else if c = 10 then [92, 110] else if c = 13 then [92, 114]
      else if c = 34 then [92, 34] else if c = 92 then [92, 92]
      else if c < 16 then [92] @ lit ''u{'' @ [if c < 10 then 48 + c else 87 + c] @ lit ''}''
      else if c < 32 then [92] @ lit ''u{1'' @ [if c < 26 then 32 + c else 71 + c] @ lit ''}''
      else if c = 127 then [92] @ lit ''u{7f}'' else [c])"

definition debug_str :: "rstr \<Rightarrow> rstr" where
  "debug_str s = [34] @ concat (map debug_char s) @ [34]"

section \<open>Rejections\<close>

datatype rejection_code =
  CodeMissingTag | CodeMalformedTag | CodeUnknownTag | CodeEvictedTag | CodeAmbiguousTag | CodeStaleTag | CodeUnseenLine
| CodeBoundaryIneligible | CodeUntaggablePath | CodeRegisterOverflow | CodeBackupUnavailable | CodeParseError

fun code_as_str :: "rejection_code \<Rightarrow> rstr" where
  "code_as_str CodeMissingTag = lit ''hashline_missing_tag''"
| "code_as_str CodeMalformedTag = lit ''hashline_malformed_tag''"
| "code_as_str CodeUnknownTag = lit ''hashline_unknown_tag''"
| "code_as_str CodeEvictedTag = lit ''hashline_evicted_tag''"
| "code_as_str CodeAmbiguousTag = lit ''hashline_ambiguous_tag''"
| "code_as_str CodeStaleTag = lit ''hashline_stale_tag''"
| "code_as_str CodeUnseenLine = lit ''hashline_unseen_line''"
| "code_as_str CodeBoundaryIneligible = lit ''hashline_boundary_ineligible''"
| "code_as_str CodeUntaggablePath = lit ''hashline_untaggable_path''"
| "code_as_str CodeRegisterOverflow = lit ''hashline_register_overflow''"
| "code_as_str CodeBackupUnavailable = lit ''hashline_backup_unavailable''"
| "code_as_str CodeParseError = lit ''hashline_parse_error''"

datatype rejection_stage =
  StageParse | StageHeader | StagePath | StageResolution | StageEligibility | StageVerification | StageRecovery
| StageRegister | StageBaseline

fun stage_as_str :: "rejection_stage \<Rightarrow> rstr" where
  "stage_as_str StageParse = lit ''parse''"
| "stage_as_str StageHeader = lit ''header''"
| "stage_as_str StagePath = lit ''path''"
| "stage_as_str StageResolution = lit ''resolution''"
| "stage_as_str StageEligibility = lit ''eligibility''"
| "stage_as_str StageVerification = lit ''verification''"
| "stage_as_str StageRecovery = lit ''recovery''"
| "stage_as_str StageRegister = lit ''register''"
| "stage_as_str StageBaseline = lit ''baseline''"

record hashline_rejection =
  hr_code :: rejection_code
  hr_stage :: rejection_stage
  hr_message :: rstr
  hr_steering :: rstr

definition read_again :: rstr where
  "read_again = lit ''run `read <path>` again to mint a fresh tag, then retry the edit''"

definition steering_for :: "rejection_code \<Rightarrow> rejection_stage \<Rightarrow> rstr" where
  "steering_for code stage =
     (case code of
        CodeMissingTag \<Rightarrow> lit ''run `read <path>` on the file, then include the four-hex tag it returns''
      | CodeMalformedTag \<Rightarrow> lit ''run `read <path>` on the file, then include the four-hex tag it returns''
      | CodeUnknownTag \<Rightarrow> read_again
      | CodeEvictedTag \<Rightarrow> read_again
      | CodeAmbiguousTag \<Rightarrow>
          (case stage of
             StageResolution \<Rightarrow> lit ''use apply_patch or another available non-hashline edit surface; re-reading preserves this colliding four-hex tag''
           | StageRecovery \<Rightarrow> lit ''re-address the current tagged content; the stale span has multiple verbatim landings''
           | _ \<Rightarrow> read_again)
      | CodeStaleTag \<Rightarrow>
          (case stage of
             StageVerification \<Rightarrow> lit ''run `read <path>` over the addressed range because required boundary context changed''
           | StageRecovery \<Rightarrow> lit ''re-address the current tagged content; the stale span no longer occurs verbatim''
           | _ \<Rightarrow> read_again)
      | CodeUnseenLine \<Rightarrow> lit ''re-read the file to mint a fresh tag that includes every addressed row and boundary, then retry the edit''
      | CodeBoundaryIneligible \<Rightarrow> lit ''re-read the file to mint a fresh tag that includes every addressed row and boundary, then retry the edit''
      | CodeUntaggablePath \<Rightarrow> lit ''choose a writable regular text file or use an available non-hashline surface''
      | CodeRegisterOverflow \<Rightarrow> lit ''reduce register contents before retrying the patch''
      | CodeBackupUnavailable \<Rightarrow> lit ''enable backups or use apply_patch for this destructive change''
      | CodeParseError \<Rightarrow> lit ''submit only a hashline patch with tagged section headers and valid operations'')"

definition rejection_new :: "rejection_code \<Rightarrow> rejection_stage \<Rightarrow> rstr \<Rightarrow> hashline_rejection" where
  "rejection_new code stage message =
     \<lparr>hr_code = code, hr_stage = stage, hr_message = message, hr_steering = steering_for code stage\<rparr>"

definition rejection_parse :: "rstr \<Rightarrow> hashline_rejection" where
  "rejection_parse message = rejection_new CodeParseError StageParse message"

definition rejection_missing_tag :: "rstr \<Rightarrow> hashline_rejection" where
  "rejection_missing_tag message = rejection_new CodeMissingTag StageHeader message"

definition rejection_malformed_tag :: "rstr \<Rightarrow> hashline_rejection" where
  "rejection_malformed_tag message = rejection_new CodeMalformedTag StageHeader message"

definition rejection_resolution :: "rejection_code \<Rightarrow> rstr \<Rightarrow> hashline_rejection" where
  "rejection_resolution code message = rejection_new code StageResolution message"

definition rejection_eligibility :: "rejection_code \<Rightarrow> rstr \<Rightarrow> hashline_rejection" where
  "rejection_eligibility code message = rejection_new code StageEligibility message"

definition rejection_stale_verification :: "rstr \<Rightarrow> hashline_rejection" where
  "rejection_stale_verification message = rejection_new CodeStaleTag StageVerification message"

definition rejection_stale_recovery :: "rstr \<Rightarrow> hashline_rejection" where
  "rejection_stale_recovery message = rejection_new CodeStaleTag StageRecovery message"

definition rejection_ambiguous_recovery :: "rstr \<Rightarrow> hashline_rejection" where
  "rejection_ambiguous_recovery message = rejection_new CodeAmbiguousTag StageRecovery message"

definition rejection_register_overflow :: "rstr \<Rightarrow> hashline_rejection" where
  "rejection_register_overflow message = rejection_new CodeRegisterOverflow StageRegister message"

definition rejection_display :: "hashline_rejection \<Rightarrow> rstr" where
  "rejection_display r = code_as_str (hr_code r) @ lit '' at '' @ stage_as_str (hr_stage r) @ lit '': '' @ hr_message r"

section \<open>Raw arguments\<close>

text \<open>A JSON value is known by what \<^verbatim>\<open>as_object\<close> and \<^verbatim>\<open>as_str\<close> say of it.\<close>

record 'v json =
  as_object :: "'v \<Rightarrow> (rstr \<times> 'v) list option"
  as_str :: "'v \<Rightarrow> rstr option"

record hashline_request =
  hq_patch :: rstr

definition validate_raw_arguments :: "'v json \<Rightarrow> 'v \<Rightarrow> hashline_rejection + hashline_request" where
  "validate_raw_arguments js arguments =
     (case as_object js arguments of
        None \<Rightarrow> Inl (rejection_parse (lit ''hashline edit arguments must be an object containing only patch''))
      | Some object \<Rightarrow>
          if length object \<noteq> 1 \<or> map_of object (lit ''patch'') = None
          then Inl (rejection_parse (lit ''hashline edit arguments must contain only the patch field''))
          else (case Option.bind (map_of object (lit ''patch'')) (as_str js) of
                  None \<Rightarrow> Inl (rejection_parse (lit ''patch must be a string''))
                | Some patch \<Rightarrow>
                    if trim patch = [] then Inl (rejection_parse (lit ''patch must not be empty''))
                    else Inr \<lparr>hq_patch = patch\<rparr>))"

section \<open>Patches\<close>

datatype register_ref = Anonymous | Named rstr

datatype line_reference = Absolute nat | EofRelative nat

datatype gap_side = Before | After

datatype address =
  Bof | Line line_reference | Range line_reference line_reference | Gap gap_side line_reference
| Block line_reference | BlockGap gap_side line_reference

datatype put_source = Text "rstr list" | Register register_ref

text \<open>The operations with their fields in source order: address, source or register, patch line.\<close>

datatype operation =
  Put address put_source nat | Cut address "register_ref option" nat | Rem nat | Mv rstr nat

fun op_address :: "operation \<Rightarrow> address option" where
  "op_address (Put a _ _) = Some a"
| "op_address (Cut a _ _) = Some a"
| "op_address (Rem _) = None"
| "op_address (Mv _ _) = None"

text \<open>\<^verbatim>\<open>append_body_line\<close> updates the operation in place and says whether it did.\<close>

fun append_body_line :: "operation \<Rightarrow> rstr \<Rightarrow> operation option" where
  "append_body_line (Put a (Text ls) n) line =
     map_option (\<lambda>content. Put a (Text (ls @ [content])) n) (strip_prefix line (lit ''+''))"
| "append_body_line _ _ = None"

record section_header =
  sh_requested_path :: rstr
  sh_tag :: rstr

record patch_section =
  sx_header :: section_header
  sx_operations :: "operation list"
  sx_line :: nat

definition normalize_tag :: "rstr \<Rightarrow> hashline_rejection + rstr" where
  "normalize_tag t =
     (if str_len t \<noteq> 4 \<or> \<not> list_all is_ascii_hexdigit t
      then Inl (rejection_malformed_tag (lit ''section tags must be exactly four hexadecimal digits''))
      else Inr (to_ascii_uppercase t))"

definition section_header_new :: "rstr \<Rightarrow> rstr \<Rightarrow> hashline_rejection + section_header" where
  "section_header_new requested_path t =
     (if requested_path = []
      then Inl (rejection_missing_tag (lit ''a section header must name a path before its tag''))
      else and_then (normalize_tag t) (\<lambda>t. Inr \<lparr>sh_requested_path = requested_path, sh_tag = t\<rparr>))"

definition is_header_line :: "rstr \<Rightarrow> bool" where
  "is_header_line line \<longleftrightarrow> starts_with line (lit ''['') \<and> ends_with line (lit '']'') \<and> length line \<ge> 2"

definition parse_section_header :: "rstr \<Rightarrow> hashline_rejection + section_header" where
  "parse_section_header line =
     (let trimmed = trim line in
      if \<not> is_header_line trimmed then Inl (rejection_parse (lit ''section headers must use [requested-path#TAG]''))
      else
        (let inner = take (length trimmed - 2) (drop 1 trimmed) in
         case split_once_when (\<lambda>c. c = 35) inner of
           None \<Rightarrow> Inl (rejection_missing_tag (lit ''section header is missing its #TAG handle''))
         | Some (path, t) \<Rightarrow>
             if path = [] then Inl (rejection_missing_tag (lit ''section header must name a path before #TAG''))
             else if 35 \<in> set path \<or> CR \<in> set path \<or> LF \<in> set path
             then Inl (rejection_parse (lit ''section paths cannot contain #, carriage return, or newline''))
             else section_header_new path t))"

definition is_directive :: "rstr \<Rightarrow> bool" where
  "is_directive line \<longleftrightarrow>
     list_ex (\<lambda>keyword. line = keyword
         \<or> (case strip_prefix line keyword of Some (c # _) \<Rightarrow> is_whitespace c | _ \<Rightarrow> False))
       [lit ''PUT'', lit ''CUT'', lit ''REM'', lit ''MV'']"

section \<open>Addresses\<close>

definition parse_positive_usize :: "rstr \<Rightarrow> hashline_rejection + nat" where
  "parse_positive_usize input =
     (case parse_usize input of
        None \<Rightarrow> Inl (rejection_parse (debug_str input @ lit '' is not a valid positive line number''))
      | Some value \<Rightarrow>
          if value = 0
          then Inl (rejection_parse (lit ''line number zero is only valid as the standalone BOF address''))
          else Inr value)"

definition parse_line_reference :: "rstr \<Rightarrow> hashline_rejection + line_reference" where
  "parse_line_reference input0 =
     (let input = trim input0 in
      if input = lit ''$'' then Inr (EofRelative 0)
      else (case strip_prefix input (lit ''$-'') of
              Some offset \<Rightarrow> and_then (parse_positive_usize offset) (\<lambda>n. Inr (EofRelative n))
            | None \<Rightarrow> and_then (parse_positive_usize input) (\<lambda>n. Inr (Absolute n))))"

text \<open>The three range separators, tried in this order.\<close>

fun parse_range :: "rstr list \<Rightarrow> rstr \<Rightarrow> (hashline_rejection + address) option" where
  "parse_range [] input = None"
| "parse_range (separator # separators) input =
     (case split_once_str input separator of
        Some (a, b) \<Rightarrow>
          Some (and_then (parse_line_reference a) (\<lambda>a. and_then (parse_line_reference b) (\<lambda>b. Inr (Range a b))))
      | None \<Rightarrow> parse_range separators input)"

definition parse_address :: "rstr \<Rightarrow> hashline_rejection + address" where
  "parse_address input0 =
     (let input = trim input0 in
      if input = lit ''0'' then Inr Bof
      else
        (case (case strip_prefix input (lit ''<'') of
                 Some line \<Rightarrow> Some (Before, line)
               | None \<Rightarrow> map_option (\<lambda>line. (After, line)) (strip_prefix input (lit ''>''))) of
           Some (side, line) \<Rightarrow>
             (case strip_suffix line (lit ''*'') of
                Some block_line \<Rightarrow> and_then (parse_line_reference block_line) (\<lambda>r. Inr (BlockGap side r))
              | None \<Rightarrow> and_then (parse_line_reference line) (\<lambda>r. Inr (Gap side r)))
         | None \<Rightarrow>
             (case strip_suffix input (lit ''*'') of
                Some line \<Rightarrow> and_then (parse_line_reference line) (\<lambda>r. Inr (Block r))
              | None \<Rightarrow>
                  (case parse_range [lit ''..='', lit ''.='', lit ''..''] input of
                     Some r \<Rightarrow> r
                   | None \<Rightarrow> and_then (parse_line_reference input) (\<lambda>r. Inr (Line r))))))"

section \<open>Operations\<close>

definition parse_register :: "rstr \<Rightarrow> hashline_rejection + register_ref" where
  "parse_register input =
     (case strip_prefix input (lit ''@'') of
        None \<Rightarrow> Inl (rejection_parse (lit ''registers must begin with @''))
      | Some name \<Rightarrow>
          if name = [] \<or> \<not> list_all (\<lambda>c. is_ascii_alphanumeric c \<or> c = 95 \<or> c = 45) name
          then Inl (rejection_parse (lit ''register names may contain only ASCII letters, digits, _, and -''))
          else Inr (Named name))"

definition parse_put :: "rstr \<Rightarrow> nat \<Rightarrow> hashline_rejection + operation" where
  "parse_put remainder line =
     (case strip_suffix remainder (lit '':'') of
        None \<Rightarrow>
          (case split_whitespace remainder of
             [] \<Rightarrow> Inl (rejection_parse (lit ''PUT at line '' @ show_nat line @ lit '' lacks an address''))
           | addr # parts \<Rightarrow>
               and_then
                 (case parts of
                    register # _ \<Rightarrow>
                      if ends_with addr (lit '':'') \<and> \<not> starts_with register (lit ''@'')
                      then Inl (rejection_parse (lit ''invalid text PUT body row at patch line '' @ show_nat line
                        @ lit ''; expected `+<text>` for content or bare `+` for a blank row, but the row carried its body inline; PUT bodies go on the following lines as `+TEXT` rows''))
                      else parse_register register
                  | [] \<Rightarrow> Inr Anonymous)
                 (\<lambda>register.
                    if length parts > 1
                    then Inl (rejection_parse (lit ''PUT at line '' @ show_nat line @ lit '' accepts at most one register source''))
                    else and_then (parse_address addr) (\<lambda>a. Inr (Put a (Register register) line))))
      | Some addr_text \<Rightarrow>
          (let addr = trim addr_text in
           if addr = [] then Inl (rejection_parse (lit ''PUT at line '' @ show_nat line @ lit '' lacks an address before :''))
           else and_then (parse_address addr) (\<lambda>a. Inr (Put a (Text []) line))))"

definition parse_cut :: "rstr \<Rightarrow> nat \<Rightarrow> hashline_rejection + operation" where
  "parse_cut remainder line =
     (case split_whitespace remainder of
        [] \<Rightarrow> Inl (rejection_parse (lit ''CUT at line '' @ show_nat line @ lit '' lacks an address''))
      | addr # parts \<Rightarrow>
          and_then
            (case parts of
               register # _ \<Rightarrow> and_then (parse_register register) (\<lambda>r. Inr (Some r))
             | [] \<Rightarrow> Inr None)
            (\<lambda>register.
               if length parts > 1
               then Inl (rejection_parse (lit ''CUT at line '' @ show_nat line @ lit '' has unexpected trailing input''))
               else and_then (parse_address addr) (\<lambda>a. Inr (Cut a register line))))"

definition parse_rem :: "rstr \<Rightarrow> nat \<Rightarrow> hashline_rejection + operation" where
  "parse_rem remainder line =
     (if trim remainder \<noteq> []
      then Inl (rejection_parse (lit ''REM at line '' @ show_nat line @ lit '' removes the whole section file and accepts no address''))
      else Inr (Rem line))"

definition unquote :: "rstr \<Rightarrow> rstr" where
  "unquote value =
     (case Option.bind (strip_prefix value [34]) (\<lambda>v. strip_suffix v [34]) of
        Some v \<Rightarrow> v
      | None \<Rightarrow>
          (case Option.bind (strip_prefix value [39]) (\<lambda>v. strip_suffix v [39]) of Some v \<Rightarrow> v | None \<Rightarrow> value))"

definition parse_mv :: "rstr \<Rightarrow> nat \<Rightarrow> hashline_rejection + operation" where
  "parse_mv remainder line =
     (let destination = trim remainder in
      if destination = [] \<or> length (split_whitespace destination) \<noteq> 1
      then Inl (rejection_parse (lit ''MV at line '' @ show_nat line @ lit '' requires exactly one destination path''))
      else Inr (Mv (unquote destination) line))"

definition parse_operation :: "rstr \<Rightarrow> nat \<Rightarrow> hashline_rejection + operation" where
  "parse_operation line line_no =
     (let trimmed = trim line in
      if trimmed = lit ''REM'' then parse_rem [] line_no
      else (case split_once_when is_whitespace trimmed of
              None \<Rightarrow> Inl (rejection_parse (lit ''operation at line '' @ show_nat line_no @ lit '' lacks required input''))
            | Some (keyword, remainder0) \<Rightarrow>
                (let remainder = trim remainder0 in
                 if keyword = lit ''PUT'' then parse_put remainder line_no
                 else if keyword = lit ''CUT'' then parse_cut remainder line_no
                 else if keyword = lit ''REM'' then parse_rem remainder line_no
                 else if keyword = lit ''MV'' then parse_mv remainder line_no
                 else Inl (rejection_parse (lit ''unknown operation '' @ debug_str keyword @ lit '' at line '' @ show_nat line_no)))))"


section \<open>The patch parser\<close>

record parse_state =
  ps_sections :: "patch_section list"
  envelope_started :: bool
  envelope_ended :: bool

definition body_error :: "operation \<Rightarrow> nat \<Rightarrow> rstr" where
  "body_error oper line_no =
     (case oper of
        Put _ (Register _) operation_line \<Rightarrow>
          lit ''PUT at line '' @ show_nat operation_line
          @ lit '' copies a register and accepts no body; use `PUT <address>:` followed by `+` rows for text (unexpected content at line ''
          @ show_nat line_no @ lit '')''
      | Put _ (Text _) _ \<Rightarrow>
          lit ''invalid text PUT body row at patch line '' @ show_nat line_no
          @ lit ''; expected `+<text>` for content or bare `+` for a blank row, but the row does not begin with `+`''
      | _ \<Rightarrow>
          lit ''only `PUT <address>:` accepts body rows beginning with `+`; unexpected content at line '' @ show_nat line_no)"

text \<open>One row of the patch; \<open>final\<close> says that no row follows.\<close>

definition parse_row :: "nat \<Rightarrow> rstr \<Rightarrow> bool \<Rightarrow> parse_state \<Rightarrow> hashline_rejection + parse_state" where
  "parse_row line_no raw_line final st =
     (let line = strip_cr raw_line; trimmed = trim line; sections = ps_sections st in
      if raw_line = [] \<and> final then Inr st
      else if trimmed = lit ''*** Begin Patch'' then
        (if envelope_started st \<or> sections \<noteq> []
         then Inl (rejection_parse (lit ''unexpected patch envelope start at line '' @ show_nat line_no))
         else Inr (st\<lparr>envelope_started := True\<rparr>))
      else if trimmed = lit ''*** End Patch'' then
        (if \<not> envelope_started st \<or> envelope_ended st
         then Inl (rejection_parse (lit ''unexpected patch envelope end at line '' @ show_nat line_no))
         else Inr (st\<lparr>envelope_ended := True\<rparr>))
      else if envelope_ended st then
        (if trimmed \<noteq> []
         then Inl (rejection_parse (lit ''content follows the patch envelope at line '' @ show_nat line_no))
         else Inr st)
      else if is_header_line trimmed then
        and_then (parse_section_header trimmed) (\<lambda>header.
          Inr (st\<lparr>ps_sections := sections @ [\<lparr>sx_header = header, sx_operations = [], sx_line = line_no\<rparr>]\<rparr>))
      else if is_directive line then
        (if sections = []
         then Inl (rejection_parse (lit ''operation at line '' @ show_nat line_no @ lit '' appears before a tagged section header''))
         else and_then (parse_operation line line_no) (\<lambda>oper.
           Inr (st\<lparr>ps_sections := butlast sections
             @ [(last sections)\<lparr>sx_operations := sx_operations (last sections) @ [oper]\<rparr>]\<rparr>)))
      else if trimmed = [] \<and> sections = [] then Inr st
      else if sections = [] then Inl (rejection_parse (lit ''expected a tagged section header at line '' @ show_nat line_no))
      else if sx_operations (last sections) = []
      then Inl (rejection_parse (lit ''expected an operation after section header at line '' @ show_nat (sx_line (last sections))))
      else
        (let operations = sx_operations (last sections) in
         case append_body_line (last operations) line of
           Some oper \<Rightarrow>
             Inr (st\<lparr>ps_sections := butlast sections @ [(last sections)\<lparr>sx_operations := butlast operations @ [oper]\<rparr>]\<rparr>)
         | None \<Rightarrow> Inl (rejection_parse (body_error (last operations) line_no))))"

fun parse_rows :: "nat \<Rightarrow> rstr list \<Rightarrow> parse_state \<Rightarrow> hashline_rejection + parse_state" where
  "parse_rows n [] st = Inr st"
| "parse_rows n (row # rows) st = and_then (parse_row (n + 1) row (rows = []) st) (parse_rows (n + 1) rows)"

fun is_rem :: "operation \<Rightarrow> bool" where
  "is_rem (Rem _) = True"
| "is_rem _ = False"

fun is_mv :: "operation \<Rightarrow> bool" where
  "is_mv (Mv _ _) = True"
| "is_mv _ = False"

definition validate_section_composition :: "patch_section \<Rightarrow> hashline_rejection + unit" where
  "validate_section_composition s =
     (let operations = sx_operations s;
          rem_count = length (filter is_rem operations);
          mv_positions = filter (\<lambda>i. is_mv (operations ! i)) [0..<length operations]
      in if rem_count > 0 \<and> length operations \<noteq> 1
         then Inl (rejection_parse (lit ''REM at section line '' @ show_nat (sx_line s) @ lit '' cannot be combined with line operations''))
         else if length mv_positions > 1
           \<or> (case mv_positions of i # _ \<Rightarrow> i + 1 \<noteq> length operations | [] \<Rightarrow> False)
         then Inl (rejection_parse (lit ''MV at section line '' @ show_nat (sx_line s) @ lit '' must occur once and after all line operations''))
         else Inr ())"

fun validate_bodies :: "operation list \<Rightarrow> hashline_rejection + unit" where
  "validate_bodies [] = Inr ()"
| "validate_bodies (Put _ (Text []) line # _) =
     Inl (rejection_parse (lit ''PUT at patch line '' @ show_nat line
       @ lit '' requires one or more body rows; expected `+<text>` for content or bare `+` for a blank row''))"
| "validate_bodies (_ # operations) = validate_bodies operations"

fun validate_sections :: "patch_section list \<Rightarrow> hashline_rejection + unit" where
  "validate_sections [] = Inr ()"
| "validate_sections (s # ss) =
     and_then (validate_section_composition s) (\<lambda>_.
       and_then (validate_bodies (sx_operations s)) (\<lambda>_. validate_sections ss))"

definition parse_hashline_patch :: "rstr \<Rightarrow> hashline_rejection + patch_section list" where
  "parse_hashline_patch patch =
     (if trim patch = [] then Inl (rejection_parse (lit ''patch must not be empty''))
      else
        and_then (parse_rows 0 (split_on LF patch) \<lparr>ps_sections = [], envelope_started = False, envelope_ended = False\<rparr>)
          (\<lambda>st.
            if envelope_started st \<and> \<not> envelope_ended st
            then Inl (rejection_parse (lit ''patch envelope is missing *** End Patch''))
            else if ps_sections st = []
            then Inl (rejection_parse (lit ''patch must contain at least one tagged section header''))
            else (case List.find (\<lambda>s. sx_operations s = []) (ps_sections st) of
                    Some s \<Rightarrow> Inl (rejection_parse (lit ''section at line '' @ show_nat (sx_line s) @ lit '' contains no operation''))
                  | None \<Rightarrow> and_then (validate_sections (ps_sections st)) (\<lambda>_. Inr (ps_sections st)))))"

section \<open>Resolution and eligibility\<close>

record line_span =
  sp_start :: nat
  sp_end :: nat

definition line_span_new :: "nat \<Rightarrow> nat \<Rightarrow> line_span option" where
  "line_span_new from to = (if from > 0 \<and> from \<le> to then Some \<lparr>sp_start = from, sp_end = to\<rparr> else None)"

definition span_lines :: "line_span \<Rightarrow> nat list" where
  "span_lines s = [sp_start s..<Suc (sp_end s)]"

record resolved_gap =
  rg_before :: "nat option"
  rg_after :: "nat option"

definition gap_anchors :: "resolved_gap \<Rightarrow> nat list" where
  "gap_anchors g = (case rg_before g of Some n \<Rightarrow> [n] | None \<Rightarrow> []) @ (case rg_after g of Some n \<Rightarrow> [n] | None \<Rightarrow> [])"

datatype resolved_address =
  WholeFile | AtSpan line_span | AtGap resolved_gap | BlockAnchor nat | BlockGapAnchor gap_side nat

fun addressed_span :: "resolved_address \<Rightarrow> line_span option" where
  "addressed_span (AtSpan s) = Some s"
| "addressed_span _ = None"

fun required_anchors :: "resolved_address \<Rightarrow> nat list" where
  "required_anchors (AtGap g) = gap_anchors g"
| "required_anchors _ = []"

definition outside_boundary :: hashline_rejection where
  "outside_boundary = rejection_eligibility CodeBoundaryIneligible (lit ''address falls outside the retained snapshot boundary'')"

fun resolve_line_reference :: "line_reference \<Rightarrow> nat \<Rightarrow> hashline_rejection + nat" where
  "resolve_line_reference (Absolute line) total_rows = (if line \<le> total_rows then Inr line else Inl outside_boundary)"
| "resolve_line_reference (EofRelative offset) total_rows = (if offset < total_rows then Inr (total_rows - offset) else Inl outside_boundary)"

text \<open>\<^verbatim>\<open>usize::checked_sub\<close>.\<close>

definition checked_sub :: "nat \<Rightarrow> nat \<Rightarrow> nat option" where
  "checked_sub a b = (if b \<le> a then Some (a - b) else None)"

fun resolve_address :: "address \<Rightarrow> snapshot \<Rightarrow> hashline_rejection + resolved_address" where
  "resolve_address Bof s = Inr (AtGap \<lparr>rg_before = None, rg_after = (if total_lines s > 0 then Some 1 else None)\<rparr>)"
| "resolve_address (Line r) s =
     and_then (resolve_line_reference r (total_lines s)) (\<lambda>n. Inr (AtSpan \<lparr>sp_start = n, sp_end = n\<rparr>))"
| "resolve_address (Range a b) s =
     and_then (resolve_line_reference a (total_lines s)) (\<lambda>from.
       and_then (resolve_line_reference b (total_lines s)) (\<lambda>to.
         case line_span_new from to of
           None \<Rightarrow> Inl (rejection_eligibility CodeBoundaryIneligible (lit ''range start occurs after range end in the retained snapshot''))
         | Some sp \<Rightarrow> Inr (AtSpan sp)))"
| "resolve_address (Gap side r) s =
     and_then (resolve_line_reference r (total_lines s)) (\<lambda>n.
       Inr (AtGap (case side of
         Before \<Rightarrow> \<lparr>rg_before = checked_sub n 1, rg_after = Some n\<rparr>
       | After \<Rightarrow> \<lparr>rg_before = Some n, rg_after = (if n < total_lines s then Some (n + 1) else None)\<rparr>)))"
| "resolve_address (Block r) s = and_then (resolve_line_reference r (total_lines s)) (\<lambda>n. Inr (BlockAnchor n))"
| "resolve_address (BlockGap side r) s = and_then (resolve_line_reference r (total_lines s)) (\<lambda>n. Inr (BlockGapAnchor side n))"

definition block_anchor :: "resolved_address \<Rightarrow> (gap_side option \<times> nat) option" where
  "block_anchor r = (case r of BlockAnchor a \<Rightarrow> Some (None, a) | BlockGapAnchor side a \<Rightarrow> Some (Some side, a) | _ \<Rightarrow> None)"

definition expand_block :: "resolved_address \<Rightarrow> line_span \<Rightarrow> snapshot \<Rightarrow> hashline_rejection + resolved_address" where
  "expand_block resolved sp s =
     (case block_anchor resolved of
        None \<Rightarrow> Inl (rejection_parse (lit ''only a parsed block address can be expanded as a block''))
      | Some (side, anchor) \<Rightarrow>
          if \<not> list_ex (\<lambda>line. line = anchor) (span_lines sp) \<or> sp_end sp > total_lines s
          then Inl (rejection_eligibility CodeBoundaryIneligible (lit ''block resolver returned a span outside the retained snapshot''))
          else (case side of
                  None \<Rightarrow> Inr (AtSpan sp)
                | Some Before \<Rightarrow> Inr (AtGap \<lparr>rg_before = checked_sub (sp_start sp) 1, rg_after = Some (sp_start sp)\<rparr>)
                | Some After \<Rightarrow> Inr (AtGap \<lparr>rg_before = Some (sp_end sp),
                    rg_after = (if sp_end sp < total_lines s then Some (sp_end sp + 1) else None)\<rparr>)))"

definition unseen :: "rstr \<Rightarrow> hashline_rejection" where
  "unseen message = rejection_eligibility CodeUnseenLine message"

definition not_retained :: "string \<Rightarrow> nat \<Rightarrow> rstr" where
  "not_retained what line = lit what @ show_nat line @ lit '' was not retained by the tagged read''"

fun check_eligibility :: "snapshot \<Rightarrow> resolved_address \<Rightarrow> hashline_rejection + unit" where
  "check_eligibility s WholeFile =
     (if length (records s) \<noteq> total_lines s \<or> list_ex (\<lambda>line. \<not> is_seen s line) [1..<Suc (total_lines s)]
      then Inl (unseen (lit ''REM and MV require a tagged read that retained the whole source file''))
      else Inr ())"
| "check_eligibility s (AtSpan sp) =
     (case List.find (\<lambda>line. \<not> is_seen s line) (span_lines sp) of
        Some line \<Rightarrow> Inl (unseen (not_retained ''line '' line))
      | None \<Rightarrow> Inr ())"
| "check_eligibility s (BlockAnchor line) =
     (if \<not> is_seen s line then Inl (unseen (not_retained ''block anchor line '' line)) else Inr ())"
| "check_eligibility s (BlockGapAnchor _ line) =
     (if \<not> is_seen s line then Inl (unseen (not_retained ''block anchor line '' line)) else Inr ())"
| "check_eligibility s (AtGap g) =
     (if rg_before g = None \<and> rg_after g = None then
        (if \<not> empty_file (boundary s)
         then Inl (rejection_eligibility CodeBoundaryIneligible (lit ''empty-file gap has no retained empty-file boundary evidence''))
         else Inr ())
      else (case List.find (\<lambda>line. \<not> is_seen s line) (gap_anchors g) of
              Some line \<Rightarrow> Inl (unseen (not_retained ''gap boundary line '' line))
            | None \<Rightarrow>
                if rg_before g = None \<and> \<not> bof_observed (boundary s)
                then Inl (rejection_eligibility CodeBoundaryIneligible (lit ''BOF boundary evidence was not retained''))
                else if rg_after g = None \<and> \<not> eof_observed (boundary s)
                then Inl (rejection_eligibility CodeBoundaryIneligible (lit ''EOF boundary evidence was not retained''))
                else Inr ()))"

section \<open>Sections against the store\<close>

record resolved_patch_section =
  rp_section_index :: nat
  rp_canonical_path :: rstr
  rp_snapshot :: snapshot
  rp_operations :: "(nat \<times> resolved_address) list"

definition lookup_rejection :: "snapshot_lookup_error \<Rightarrow> hashline_rejection" where
  "lookup_rejection e =
     (case e of
        UnknownTag \<Rightarrow> rejection_resolution CodeUnknownTag (lit ''the tagged snapshot is not resident for this path'')
      | EvictedTag \<Rightarrow> rejection_resolution CodeEvictedTag (lit ''the tagged snapshot was evicted from this session'')
      | AmbiguousTag \<Rightarrow> rejection_resolution CodeAmbiguousTag (lit ''the four-hex tag collides across different normalized file content''))"

definition resolve_snapshot ::
    "store_env \<Rightarrow> snapshot_store \<Rightarrow> rstr \<Rightarrow> rstr \<Rightarrow> (hashline_rejection + snapshot) \<times> snapshot_store" where
  "resolve_snapshot env store path t0 =
     (case normalize_tag t0 of
        Inl e \<Rightarrow> (Inl e, store)
      | Inr t \<Rightarrow>
          (case lookup env store path t of
             (Inl e, store) \<Rightarrow> (Inl (lookup_rejection e), store)
           | (Inr s, store) \<Rightarrow> (Inr s, store)))"

fun resolve_operations :: "snapshot \<Rightarrow> nat \<Rightarrow> operation list \<Rightarrow> hashline_rejection + (nat \<times> resolved_address) list" where
  "resolve_operations s i [] = Inr []"
| "resolve_operations s i (oper # operations) =
     and_then (case op_address oper of Some a \<Rightarrow> resolve_address a s | None \<Rightarrow> Inr WholeFile) (\<lambda>r.
       and_then (check_eligibility s r) (\<lambda>_.
         and_then (resolve_operations s (i + 1) operations) (\<lambda>rs. Inr ((i, r) # rs))))"

definition different_evidence :: hashline_rejection where
  "different_evidence = rejection_resolution CodeAmbiguousTag
     (lit ''sections for one canonical path selected different retained verification evidence'')"

text \<open>\<^verbatim>\<open>resolve_patch_sections_with_error\<close>: \<open>from_rejection\<close> is the conversion \<^verbatim>\<open>E::from\<close>.\<close>

fun resolve_sections ::
    "store_env \<Rightarrow> (rstr \<Rightarrow> 'e + rstr) \<Rightarrow> (hashline_rejection \<Rightarrow> 'e) \<Rightarrow> (rstr, snapshot) btree_map \<Rightarrow> nat
      \<Rightarrow> patch_section list \<Rightarrow> snapshot_store \<Rightarrow> ('e + resolved_patch_section list) \<times> snapshot_store" where
  "resolve_sections env canonicalize from_rejection views i [] store = (Inr [], store)"
| "resolve_sections env canonicalize from_rejection views i (sect # sections) store =
     (case canonicalize (sh_requested_path (sx_header sect)) of
        Inl e \<Rightarrow> (Inl e, store)
      | Inr path \<Rightarrow>
          (case resolve_snapshot env store path (sh_tag (sx_header sect)) of
             (Inl e, store) \<Rightarrow> (Inl (from_rejection e), store)
           | (Inr s, store) \<Rightarrow>
               if (case bt_get views path of Some existing \<Rightarrow> \<not> equivalent_snapshots existing s | None \<Rightarrow> False)
               then (Inl (from_rejection different_evidence), store)
               else
                 (let views = (case bt_get views path of Some _ \<Rightarrow> views | None \<Rightarrow> bt_insert path s views) in
                  case resolve_operations s 0 (sx_operations sect) of
                    Inl e \<Rightarrow> (Inl (from_rejection e), store)
                  | Inr operations \<Rightarrow>
                      (case resolve_sections env canonicalize from_rejection views (i + 1) sections store of
                         (Inl e, store) \<Rightarrow> (Inl e, store)
                       | (Inr rs, store) \<Rightarrow>
                           (Inr (\<lparr>rp_section_index = i, rp_canonical_path = path, rp_snapshot = s,
                                  rp_operations = operations\<rparr> # rs), store)))))"

definition resolve_patch_sections_with_error where
  "resolve_patch_sections_with_error env store patch canonicalize from_rejection =
     resolve_sections env canonicalize from_rejection bt_empty 0 patch store"

definition resolve_patch_sections where
  "resolve_patch_sections env store patch canonicalize =
     resolve_patch_sections_with_error env store patch canonicalize id"

section \<open>Baselines and exact verification\<close>

record baseline =
  bl_bytes :: "byte list"
  bl_snapshot :: snapshot

definition baseline_from_bytes :: "byte list \<Rightarrow> baseline option" where
  "baseline_from_bytes bytes = map_option (\<lambda>s. \<lparr>bl_bytes = bytes, bl_snapshot = s\<rparr>) (scan_bytes bytes)"

definition baseline_raw_record :: "baseline \<Rightarrow> nat \<Rightarrow> raw_line_record option" where
  "baseline_raw_record b line = raw_record (bl_snapshot b) line"

text \<open>The cache keeps the first bytes loaded for a path.\<close>

definition load_once :: "(rstr, baseline) btree_map \<Rightarrow> rstr \<Rightarrow> byte list \<Rightarrow> (baseline \<times> (rstr, baseline) btree_map) option" where
  "load_once cache path bytes =
     (case bt_get cache path of
        Some b \<Rightarrow> Some (b, cache)
      | None \<Rightarrow> map_option (\<lambda>b. (b, bt_insert path b cache)) (baseline_from_bytes bytes))"

record recovery_plan =
  rc_old_span :: line_span
  rc_expected_records :: "raw_line_record list"

datatype verification_outcome =
  Exact | RecoveryRequired recovery_plan | Rejected hashline_rejection | BlockNeedsResolution nat

fun verify_resolved :: "snapshot \<Rightarrow> baseline \<Rightarrow> resolved_address \<Rightarrow> verification_outcome" where
  "verify_resolved s b WholeFile =
     (if total_lines s \<noteq> total_lines (bl_snapshot b) \<or> records s \<noteq> records (bl_snapshot b)
      then Rejected (rejection_stale_verification (lit ''the whole-file source changed since the tagged read''))
      else Exact)"
| "verify_resolved s b (BlockAnchor anchor) = BlockNeedsResolution anchor"
| "verify_resolved s b (BlockGapAnchor _ anchor) = BlockNeedsResolution anchor"
| "verify_resolved s b (AtGap g) =
     (case List.find (\<lambda>line. raw_record s line \<noteq> baseline_raw_record b line) (gap_anchors g) of
        Some line \<Rightarrow> Rejected (rejection_stale_verification
          (lit ''required gap anchor line '' @ show_nat line @ lit '' changed since the tagged read''))
      | None \<Rightarrow> Exact)"
| "verify_resolved s b (AtSpan sp) =
     (let expected = concat (map (\<lambda>line. case raw_record s line of Some r \<Rightarrow> [r] | None \<Rightarrow> []) (span_lines sp));
          changed = list_ex (\<lambda>line. raw_record s line \<noteq> baseline_raw_record b line) (span_lines sp)
      in if changed then RecoveryRequired \<lparr>rc_old_span = sp, rc_expected_records = expected\<rparr> else Exact)"

definition verify_exact :: "snapshot \<Rightarrow> baseline \<Rightarrow> resolved_address \<Rightarrow> verification_outcome" where
  "verify_exact s b a = (case check_eligibility s a of Inl e \<Rightarrow> Rejected e | Inr _ \<Rightarrow> verify_resolved s b a)"

section \<open>Printing and parsing addresses\<close>

fun show_reference :: "line_reference \<Rightarrow> rstr" where
  "show_reference (Absolute n) = show_nat n"
| "show_reference (EofRelative n) = (if n = 0 then lit ''$'' else lit ''$-'' @ show_nat n)"

fun reference_ok :: "line_reference \<Rightarrow> bool" where
  "reference_ok (Absolute n) \<longleftrightarrow> 0 < n \<and> n \<le> usize_max"
| "reference_ok (EofRelative n) \<longleftrightarrow> n \<le> usize_max"

fun show_side :: "gap_side \<Rightarrow> rstr" where
  "show_side Before = lit ''<''"
| "show_side After = lit ''>''"

fun show_address :: "rstr \<Rightarrow> address \<Rightarrow> rstr" where
  "show_address sep Bof = lit ''0''"
| "show_address sep (Line r) = show_reference r"
| "show_address sep (Range a b) = show_reference a @ sep @ show_reference b"
| "show_address sep (Gap side r) = show_side side @ show_reference r"
| "show_address sep (Block r) = show_reference r @ lit ''*''"
| "show_address sep (BlockGap side r) = show_side side @ show_reference r @ lit ''*''"

fun address_ok :: "address \<Rightarrow> bool" where
  "address_ok Bof \<longleftrightarrow> True"
| "address_ok (Line r) \<longleftrightarrow> reference_ok r"
| "address_ok (Range a b) \<longleftrightarrow> reference_ok a \<and> reference_ok b"
| "address_ok (Gap _ r) \<longleftrightarrow> reference_ok r"
| "address_ok (Block r) \<longleftrightarrow> reference_ok r"
| "address_ok (BlockGap _ r) \<longleftrightarrow> reference_ok r"

definition range_separators :: "rstr list" where
  "range_separators = [lit ''..='', lit ''.='', lit ''..'']"

text \<open>A reference is made of digits, \<^verbatim>\<open>$\<close> and \<^verbatim>\<open>-\<close>.\<close>

definition reference_char :: "uchar \<Rightarrow> bool" where
  "reference_char c \<longleftrightarrow> is_ascii_digit c \<or> c = 36 \<or> c = 45"

lemma digits_ok: "list_all is_ascii_digit (show_nat n)" "show_nat n \<noteq> []"
  using show_nat_digits by auto

lemma show_reference_chars: "list_all reference_char (show_reference r)" "show_reference r \<noteq> []"
  using digits_ok by (cases r; auto simp: reference_char_def list_all_iff lit_def)+

lemma reference_char_ws: "reference_char c \<Longrightarrow> \<not> is_whitespace c"
  by (auto simp: reference_char_def is_ascii_digit_def is_whitespace_def)

lemma trim_no_ws: "list_all (\<lambda>c. \<not> is_whitespace c) s \<Longrightarrow> trim s = s"
  by (cases "s = []") (auto simp: list_all_iff intro!: trim_id)

lemma trim_reference: "trim (show_reference r) = show_reference r"
  using show_reference_chars(1) [of r] by (intro trim_no_ws) (auto simp: list_all_iff reference_char_ws)

lemma digit_hd: "s \<noteq> [] \<Longrightarrow> list_all is_ascii_digit s \<Longrightarrow> hd s \<noteq> 36"
  by (cases s) (auto simp: is_ascii_digit_def)

lemma parse_show_reference: "reference_ok r \<Longrightarrow> parse_line_reference (show_reference r) = Inr r"
proof (cases r)
  case (Absolute n)
  assume ok: "reference_ok r"
  have "show_nat n \<noteq> lit ''$''" using digit_hd [OF digits_ok(2,1), of n] by (auto simp: lit_def)
  moreover have "strip_prefix (show_nat n) (lit ''$-'') = None"
    using digit_hd [OF digits_ok(2,1), of n] digits_ok(2) [of n]
    by (cases "show_nat n") (auto simp: strip_prefix_def starts_with_def lit_def)
  ultimately show ?thesis using ok Absolute trim_reference [of r]
    by (simp add: parse_line_reference_def Let_def parse_positive_usize_def parse_usize_show_nat and_then_def)
next
  case (EofRelative n)
  assume ok: "reference_ok r"
  show ?thesis
  proof (cases "n = 0")
    case True
    then show ?thesis using EofRelative trim_reference [of r] by (simp add: parse_line_reference_def Let_def)
  next
    case False
    have "strip_prefix (lit ''$-'' @ show_nat n) (lit ''$-'') = Some (show_nat n)" by (simp add: strip_prefix_Some)
    moreover have "lit ''$-'' @ show_nat n \<noteq> lit ''$''" using digits_ok(2) [of n] by (auto simp: lit_def)
    ultimately show ?thesis using False ok EofRelative trim_reference [of r]
      by (simp add: parse_line_reference_def Let_def parse_positive_usize_def parse_usize_show_nat and_then_def)
  qed
qed

lemma split_once_str_at:
  assumes "list_all (\<lambda>c. c \<noteq> d) a" "p = d # q"
  shows "split_once_str (a @ p @ b) p = Some (a, b)"
  using assms(1)
proof (induction a)
  case Nil
  then show ?case using assms(2) by (simp add: starts_with_prefix)
next
  case (Cons c a)
  then show ?case using assms(2) by (auto simp: starts_with_prefix)
qed

lemma split_once_str_Some: "split_once_str s p = Some (a, b) \<Longrightarrow> s = a @ p @ b"
proof (induction s arbitrary: a)
  case (Cons c s)
  then show ?case by (auto simp: starts_with_prefix prefix_def split: if_splits)
qed (auto split: if_splits)

lemma parse_range_references:
  assumes "sep \<in> set range_separators" "reference_ok a" "reference_ok b"
  shows "parse_range range_separators (show_reference a @ sep @ show_reference b) = Some (Inr (Range a b))"
proof -
  let ?in = "show_reference a @ sep @ show_reference b"
  have chars: "c \<noteq> 46" "c \<noteq> 61" if "c \<in> set (show_reference a) \<union> set (show_reference b)" for c
    using that show_reference_chars(1) [of a] show_reference_chars(1) [of b]
    by (auto simp: list_all_iff reference_char_def is_ascii_digit_def)
  then have no: "list_all (\<lambda>c. c \<noteq> 46) (show_reference a)"
    "length (filter (\<lambda>c. c = 46) ?in) = length (filter (\<lambda>c. c = 46) sep)"
    by (auto simp: list_all_iff filter_empty_conv)
  have hit: "split_once_str ?in sep = Some (show_reference a, show_reference b)"
    using no(1) assms(1) by (intro split_once_str_at [of 46 _ _ "tl sep"]) (auto simp: range_separators_def lit_def)
  have miss: "split_once_str ?in q = None"
    if q: "length (filter (\<lambda>c. c = 46) sep) < length (filter (\<lambda>c. c = 46) q) \<or> (61 \<in> set q \<and> 61 \<notin> set sep)" for q
  proof (rule ccontr)
    assume "split_once_str ?in q \<noteq> None"
    then obtain x y where e: "?in = x @ q @ y" using split_once_str_Some by fastforce
    have "length (filter (\<lambda>c. c = 46) q) \<le> length (filter (\<lambda>c. c = 46) ?in)" unfolding e by simp
    moreover have "61 \<in> set q \<Longrightarrow> 61 \<in> set sep" using arg_cong [OF e, of set] chars(2) by auto
    ultimately show False using q no(2) by auto
  qed
  have ok: "and_then (parse_line_reference (show_reference a)) (\<lambda>a. and_then (parse_line_reference (show_reference b)) (\<lambda>b. Inr (Range a b)))
      = Inr (Range a b)"
    using assms(2,3) by (simp add: parse_show_reference and_then_def)
  show ?thesis
    using assms(1) hit ok miss [of "lit ''..=''"] miss [of "lit ''.=''"]
    by (auto simp: range_separators_def lit_def)
qed

lemma parse_range_none: "list_all (\<lambda>c. c \<noteq> 46) s \<Longrightarrow> parse_range range_separators s = None"
proof -
  assume "list_all (\<lambda>c. c \<noteq> 46) s"
  then have "split_once_str s p = None" if "46 \<in> set p" for p
    using that split_once_str_Some [of s p] by (cases "split_once_str s p") (auto simp: list_all_iff)
  then show ?thesis by (simp add: range_separators_def lit_def)
qed

text \<open>No form of address is mistaken for an earlier one.\<close>

lemma strip_prefix_hd: "s \<noteq> [] \<Longrightarrow> hd s \<noteq> c \<Longrightarrow> strip_prefix s [c] = None"
  by (cases s) (auto simp: strip_prefix_def starts_with_def)

lemma strip_suffix_last: "s \<noteq> [] \<Longrightarrow> last s \<noteq> c \<Longrightarrow> strip_suffix s [c] = None"
  by (cases s rule: rev_cases) (auto simp: strip_suffix_def ends_with_suffix)

lemma reference_ends:
  "hd (show_reference r @ s) \<noteq> 60" "hd (show_reference r @ s) \<noteq> 62" "last (s @ show_reference r) \<noteq> 42"
proof -
  have "reference_char (hd (show_reference r))" "reference_char (last (show_reference r))"
    using show_reference_chars [of r] by (auto simp: list_all_iff)
  then show "hd (show_reference r @ s) \<noteq> 60" "hd (show_reference r @ s) \<noteq> 62" "last (s @ show_reference r) \<noteq> 42"
    using show_reference_chars(2) [of r] by (auto simp: reference_char_def is_ascii_digit_def)
qed

lemma reference_not_zero: "reference_ok r \<Longrightarrow> show_reference r \<noteq> lit ''0''"
proof
  assume "reference_ok r" "show_reference r = lit ''0''"
  then have "parse_line_reference (lit ''0'') = Inr r" using parse_show_reference by metis
  then show False by code_simp
qed


lemma trim_address:
  assumes "sep \<in> set range_separators"
  shows "trim (show_address sep a) = show_address sep a"
proof (rule trim_no_ws)
  have sep: "list_all (\<lambda>c. \<not> is_whitespace c) sep"
    using assms by (auto simp: range_separators_def lit_def is_whitespace_def)
  have "list_all (\<lambda>c. \<not> is_whitespace c) (show_reference r)" for r
    using show_reference_chars(1) [of r] by (auto simp: list_all_iff reference_char_ws)
  moreover have "list_all (\<lambda>c. \<not> is_whitespace c) (show_side side)" for side
    by (cases side) (simp_all add: lit_def is_whitespace_def)
  ultimately show "list_all (\<lambda>c. \<not> is_whitespace c) (show_address sep a)"
    using sep by (cases a) (auto simp: lit_def is_whitespace_def)
qed

lemma parse_gap_address:
  "reference_ok r \<Longrightarrow> parse_address (show_side side @ show_reference r) = Inr (Gap side r)"
  "reference_ok r \<Longrightarrow> parse_address (show_side side @ show_reference r @ lit ''*'') = Inr (BlockGap side r)"
proof -
  assume ok: "reference_ok r"
  have t: "trim (show_side side @ show_reference r) = show_side side @ show_reference r"
      "trim (show_side side @ show_reference r @ lit ''*'') = show_side side @ show_reference r @ lit ''*''"
    using trim_address [of "lit ''..''" "Gap side r"] trim_address [of "lit ''..''" "BlockGap side r"]
    by (simp_all add: range_separators_def)
  have s: "strip_suffix (show_reference r) (lit ''*'') = None" "strip_suffix (show_reference r @ lit ''*'') (lit ''*'') = Some (show_reference r)"
    using strip_suffix_last [OF show_reference_chars(2) [of r], of 42] reference_ends(3) [of "[]" r]
    by (simp_all add: lit_def strip_suffix_Some)
  have z: "show_side side @ x \<noteq> lit ''0''" for x by (cases side) (simp_all add: lit_def)
  have p: "(case strip_prefix (show_side side @ x) (lit ''<'') of Some line \<Rightarrow> Some (Before, line)
      | None \<Rightarrow> map_option (\<lambda>line. (After, line)) (strip_prefix (show_side side @ x) (lit ''>''))) = Some (side, x)" for x
    by (cases side) (simp_all add: strip_prefix_def starts_with_def lit_def)
  show "parse_address (show_side side @ show_reference r) = Inr (Gap side r)"
    "parse_address (show_side side @ show_reference r @ lit ''*'') = Inr (BlockGap side r)"
    unfolding parse_address_def Let_def t p using s z ok by (simp_all add: parse_show_reference and_then_def)
qed

lemma parse_plain_address:
  assumes "x \<noteq> []" "hd x \<noteq> 60" "hd x \<noteq> 62" "x \<noteq> lit ''0''" "trim x = x"
  shows "parse_address x = (case strip_suffix x (lit ''*'') of
     Some line \<Rightarrow> and_then (parse_line_reference line) (\<lambda>r. Inr (Block r))
   | None \<Rightarrow> (case parse_range range_separators x of
       Some r \<Rightarrow> r | None \<Rightarrow> and_then (parse_line_reference x) (\<lambda>r. Inr (Line r))))"
  unfolding parse_address_def Let_def range_separators_def assms(5)
  using strip_prefix_hd [OF assms(1,2)] strip_prefix_hd [OF assms(1,3)] assms(4) by (simp add: lit_def)

lemma parse_show_address:
  assumes "address_ok a" "sep \<in> set range_separators"
  shows "parse_address (show_address sep a) = Inr a"
proof (cases a)
  case Bof
  then show ?thesis by simp code_simp
next
  case (Line r)
  have "list_all (\<lambda>c. c \<noteq> 46) (show_reference r)"
    using show_reference_chars(1) [of r] by (auto simp: list_all_iff reference_char_def is_ascii_digit_def)
  moreover have "strip_suffix (show_reference r) (lit ''*'') = None"
    using strip_suffix_last [OF show_reference_chars(2) [of r], of 42] reference_ends(3) [of "[]" r] by (simp add: lit_def)
  ultimately show ?thesis
    using assms(1) Line show_reference_chars(2) [of r] reference_ends(1,2) [of r "[]"] trim_reference [of r]
    by (simp add: parse_plain_address reference_not_zero parse_range_none parse_show_reference and_then_def)
next
  case (Range r r')
  let ?x = "show_reference r @ sep @ show_reference r'"
  have "?x \<noteq> []" "hd ?x \<noteq> 60" "hd ?x \<noteq> 62" "trim ?x = ?x" "strip_suffix ?x (lit ''*'') = None"
    using show_reference_chars(2) [of r] show_reference_chars(2) [of r'] reference_ends(1,2) [of r "sep @ show_reference r'"]
      reference_ends(3) [of "show_reference r @ sep" r'] strip_suffix_last [of ?x 42] trim_address [OF assms(2), of a] Range
    by (simp_all add: lit_def)
  moreover have "?x \<noteq> lit ''0''"
    using assms(2) show_reference_chars(2) [of r] by (cases "show_reference r") (auto simp: range_separators_def lit_def)
  ultimately show ?thesis using parse_range_references [OF assms(2)] assms(1) Range by (simp add: parse_plain_address)
next
  case (Block r)
  let ?x = "show_reference r @ lit ''*''"
  have "?x \<noteq> []" "hd ?x \<noteq> 60" "hd ?x \<noteq> 62" "trim ?x = ?x" "strip_suffix ?x (lit ''*'') = Some (show_reference r)"
    using show_reference_chars(2) [of r] reference_ends(1,2) [of r "lit ''*''"] trim_address [OF assms(2), of a] Block
    by (simp_all add: strip_suffix_Some)
  moreover have "?x \<noteq> lit ''0''" by (simp add: lit_def)
  ultimately show ?thesis using assms(1) Block by (simp add: parse_plain_address parse_show_reference and_then_def)
qed (use assms(1) parse_gap_address in simp_all)

section \<open>Printing and parsing patches\<close>

definition address_text :: "address \<Rightarrow> rstr" where
  "address_text a = show_address (lit ''.='') a"

fun op_rows :: "operation \<Rightarrow> rstr list" where
  "op_rows (Put a (Text ls) _) = (lit ''PUT '' @ address_text a @ lit '':'') # map (Cons 43) ls"
| "op_rows (Put a (Register (Named r)) _) = [lit ''PUT '' @ address_text a @ lit '' @'' @ r]"
| "op_rows (Put a (Register Anonymous) _) = [lit ''PUT '' @ address_text a]"
| "op_rows (Cut a (Some (Named r)) _) = [lit ''CUT '' @ address_text a @ lit '' @'' @ r]"
| "op_rows (Cut a _ _) = [lit ''CUT '' @ address_text a]"
| "op_rows (Rem _) = [lit ''REM'']"
| "op_rows (Mv d _) = [lit ''MV '' @ d]"

definition section_rows :: "patch_section \<Rightarrow> rstr list" where
  "section_rows s = (lit ''['' @ sh_requested_path (sx_header s) @ lit ''#'' @ sh_tag (sx_header s) @ lit '']'')
     # concat (map op_rows (sx_operations s))"

definition patch_text :: "patch_section list \<Rightarrow> rstr" where
  "patch_text ss = join [LF] (concat (map section_rows ss))"

text \<open>The rows an operation and a section start on.\<close>

fun set_line :: "nat \<Rightarrow> operation \<Rightarrow> operation" where
  "set_line n (Put a src _) = Put a src n"
| "set_line n (Cut a r _) = Cut a r n"
| "set_line n (Rem _) = Rem n"
| "set_line n (Mv d _) = Mv d n"

fun number_ops :: "nat \<Rightarrow> operation list \<Rightarrow> operation list" where
  "number_ops n [] = []"
| "number_ops n (oper # opers) = set_line n oper # number_ops (n + length (op_rows oper)) opers"

fun number_sections :: "nat \<Rightarrow> patch_section list \<Rightarrow> patch_section list" where
  "number_sections n [] = []"
| "number_sections n (s # ss) =
     s\<lparr>sx_operations := number_ops (n + 1) (sx_operations s), sx_line := n\<rparr> # number_sections (n + length (section_rows s)) ss"

definition register_char :: "uchar \<Rightarrow> bool" where
  "register_char c \<longleftrightarrow> is_ascii_alphanumeric c \<or> c = 95 \<or> c = 45"

fun register_ok :: "register_ref \<Rightarrow> bool" where
  "register_ok Anonymous \<longleftrightarrow> True"
| "register_ok (Named r) \<longleftrightarrow> r \<noteq> [] \<and> list_all register_char r"

definition body_row_ok :: "rstr \<Rightarrow> bool" where
  "body_row_ok l \<longleftrightarrow> LF \<notin> set l \<and> (l = [] \<or> last l \<noteq> CR)"

fun op_ok :: "operation \<Rightarrow> bool" where
  "op_ok (Put a (Text ls) _) \<longleftrightarrow> address_ok a \<and> ls \<noteq> [] \<and> list_all body_row_ok ls"
| "op_ok (Put a (Register r) _) \<longleftrightarrow> address_ok a \<and> register_ok r"
| "op_ok (Cut a None _) \<longleftrightarrow> address_ok a"
| "op_ok (Cut a (Some r) _) \<longleftrightarrow> address_ok a \<and> r \<noteq> Anonymous \<and> register_ok r"
| "op_ok (Rem _) \<longleftrightarrow> True"
| "op_ok (Mv d _) \<longleftrightarrow> d \<noteq> [] \<and> list_all (\<lambda>c. \<not> is_whitespace c) d \<and> unquote d = d"

text \<open>A removal stands alone, and a move is the last operation of its section.\<close>

definition composition_ok :: "operation list \<Rightarrow> bool" where
  "composition_ok opers \<longleftrightarrow> opers \<noteq> [] \<and> (list_ex is_rem opers \<longrightarrow> length opers = 1)
     \<and> list_all (\<lambda>oper. \<not> is_mv oper) (butlast opers)"

definition header_ok :: "section_header \<Rightarrow> bool" where
  "header_ok h \<longleftrightarrow> sh_requested_path h \<noteq> [] \<and> list_all (\<lambda>c. c \<noteq> 35 \<and> c \<noteq> CR \<and> c \<noteq> LF) (sh_requested_path h)
     \<and> length (sh_tag h) = 4 \<and> list_all (\<lambda>c. is_ascii_digit c \<or> (65 \<le> c \<and> c \<le> 70)) (sh_tag h)"

definition section_ok :: "patch_section \<Rightarrow> bool" where
  "section_ok s \<longleftrightarrow> header_ok (sx_header s) \<and> composition_ok (sx_operations s) \<and> list_all op_ok (sx_operations s)"

subsection \<open>Words of a directive\<close>

lemma split_whitespace_join:
  assumes "list_all (\<lambda>w. w \<noteq> [] \<and> list_all (\<lambda>c. \<not> is_whitespace c) w) ws" "ws \<noteq> []"
  shows "split_whitespace (join [SP] ws) = ws"
proof -
  let ?f = "\<lambda>c. if is_whitespace c then SP else c"
  have sp: "is_whitespace SP" by (simp add: is_whitespace_def)
  have w: "map ?f w = w \<and> SP \<notin> set w \<and> w \<noteq> []" if "w \<in> set ws" for w
    using assms(1) that sp by (auto simp: list_all_iff intro!: map_idI)
  have "map ?f (join [SP] ws) = join [SP] ws"
    using w
  proof (induction ws rule: induct_list012)
    case (3 a b ws)
    then show ?case by auto
  qed auto
  then have "split_whitespace (join [SP] ws) = filter (\<lambda>w. w \<noteq> []) ws"
    using w assms(2) by (simp add: split_whitespace_def split_on_join)
  also have "\<dots> = ws" using w by (simp add: filter_id_conv)
  finally show ?thesis .
qed

definition address_char :: "uchar \<Rightarrow> bool" where
  "address_char c \<longleftrightarrow> reference_char c \<or> c = 60 \<or> c = 62 \<or> c = 42 \<or> c = 46 \<or> c = 61"

lemma address_chars: "list_all address_char (address_text a)" "address_text a \<noteq> []"
proof -
  have r: "list_all address_char (show_reference r)" for r
    using show_reference_chars(1) [of r] by (auto simp: list_all_iff address_char_def)
  have s: "list_all address_char (show_side side)" "show_side side \<noteq> []" for side
    by (cases side; simp add: lit_def address_char_def)+
  show "list_all address_char (address_text a)"
    using r s by (cases a) (simp_all add: address_text_def lit_def address_char_def reference_char_def is_ascii_digit_def)
  show "address_text a \<noteq> []"
    using s(2) show_reference_chars(2) by (cases a) (simp_all add: address_text_def lit_def)
qed

lemma address_char_not:
  "address_char c \<Longrightarrow> \<not> is_whitespace c" "address_char c \<Longrightarrow> c \<noteq> 58" "address_char c \<Longrightarrow> c \<noteq> 13"
  by (auto simp: address_char_def reference_char_def is_ascii_digit_def is_whitespace_def)

lemma register_char_not: "register_char c \<Longrightarrow> \<not> is_whitespace c" "register_char c \<Longrightarrow> c \<noteq> 58"
  by (auto simp: register_char_def is_ascii_alphanumeric_def is_ascii_digit_def is_whitespace_def)

lemma address_word: "list_all (\<lambda>c. \<not> is_whitespace c) (address_text a)"
  using address_chars(1) [of a] by (auto simp: list_all_iff address_char_not)

lemma parse_address_text: "address_ok a \<Longrightarrow> parse_address (address_text a) = Inr a"
  unfolding address_text_def by (rule parse_show_address) (simp_all add: range_separators_def)

lemma parse_register_word: "register_ok (Named r) \<Longrightarrow> parse_register (lit ''@'' @ r) = Inr (Named r)"
proof -
  assume "register_ok (Named r)"
  moreover have "strip_prefix (lit ''@'' @ r) (lit ''@'') = Some r" by (simp add: strip_prefix_Some)
  ultimately show ?thesis by (simp add: parse_register_def register_char_def [abs_def])
qed

lemma trim_ends: "s \<noteq> [] \<Longrightarrow> \<not> is_whitespace (hd s) \<Longrightarrow> \<not> is_whitespace (last s) \<Longrightarrow> trim s = s"
  by (intro trim_id) simp_all

lemma parse_operation_directive:
  assumes "kw \<noteq> []" "list_all (\<lambda>c. \<not> is_whitespace c) kw" "rest \<noteq> []" "\<not> is_whitespace (hd rest)" "\<not> is_whitespace (last rest)"
  shows "parse_operation (kw @ SP # rest) n =
     (if kw = lit ''PUT'' then parse_put rest n else if kw = lit ''CUT'' then parse_cut rest n
      else if kw = lit ''REM'' then parse_rem rest n else if kw = lit ''MV'' then parse_mv rest n
      else Inl (rejection_parse (lit ''unknown operation '' @ debug_str kw @ lit '' at line '' @ show_nat n)))"
proof -
  have sp: "is_whitespace SP" by (simp add: is_whitespace_def)
  have t: "trim (kw @ SP # rest) = kw @ SP # rest" "trim rest = rest"
    using assms by (auto intro!: trim_ends simp: list_all_iff)
  have "kw @ SP # rest \<noteq> lit ''REM''"
  proof
    assume "kw @ SP # rest = lit ''REM''"
    then have "SP \<in> set (lit ''REM'')" by (metis in_set_conv_decomp)
    then show False by (simp add: lit_def)
  qed
  moreover have "split_once_when is_whitespace (kw @ SP # rest) = Some (kw, rest)"
    using assms(2) sp by (simp add: split_once_when_def position_append)
  ultimately show ?thesis by (simp add: parse_operation_def Let_def t)
qed

lemma address_hd_last:
  "\<not> is_whitespace (hd (address_text a))" "last (address_text a) \<noteq> 58" "\<not> is_whitespace (last (address_text a))"
proof -
  have "address_char (hd (address_text a))" "address_char (last (address_text a))"
    using address_chars [of a] by (auto simp: list_all_iff)
  then show "\<not> is_whitespace (hd (address_text a))" "last (address_text a) \<noteq> 58" "\<not> is_whitespace (last (address_text a))"
    using address_char_not by auto
qed

lemma parse_put_text: "address_ok a \<Longrightarrow> parse_put (address_text a @ lit '':'') n = Inr (Put a (Text []) n)"
proof -
  assume "address_ok a"
  moreover have "strip_suffix (address_text a @ lit '':'') (lit '':'') = Some (address_text a)" by (simp add: strip_suffix_Some)
  ultimately show ?thesis
    using trim_no_ws [OF address_word] address_chars(2) by (simp add: parse_put_def Let_def parse_address_text and_then_def)
qed

lemma split_address_register:
  assumes "register_ok (Named r)"
  shows "split_whitespace (address_text a @ lit '' @'' @ r) = [address_text a, lit ''@'' @ r]"
    "last (address_text a @ lit '' @'' @ r) \<noteq> 58" "\<not> is_whitespace (last (address_text a @ lit '' @'' @ r))"
proof -
  have at: "\<not> is_whitespace 64" by (simp add: is_whitespace_def)
  have r: "list_all (\<lambda>c. \<not> is_whitespace c) (lit ''@'' @ r)"
    using assms at by (auto simp: list_all_iff register_char_not lit_def)
  have "address_text a @ lit '' @'' @ r = join [SP] [address_text a, lit ''@'' @ r]" by (simp add: lit_def)
  then show "split_whitespace (address_text a @ lit '' @'' @ r) = [address_text a, lit ''@'' @ r]"
    using split_whitespace_join [of "[address_text a, lit ''@'' @ r]"] address_word [of a] address_chars(2) [of a] r by simp
  have "register_char (last r)" using assms by (auto simp: list_all_iff)
  then show "last (address_text a @ lit '' @'' @ r) \<noteq> 58" "\<not> is_whitespace (last (address_text a @ lit '' @'' @ r))"
    using assms register_char_not by auto
qed

lemma split_address: "split_whitespace (address_text a) = [address_text a]"
  using split_whitespace_join [of "[address_text a]"] address_word [of a] address_chars(2) [of a] by simp

lemma parse_put_register:
  assumes "address_ok a" "register_ok (Named r)"
  shows "parse_put (address_text a @ lit '' @'' @ r) n = Inr (Put a (Register (Named r)) n)"
proof -
  have "strip_suffix (address_text a @ lit '' @'' @ r) (lit '':'') = None"
    using strip_suffix_last [of "address_text a @ lit '' @'' @ r" 58] split_address_register(2) [OF assms(2), of a]
    by (simp add: lit_def)
  moreover have "starts_with (lit ''@'' @ r) (lit ''@'')" by (simp add: starts_with_prefix)
  ultimately show ?thesis
    using assms by (simp add: parse_put_def split_address_register(1) parse_register_word parse_address_text and_then_def)
qed

lemma parse_put_anonymous: "address_ok a \<Longrightarrow> parse_put (address_text a) n = Inr (Put a (Register Anonymous) n)"
  using strip_suffix_last [OF address_chars(2) address_hd_last(2), of a]
  by (simp add: parse_put_def split_address parse_address_text and_then_def lit_def)

lemma parse_cut_register:
  "address_ok a \<Longrightarrow> register_ok (Named r) \<Longrightarrow> parse_cut (address_text a @ lit '' @'' @ r) n = Inr (Cut a (Some (Named r)) n)"
  by (simp add: parse_cut_def split_address_register(1) parse_register_word parse_address_text and_then_def)

lemma parse_cut_plain: "address_ok a \<Longrightarrow> parse_cut (address_text a) n = Inr (Cut a None n)"
  by (simp add: parse_cut_def split_address parse_address_text and_then_def)

lemma parse_mv_word:
  assumes "d \<noteq> []" "list_all (\<lambda>c. \<not> is_whitespace c) d" "unquote d = d"
  shows "parse_mv d n = Inr (Mv d n)"
  using split_whitespace_join [of "[d]"] trim_no_ws [OF assms(2)] assms by (simp add: parse_mv_def)

text \<open>The first row of an operation, with an empty body.\<close>

fun bare :: "operation \<Rightarrow> operation" where
  "bare (Put a (Text _) n) = Put a (Text []) n"
| "bare oper = oper"

lemma parse_operation_row: "op_ok oper \<Longrightarrow> parse_operation (hd (op_rows oper)) n = Inr (bare (set_line n oper))"
proof (induction oper rule: op_ok.induct)
  case (1 a ls u)
  have "lit ''PUT '' @ address_text a @ lit '':'' = lit ''PUT'' @ SP # (address_text a @ lit '':'')" by (simp add: lit_def)
  moreover have "list_all (\<lambda>c. \<not> is_whitespace c) (lit ''PUT'')" "\<not> is_whitespace (last (lit '':''))"
    by (simp_all add: lit_def is_whitespace_def)
  ultimately show ?case using 1 address_hd_last(1) [of a] address_chars(2) [of a]
    by (simp add: parse_operation_directive parse_put_text)
next
  case (2 a r u)
  have kw: "list_all (\<lambda>c. \<not> is_whitespace c) (lit ''PUT'')" by (simp add: lit_def is_whitespace_def)
  show ?case
  proof (cases r)
    case Anonymous
    have "lit ''PUT '' @ address_text a = lit ''PUT'' @ SP # address_text a" by (simp add: lit_def)
    then show ?thesis using 2 Anonymous kw address_hd_last [of a] address_chars(2) [of a]
      by (simp add: parse_operation_directive parse_put_anonymous)
  next
    case (Named s)
    have "lit ''PUT '' @ address_text a @ lit '' @'' @ s = lit ''PUT'' @ SP # (address_text a @ lit '' @'' @ s)" by (simp add: lit_def)
    then show ?thesis using 2 Named kw address_hd_last(1) [of a] address_chars(2) [of a] split_address_register(3) [of s a]
      by (simp add: parse_operation_directive parse_put_register del: last_append)
  qed
next
  case (3 a u)
  have "lit ''CUT '' @ address_text a = lit ''CUT'' @ SP # address_text a" "list_all (\<lambda>c. \<not> is_whitespace c) (lit ''CUT'')"
    "lit ''CUT'' \<noteq> lit ''PUT''" by (simp_all add: lit_def is_whitespace_def)
  then show ?case using 3 address_hd_last [of a] address_chars(2) [of a]
    by (simp add: parse_operation_directive parse_cut_plain)
next
  case (4 a r u)
  then obtain s where r: "r = Named s" by (cases r) auto
  have "lit ''CUT '' @ address_text a @ lit '' @'' @ s = lit ''CUT'' @ SP # (address_text a @ lit '' @'' @ s)"
    "list_all (\<lambda>c. \<not> is_whitespace c) (lit ''CUT'')" "lit ''CUT'' \<noteq> lit ''PUT''" by (simp_all add: lit_def is_whitespace_def)
  then show ?case using 4 r address_hd_last(1) [of a] address_chars(2) [of a] split_address_register(3) [of s a]
    by (simp add: parse_operation_directive parse_cut_register del: last_append)
next
  case (5 u)
  have "trim (lit ''REM'') = lit ''REM''" by code_simp
  then show ?case by (simp add: parse_operation_def parse_rem_def Let_def trim_def trim_end_def trim_start_def)
next
  case (6 d u)
  have "lit ''MV '' @ d = lit ''MV'' @ SP # d" "list_all (\<lambda>c. \<not> is_whitespace c) (lit ''MV'')"
    "lit ''MV'' \<noteq> lit ''PUT''" "lit ''MV'' \<noteq> lit ''CUT''" "lit ''MV'' \<noteq> lit ''REM''" "lit ''MV'' \<noteq> []"
    by (simp_all add: lit_def is_whitespace_def)
  moreover have "\<not> is_whitespace (hd d)" "\<not> is_whitespace (last d)" using 6 by (auto simp: list_all_iff)
  ultimately show ?case using 6 by (simp add: parse_operation_directive parse_mv_word)
qed

subsection \<open>Rows\<close>

text \<open>The parser inside a section whose operations so far are \<open>opers\<close>.\<close>

definition in_section :: "patch_section list \<Rightarrow> patch_section \<Rightarrow> operation list \<Rightarrow> parse_state" where
  "in_section ss s opers = \<lparr>ps_sections = ss @ [s\<lparr>sx_operations := opers\<rparr>], envelope_started = False, envelope_ended = False\<rparr>"

lemma strip_cr_id: "s = [] \<or> last s \<noteq> CR \<Longrightarrow> strip_cr s = s"
  using strip_suffix_last [of s 13] by (cases "s = []") (auto simp: strip_cr_def strip_suffix_def ends_with_suffix)

lemma trim_hd: "s \<noteq> [] \<Longrightarrow> \<not> is_whitespace (hd s) \<Longrightarrow> trim s \<noteq> [] \<and> hd (trim s) = hd s"
proof -
  assume s: "s \<noteq> []" "\<not> is_whitespace (hd s)"
  then have ne: "trim s \<noteq> []" by (auto simp: trim_Nil_iff list_all_iff)
  have "trim s = trim_end s" using s by (simp add: trim_def trim_start_id)
  then obtain zs where "s = trim s @ zs" using trim_end_prefix [of s] by (auto simp: prefix_def)
  then show ?thesis using ne by (metis hd_append2)
qed

lemma not_envelope:
  assumes "row \<noteq> []" "hd row \<noteq> 42" "hd row \<noteq> 91" "\<not> is_whitespace (hd row)"
  shows "trim row \<noteq> lit ''*** Begin Patch''" "trim row \<noteq> lit ''*** End Patch''" "\<not> is_header_line (trim row)" "trim row \<noteq> []"
proof -
  have "trim row \<noteq> []" "hd (trim row) = hd row" using trim_hd assms by auto
  then show "trim row \<noteq> lit ''*** Begin Patch''" "trim row \<noteq> lit ''*** End Patch''" "\<not> is_header_line (trim row)" "trim row \<noteq> []"
    using assms(2,3) by (auto simp: lit_def is_header_line_def starts_with_prefix prefix_def)
qed

lemma parse_row_directive:
  assumes "is_directive row" "row \<noteq> []" "hd row \<noteq> 42" "hd row \<noteq> 91" "\<not> is_whitespace (hd row)" "last row \<noteq> CR"
    and "parse_operation row n = Inr oper"
  shows "parse_row n row final (in_section ss s opers) = Inr (in_section ss s (opers @ [oper]))"
  using assms not_envelope [OF assms(2-5)] strip_cr_id [of row]
  by (simp add: parse_row_def Let_def in_section_def and_then_def)

lemma not_directive: "hd row = 43 \<Longrightarrow> row \<noteq> [] \<Longrightarrow> \<not> is_directive row"
  by (cases row) (auto simp: is_directive_def lit_def strip_prefix_def starts_with_def)

lemma parse_row_body:
  assumes "body_row_ok l"
  shows "parse_row n (43 # l) final (in_section ss s (opers @ [Put a (Text ls) k]))
    = Inr (in_section ss s (opers @ [Put a (Text (ls @ [l])) k]))"
proof -
  have "\<not> is_whitespace 43" by (simp add: is_whitespace_def)
  moreover have "strip_cr (43 # l) = 43 # l" using assms by (intro strip_cr_id) (auto simp: body_row_ok_def)
  moreover have "strip_prefix (43 # l) (lit ''+'') = Some l" by (simp add: strip_prefix_Some lit_def)
  ultimately show ?thesis using not_envelope [of "43 # l"] not_directive [of "43 # l"]
    by (simp add: parse_row_def Let_def in_section_def)
qed

lemma parse_rows_body:
  "list_all body_row_ok ks \<Longrightarrow>
   parse_rows n (map (Cons 43) ks @ rows) (in_section ss s (opers @ [Put a (Text ls) k]))
   = parse_rows (n + length ks) rows (in_section ss s (opers @ [Put a (Text (ls @ ks)) k]))"
proof (induction ks arbitrary: n ls)
  case (Cons l ks)
  then show ?case using parse_row_body [of l] by (simp add: and_then_def)
qed simp

text \<open>What the rows of directives have in common.\<close>

definition directive_row :: "rstr \<Rightarrow> bool" where
  "directive_row row \<longleftrightarrow> is_directive row \<and> row \<noteq> [] \<and> hd row \<noteq> 42 \<and> hd row \<noteq> 91 \<and> \<not> is_whitespace (hd row)
     \<and> last row \<noteq> CR \<and> LF \<notin> set row"

lemma directive_rowI:
  assumes "kw \<in> {lit ''PUT '', lit ''CUT '', lit ''MV ''}" "x \<noteq> []" "last x \<noteq> CR" "LF \<notin> set x"
  shows "directive_row (kw @ x)"
  using assms
  by (auto simp: directive_row_def is_directive_def strip_prefix_def starts_with_def lit_def is_whitespace_def)

lemma no_breaks: "list_all (\<lambda>c. \<not> is_whitespace c) s \<Longrightarrow> LF \<notin> set s \<and> (s \<noteq> [] \<longrightarrow> last s \<noteq> CR)"
proof -
  assume "list_all (\<lambda>c. \<not> is_whitespace c) s"
  moreover have "is_whitespace LF" "is_whitespace CR" by (simp_all add: is_whitespace_def)
  ultimately show ?thesis by (metis last_in_set list_all_iff)
qed

lemma register_breaks: "register_ok (Named r) \<Longrightarrow> r \<noteq> [] \<and> LF \<notin> set r \<and> last r \<noteq> CR"
  using no_breaks [of r] by (auto simp: list_all_iff register_char_not)

lemma op_row_directive: "op_ok oper \<Longrightarrow> directive_row (hd (op_rows oper))"
proof (induction oper rule: op_ok.induct)
  case (1 a ls u)
  then show ?case using no_breaks [OF address_word [of a]] directive_rowI [of "lit ''PUT ''" "address_text a @ lit '':''"]
    by (simp add: lit_def)
next
  case (2 a r u)
  then show ?case
    using no_breaks [OF address_word [of a]] address_chars(2) [of a] directive_rowI [of "lit ''PUT ''" "address_text a"]
      directive_rowI [of "lit ''PUT ''" "address_text a @ lit '' @'' @ s" for s] register_breaks
    by (cases r) (auto simp: lit_def)
next
  case (3 a u)
  then show ?case using no_breaks [OF address_word [of a]] address_chars(2) [of a] by (auto intro!: directive_rowI)
next
  case (4 a r u)
  then show ?case
    using no_breaks [OF address_word [of a]] directive_rowI [of "lit ''CUT ''" "address_text a @ lit '' @'' @ s" for s] register_breaks
    by (cases r) (auto simp: lit_def)
next
  case (5 u)
  then show ?case by (simp add: directive_row_def is_directive_def) (simp add: lit_def is_whitespace_def)
next
  case (6 d u)
  then show ?case using no_breaks [of d] by (auto intro!: directive_rowI)
qed

lemma parse_rows_op:
  assumes "op_ok oper"
  shows "parse_rows n (op_rows oper @ rows) (in_section ss s opers)
    = parse_rows (n + length (op_rows oper)) rows (in_section ss s (opers @ [set_line (n + 1) oper]))"
proof -
  have first: "parse_row (n + 1) (hd (op_rows oper)) final (in_section ss s opers)
      = Inr (in_section ss s (opers @ [bare (set_line (n + 1) oper)]))" for final
    using op_row_directive [OF assms] parse_operation_row [OF assms, of "n + 1"]
    by (intro parse_row_directive) (auto simp: directive_row_def)
  show ?thesis
  proof (cases "\<exists>a ls k. oper = Put a (Text ls) k")
    case True
    then obtain a ls k where o: "oper = Put a (Text ls) k" by blast
    then have "list_all body_row_ok ls" using assms by simp
    then show ?thesis using first o parse_rows_body [of ls "n + 1" rows ss s opers a "[]" "n + 1"]
      by (simp add: and_then_def)
  next
    case False
    then have "op_rows oper = [hd (op_rows oper)]" "bare (set_line (n + 1) oper) = set_line (n + 1) oper"
      by (cases oper rule: op_rows.cases; simp)+
    then show ?thesis using first by (metis (no_types, lifting) One_nat_def add.right_neutral add_Suc_right and_then_def append_Cons append_Nil list.size(3) list.size(4) old.sum.simps(6) parse_rows.simps(2))
  qed
qed

lemma parse_rows_ops:
  "list_all op_ok os \<Longrightarrow>
   parse_rows n (concat (map op_rows os) @ rows) (in_section ss s opers)
   = parse_rows (n + length (concat (map op_rows os))) rows (in_section ss s (opers @ number_ops (n + 1) os))"
proof (induction os arbitrary: n opers)
  case (Cons oper os)
  then show ?case using parse_rows_op [of oper n "concat (map op_rows os) @ rows" ss s opers] by (simp add: add.assoc)
qed simp

subsection \<open>Sections\<close>

definition between_sections :: "patch_section list \<Rightarrow> parse_state" where
  "between_sections ss = \<lparr>ps_sections = ss, envelope_started = False, envelope_ended = False\<rparr>"

definition header_row :: "section_header \<Rightarrow> rstr" where
  "header_row h = lit ''['' @ sh_requested_path h @ lit ''#'' @ sh_tag h @ lit '']''"

lemma upper_hex: "list_all (\<lambda>c. is_ascii_digit c \<or> (65 \<le> c \<and> c \<le> 70)) t \<Longrightarrow> length t = 4 \<Longrightarrow> normalize_tag t = Inr t"
proof -
  assume t: "list_all (\<lambda>c. is_ascii_digit c \<or> (65 \<le> c \<and> c \<le> 70)) t" "length t = 4"
  have "str_len t = length t" using t(1) by (induction t) (auto simp: str_len_def utf8_len_def is_ascii_digit_def)
  moreover have "list_all is_ascii_hexdigit t" using t(1) by (auto simp: list_all_iff is_ascii_hexdigit_def)
  moreover have "to_ascii_uppercase t = t"
    using t(1) by (auto simp: to_ascii_uppercase_def list_all_iff is_ascii_digit_def intro!: map_idI)
  ultimately show ?thesis using t(2) by (simp add: normalize_tag_def)
qed

lemma parse_header_row:
  assumes "header_ok h"
  shows "parse_section_header (header_row h) = Inr h" "trim (header_row h) = header_row h" "is_header_line (header_row h)"
proof -
  have ws: "\<not> is_whitespace 91" "\<not> is_whitespace 93" by (simp_all add: is_whitespace_def)
  show t: "trim (header_row h) = header_row h" using ws by (intro trim_ends) (auto simp: header_row_def lit_def)
  have "suffix (lit '']'') (header_row h)" by (simp add: header_row_def suffix_def)
  then show l: "is_header_line (header_row h)"
    by (simp add: is_header_line_def ends_with_suffix) (simp add: header_row_def starts_with_prefix lit_def)
  let ?inner = "sh_requested_path h @ 35 # sh_tag h"
  have i: "take (length (header_row h) - 2) (drop 1 (header_row h)) = ?inner" by (simp add: header_row_def lit_def)
  have "split_once_when (\<lambda>c. c = 35) ?inner = Some (sh_requested_path h, sh_tag h)"
    using assms by (simp add: split_once_when_def header_ok_def list_all_iff position_append)
  moreover have "35 \<notin> set (sh_requested_path h)" "CR \<notin> set (sh_requested_path h)" "LF \<notin> set (sh_requested_path h)"
    using assms by (auto simp: header_ok_def list_all_iff)
  moreover have "normalize_tag (sh_tag h) = Inr (sh_tag h)" "sh_requested_path h \<noteq> []"
    using assms by (auto simp: header_ok_def upper_hex)
  ultimately show "parse_section_header (header_row h) = Inr h"
    using t l i by (simp add: parse_section_header_def Let_def section_header_new_def and_then_def)
qed

lemma parse_row_header:
  assumes "header_ok h"
  shows "parse_row n (header_row h) final (between_sections ss)
    = Inr (in_section ss \<lparr>sx_header = h, sx_operations = [], sx_line = n\<rparr> [])"
proof -
  have "strip_cr (header_row h) = header_row h" by (intro strip_cr_id) (simp add: header_row_def lit_def)
  moreover have "header_row h \<noteq> []" "header_row h \<noteq> lit ''*** Begin Patch''" "header_row h \<noteq> lit ''*** End Patch''"
    by (simp_all add: header_row_def lit_def)
  ultimately show ?thesis using parse_header_row [OF assms]
    by (simp add: parse_row_def Let_def between_sections_def in_section_def and_then_def)
qed

lemma in_between: "in_section ss s opers = between_sections (ss @ [s\<lparr>sx_operations := opers\<rparr>])"
  by (simp add: in_section_def between_sections_def)

lemma parse_rows_section:
  assumes "section_ok s"
  shows "parse_rows n (section_rows s @ rows) (between_sections ss) = parse_rows (n + length (section_rows s)) rows
    (between_sections (ss @ [s\<lparr>sx_operations := number_ops (n + 2) (sx_operations s), sx_line := n + 1\<rparr>]))"
proof -
  have ok: "header_ok (sx_header s)" "list_all op_ok (sx_operations s)" using assms by (auto simp: section_ok_def)
  have rows: "section_rows s = header_row (sx_header s) # concat (map op_rows (sx_operations s))"
    by (simp add: section_rows_def header_row_def)
  have eq: "s\<lparr>sx_operations := os, sx_line := k\<rparr> = \<lparr>sx_header = sx_header s, sx_operations = os, sx_line = k\<rparr>" for os k
    by (cases s) simp
  show ?thesis unfolding rows eq
    using parse_row_header [OF ok(1), of "n + 1" _ ss]
      parse_rows_ops [OF ok(2), of "n + 1" rows ss "\<lparr>sx_header = sx_header s, sx_operations = [], sx_line = n + 1\<rparr>" "[]"]
    by (simp add: and_then_def in_between add.assoc)
qed

lemma parse_rows_sections:
  "list_all section_ok xs \<Longrightarrow>
   parse_rows n (concat (map section_rows xs)) (between_sections ss) = Inr (between_sections (ss @ number_sections (n + 1) xs))"
proof (induction xs arbitrary: n ss)
  case (Cons s xs)
  then show ?case using parse_rows_section [of s n "concat (map section_rows xs)" ss] by (simp add: add.assoc)
qed simp

text \<open>The composition rules, as the validator checks them.\<close>

lemma validate_composition_iff:
  "validate_section_composition s = Inr () \<and> sx_operations s \<noteq> [] \<longleftrightarrow> composition_ok (sx_operations s)"
proof (cases "sx_operations s" rule: rev_cases)
  case Nil
  then show ?thesis by (simp add: composition_ok_def)
next
  case (snoc os oper)
  let ?all = "os @ [oper]"
  let ?early = "filter (\<lambda>i. is_mv (os ! i)) [0..<length os]"
  have "filter (\<lambda>i. is_mv (?all ! i)) [0..<length os] = ?early" by (intro filter_cong) (simp_all add: nth_append)
  then have mv: "filter (\<lambda>i. is_mv (?all ! i)) [0..<length ?all] = ?early @ (if is_mv oper then [length os] else [])" by simp
  have early: "?early = [] \<longleftrightarrow> list_all (\<lambda>oper. \<not> is_mv oper) os" by (auto simp: filter_empty_conv list_all_length)
  have hd: "hd ?early < length os" if "?early \<noteq> []" using hd_in_set [OF that] by auto
  have rem: "length (filter is_rem ?all) > 0 \<longleftrightarrow> list_ex is_rem ?all" by (auto simp: filter_empty_conv list_ex_iff)
  show ?thesis
  proof (cases "?early = []")
    case True
    then have "list_all (\<lambda>oper. \<not> is_mv oper) os" using early by simp
    then show ?thesis
      unfolding validate_section_composition_def Let_def composition_ok_def snoc mv rem True by simp
  next
    case False
    then have "(case ?early @ (if is_mv oper then [length os] else []) of i # _ \<Rightarrow> i + 1 \<noteq> length ?all | [] \<Rightarrow> False)"
      using hd by (cases ?early) auto
    then show ?thesis using False early snoc
      unfolding validate_section_composition_def Let_def composition_ok_def snoc mv by auto
  qed
qed

lemma is_rem_set_line [simp]: "is_rem (set_line n oper) = is_rem oper" "is_mv (set_line n oper) = is_mv oper"
  by (cases oper; simp)+

lemma number_ops_length [simp]: "length (number_ops n os) = length os" "number_ops n os = [] \<longleftrightarrow> os = []"
  by (induction os arbitrary: n; simp)+

lemma number_ops_kinds: "map is_rem (number_ops n os) = map is_rem os \<and> map is_mv (number_ops n os) = map is_mv os"
  by (induction os arbitrary: n) simp_all

lemma list_ex_map: "list_ex f xs = (True \<in> set (map f xs))" by (auto simp: list_ex_iff)

lemma composition_ok_kinds:
  "map is_rem xs = map is_rem ys \<Longrightarrow> map is_mv xs = map is_mv ys \<Longrightarrow> composition_ok xs = composition_ok ys"
proof -
  assume m: "map is_rem xs = map is_rem ys" "map is_mv xs = map is_mv ys"
  have "length xs = length ys" using map_eq_imp_length_eq [OF m(1)] .
  moreover have "map is_mv (butlast xs) = map is_mv (butlast ys)" using m(2) by (simp add: map_butlast)
  then have "list_all (\<lambda>o'. \<not> is_mv o') (butlast xs) = list_all (\<lambda>o'. \<not> is_mv o') (butlast ys)"
    by (metis (mono_tags, lifting) list.pred_map comp_apply list_all_cong)
  moreover have "list_ex is_rem xs = list_ex is_rem ys" unfolding list_ex_map m(1) ..
  ultimately show ?thesis unfolding composition_ok_def by (metis length_0_conv)
qed

lemma validate_bodies_numbered: "list_all op_ok os \<Longrightarrow> validate_bodies (number_ops n os) = Inr ()"
proof (induction os arbitrary: n)
  case (Cons oper os)
  then show ?case by (cases "(set_line n oper) # number_ops (n + length (op_rows oper)) os" rule: validate_bodies.cases)
    (auto elim: op_ok.elims)
qed simp

lemma op_rows_cases:
  assumes "r \<in> set (op_rows oper)"
  shows "r = hd (op_rows oper) \<or> (\<exists>a ls k. oper = Put a (Text ls) k \<and> r \<in> Cons 43 ` set ls)"
  using assms by (cases oper rule: op_rows.cases) simp_all

lemma section_rows_no_LF:
  assumes "section_ok s" "row \<in> set (section_rows s)"
  shows "LF \<notin> set row"
proof -
  have h: "header_ok (sx_header s)" "list_all op_ok (sx_operations s)" using assms(1) by (auto simp: section_ok_def)
  have "LF \<notin> set (sh_tag (sx_header s))" using h(1) by (auto simp: header_ok_def list_all_iff is_ascii_digit_def)
  then have "LF \<notin> set (header_row (sx_header s))"
    using h(1) by (auto simp: header_row_def header_ok_def list_all_iff lit_def)
  moreover have "LF \<notin> set r" if o: "oper \<in> set (sx_operations s)" and r: "r \<in> set (op_rows oper)" for oper r
  proof -
    have ok: "op_ok oper" using h(2) o by (auto simp: list_all_iff)
    show ?thesis using op_rows_cases [OF r]
    proof
      assume "r = hd (op_rows oper)"
      then show ?thesis using op_row_directive [OF ok] by (simp add: directive_row_def)
    next
      assume "\<exists>a ls k. oper = Put a (Text ls) k \<and> r \<in> Cons 43 ` set ls"
      then show ?thesis using ok by (auto simp: list_all_iff body_row_ok_def)
    qed
  qed
  ultimately show ?thesis using assms(2) by (auto simp: section_rows_def header_row_def)
qed

lemma validate_numbered: "list_all section_ok ss \<Longrightarrow> validate_sections (number_sections n ss) = Inr ()"
proof (induction ss arbitrary: n)
  case (Cons s ss)
  have "composition_ok (number_ops (n + 1) (sx_operations s))"
    using Cons.prems composition_ok_kinds [OF number_ops_kinds [THEN conjunct1] number_ops_kinds [THEN conjunct2]]
    by (simp add: section_ok_def)
  then have "validate_section_composition (s\<lparr>sx_operations := number_ops (n + 1) (sx_operations s), sx_line := n\<rparr>) = Inr ()"
    using validate_composition_iff [of "s\<lparr>sx_operations := number_ops (n + 1) (sx_operations s), sx_line := n\<rparr>"] by simp
  moreover have "list_all op_ok (sx_operations s)" using Cons.prems by (simp add: section_ok_def)
  ultimately show ?case using Cons by (simp add: and_then_def validate_bodies_numbered)
qed simp

lemma number_sections_nonempty: "list_all section_ok ss \<Longrightarrow> List.find (\<lambda>s. sx_operations s = []) (number_sections n ss) = None"
  by (induction ss arbitrary: n) (auto simp: section_ok_def composition_ok_def)

section \<open>Results on the language\<close>

text \<open>C11. Printing a patch and parsing it gives the patch back, with every section and operation carrying the row it
  starts on: headers, all six forms of address, text bodies with their blank rows, registers, removals and moves.\<close>

theorem parse_patch_text:
  assumes "ss \<noteq> []" "list_all section_ok ss"
  shows "parse_hashline_patch (patch_text ss) = Inr (number_sections 1 ss)"
proof -
  let ?rows = "concat (map section_rows ss)"
  obtain s ss' where ss: "ss = s # ss'" using assms(1) by (cases ss) auto
  have ne: "?rows \<noteq> []" by (simp add: ss section_rows_def)
  have "\<forall>row \<in> set ?rows. LF \<notin> set row" using section_rows_no_LF assms(2) by (auto simp: list_all_iff)
  then have split: "split_on LF (patch_text ss) = ?rows" unfolding patch_text_def using ne by (intro split_on_join) auto
  obtain rest where "patch_text ss = 91 # rest"
    by (cases "concat (map op_rows (sx_operations s)) @ concat (map section_rows ss')")
      (auto simp: patch_text_def ss section_rows_def lit_def)
  then have "trim (patch_text ss) \<noteq> []" by (simp add: trim_Nil_iff is_whitespace_def)
  then show ?thesis
    using split parse_rows_sections [OF assms(2), of 0 "[]"] number_sections_nonempty [OF assms(2), of 1]
      validate_numbered [OF assms(2), of 1]
    by (simp add: parse_hashline_patch_def between_sections_def and_then_def ss)
qed

definition sample_sections :: "patch_section list" where
  "sample_sections =
     [\<lparr>sx_header = \<lparr>sh_requested_path = lit ''src/a.rs'', sh_tag = lit ''0A1F''\<rparr>,
       sx_operations = [Put (Range (Absolute 3) (EofRelative 1)) (Text [lit ''let x = 1;'', []]) 2,
         Cut (Gap After (EofRelative 0)) (Some (Named (lit ''r_1''))) 5, Put Bof (Register Anonymous) 6], sx_line = 1\<rparr>,
      \<lparr>sx_header = \<lparr>sh_requested_path = lit ''b'', sh_tag = lit ''FFFF''\<rparr>,
       sx_operations = [Put (BlockGap Before (Absolute 8)) (Text [lit ''+x'']) 8, Mv (lit ''dir/c'') 10], sx_line = 7\<rparr>]"

theorem parse_patch_text_witness: "parse_hashline_patch (patch_text sample_sections) = Inr sample_sections"
proof -
  have "sample_sections \<noteq> []" "list_all section_ok sample_sections" "number_sections 1 sample_sections = sample_sections"
    by code_simp+
  then show ?thesis using parse_patch_text [of sample_sections] by simp
qed

text \<open>Every form of address is read back from its printed form, with each of the three range separators.\<close>

theorem parse_address_round_trip:
  assumes "address_ok a" "sep \<in> set range_separators"
  shows "parse_address (show_address sep a) = Inr a"
  by (rule parse_show_address [OF assms])

theorem parse_address_round_trip_witness:
  "parse_address (lit ''12..=$-3'') = Inr (Range (Absolute 12) (EofRelative 3)) \<and> parse_address (lit ''<7*'') = Inr (BlockGap Before (Absolute 7))"
proof -
  have "show_address (lit ''..='') (Range (Absolute 12) (EofRelative 3)) = lit ''12..=$-3''"
    "show_address (lit ''..='') (BlockGap Before (Absolute 7)) = lit ''<7*''"
    "address_ok (Range (Absolute 12) (EofRelative 3))" "address_ok (BlockGap Before (Absolute 7))"
    "lit ''..='' \<in> set range_separators"
    by code_simp+
  then show ?thesis using parse_address_round_trip [of "Range (Absolute 12) (EofRelative 3)" "lit ''..=''"]
      parse_address_round_trip [of "BlockGap Before (Absolute 7)" "lit ''..=''"] by simp
qed

subsection \<open>What the parser accepts\<close>

lemma and_then_Inr: "and_then r f = Inr y \<longleftrightarrow> (\<exists>x. r = Inr x \<and> f x = Inr y)"
  by (auto simp: and_then_def split: sum.splits)

lemma parse_positive_bounds: "parse_positive_usize s = Inr n \<Longrightarrow> 0 < n \<and> n \<le> usize_max"
  by (auto simp: parse_positive_usize_def parse_usize_def Let_def split: option.splits if_splits)

lemma parse_reference_ok: "parse_line_reference s = Inr r \<Longrightarrow> reference_ok r"
  by (auto simp: parse_line_reference_def Let_def and_then_Inr split: if_splits option.splits dest!: parse_positive_bounds)

lemma parse_range_ok: "parse_range seps s = Some (Inr a) \<Longrightarrow> address_ok a"
  by (induction seps) (auto simp: and_then_Inr split: option.splits dest!: parse_reference_ok)

lemma parse_address_ok: "parse_address s = Inr a \<Longrightarrow> address_ok a"
  unfolding parse_address_def Let_def
  by (auto simp: and_then_Inr split: if_splits option.splits prod.splits dest!: parse_reference_ok parse_range_ok)

lemma parse_register_ok: "parse_register s = Inr r \<Longrightarrow> register_ok r \<and> r \<noteq> Anonymous"
  by (auto simp: parse_register_def register_char_def [abs_def] split: option.splits if_splits)

text \<open>An operation as it stands while its body is still being read.\<close>

fun loose_op :: "operation \<Rightarrow> bool" where
  "loose_op (Put a (Text ls) _) \<longleftrightarrow> address_ok a \<and> list_all (\<lambda>l. LF \<notin> set l) ls"
| "loose_op (Put a (Register r) _) \<longleftrightarrow> address_ok a \<and> register_ok r"
| "loose_op (Cut a r _) \<longleftrightarrow> address_ok a \<and> (case r of Some r \<Rightarrow> register_ok r \<and> r \<noteq> Anonymous | None \<Rightarrow> True)"
| "loose_op (Rem _) \<longleftrightarrow> True"
| "loose_op (Mv d _) \<longleftrightarrow> list_all (\<lambda>c. \<not> is_whitespace c) d"

fun accepted_op :: "operation \<Rightarrow> bool" where
  "accepted_op (Put a (Text ls) n) \<longleftrightarrow> ls \<noteq> [] \<and> loose_op (Put a (Text ls) n)"
| "accepted_op oper \<longleftrightarrow> loose_op oper"

definition accepted_section :: "patch_section \<Rightarrow> bool" where
  "accepted_section s \<longleftrightarrow> header_ok (sx_header s) \<and> composition_ok (sx_operations s) \<and> list_all accepted_op (sx_operations s)"

lemma parse_put_loose: "parse_put s n = Inr oper \<Longrightarrow> loose_op oper"
  unfolding parse_put_def Let_def
  by (auto simp: and_then_Inr split: option.splits list.splits if_splits dest!: parse_address_ok parse_register_ok)

lemma parse_cut_loose: "parse_cut s n = Inr oper \<Longrightarrow> loose_op oper"
  unfolding parse_cut_def
  by (auto simp: and_then_Inr split: list.splits if_splits dest!: parse_address_ok parse_register_ok)

lemma set_unquote: "set (unquote s) \<subseteq> set s"
  by (auto simp: unquote_def strip_prefix_def strip_suffix_def split: option.splits bind_splits if_splits dest!: in_set_takeD in_set_dropD)

lemma split_on_nonempty_piece: "x \<in> set m \<Longrightarrow> x \<noteq> d \<Longrightarrow> \<exists>p \<in> set (split_on d m). p \<noteq> []"
proof (rule ccontr)
  assume x: "x \<in> set m" "x \<noteq> d" and none: "\<not> (\<exists>p \<in> set (split_on d m). p \<noteq> [])"
  have u: "\<Union> (set ` set (split_on d m)) = {}" using none by auto
  have "set m \<subseteq> {d}" using set_join [of "[d]" "split_on d m"] unfolding u by simp
  then show False using x by auto
qed

lemma split_whitespace_one:
  assumes "length (split_whitespace s) = 1" "trim s = s"
  shows "list_all (\<lambda>c. \<not> is_whitespace c) s"
proof (rule ccontr)
  let ?f = "\<lambda>c. if is_whitespace c then SP else c"
  assume "\<not> list_all (\<lambda>c. \<not> is_whitespace c) s"
  then obtain a w b where s: "s = a @ w # b" "is_whitespace w" "list_all (\<lambda>c. \<not> is_whitespace c) a"
    using split_list_first_prop [of s is_whitespace] by (auto simp: list_all_iff)
  have sp: "is_whitespace SP" by (simp add: is_whitespace_def)
  have ends: "\<not> is_whitespace (hd s)" "\<not> is_whitespace (last s)" using hd_trim [of s] last_trim [of s] assms(2) s(1) by auto
  have a: "a \<noteq> []" using ends(1) s(1,2) by (cases a) auto
  have b: "b \<noteq> []" "\<not> is_whitespace (last b)" using ends(2) s(1,2) by (cases b; auto split: if_splits)+
  have fa: "map ?f a = a" "SP \<notin> set a" using s(3) sp by (auto simp: list_all_iff intro!: map_idI)
  have l: "last b \<in> set (map ?f b)" "last b \<noteq> SP" using b sp by (auto intro: rev_image_eqI)
  obtain p where p: "p \<in> set (split_on SP (map ?f b))" "p \<noteq> []" using split_on_nonempty_piece [OF l] by (rule bexE)
  have "split_whitespace s = a # filter (\<lambda>w. w \<noteq> []) (split_on SP (map ?f b))"
    using fa a s(1,2) by (simp add: split_whitespace_def split_on_append)
  moreover have "filter (\<lambda>w. w \<noteq> []) (split_on SP (map ?f b)) \<noteq> []" using p by (auto simp: filter_empty_conv)
  ultimately show False using assms(1) by simp
qed

lemma parse_mv_loose: "parse_mv s n = Inr oper \<Longrightarrow> loose_op oper"
proof -
  assume "parse_mv s n = Inr oper"
  then have o: "oper = Mv (unquote (trim s)) n" "length (split_whitespace (trim s)) = 1"
    by (auto simp: parse_mv_def Let_def split: if_splits)
  then show ?thesis using split_whitespace_one [of "trim s"] set_unquote [of "trim s"] by (auto simp: list_all_iff)
qed

lemma parse_operation_loose: "parse_operation s n = Inr oper \<Longrightarrow> loose_op oper"
  by (auto simp: parse_operation_def Let_def parse_rem_def split: if_splits option.splits
      dest!: parse_put_loose parse_cut_loose parse_mv_loose)

lemma normalize_tag_shape:
  assumes "normalize_tag t = Inr u"
  shows "length u = 4 \<and> list_all (\<lambda>c. is_ascii_digit c \<or> (65 \<le> c \<and> c \<le> 70)) u"
proof -
  have t: "str_len t = 4" "list_all is_ascii_hexdigit t" "u = to_ascii_uppercase t"
    using assms by (auto simp: normalize_tag_def split: if_splits)
  have "str_len t = length t"
    using t(2) by (induction t) (auto simp: str_len_def utf8_len_def is_ascii_hexdigit_def is_ascii_digit_def)
  then show ?thesis using t by (auto simp: to_ascii_uppercase_def list_all_iff is_ascii_hexdigit_def is_ascii_digit_def)
qed

lemma parse_header_accepted: "parse_section_header s = Inr h \<Longrightarrow> header_ok h"
proof -
  assume "parse_section_header s = Inr h"
  then obtain path t where h: "path \<noteq> []" "35 \<notin> set path" "CR \<notin> set path" "LF \<notin> set path" "section_header_new path t = Inr h"
    unfolding parse_section_header_def Let_def by (auto split: if_splits option.splits prod.splits)
  from h(1,5) have "\<exists>u. normalize_tag t = Inr u \<and> \<lparr>sh_requested_path = path, sh_tag = u\<rparr> = h"
    by (simp add: section_header_new_def and_then_Inr)
  then obtain u where u: "normalize_tag t = Inr u" "\<lparr>sh_requested_path = path, sh_tag = u\<rparr> = h" by blast
  have "list_all (\<lambda>c. c \<noteq> 35 \<and> c \<noteq> CR \<and> c \<noteq> LF) path" using h(2-4) unfolding list_all_iff by metis
  then show ?thesis using h(1) normalize_tag_shape [OF u(1)] unfolding u(2) [symmetric] header_ok_def by simp
qed

definition rows_ok :: "parse_state \<Rightarrow> bool" where
  "rows_ok st \<longleftrightarrow> list_all (\<lambda>s. header_ok (sx_header s) \<and> list_all loose_op (sx_operations s)) (ps_sections st)"

lemma append_body_loose: "append_body_line oper line = Some oper' \<Longrightarrow> loose_op oper \<Longrightarrow> LF \<notin> set line \<Longrightarrow> loose_op oper'"
  by (induction oper line rule: append_body_line.induct) (auto simp: strip_prefix_Some)


lemma rows_ok_last:
  assumes "rows_ok st" "ps_sections st \<noteq> []"
  shows "header_ok (sx_header (last (ps_sections st)))" "list_all loose_op (sx_operations (last (ps_sections st)))"
    "list_all (\<lambda>s. header_ok (sx_header s) \<and> list_all loose_op (sx_operations s)) (butlast (ps_sections st))"
proof -
  let ?P = "\<lambda>s. header_ok (sx_header s) \<and> list_all loose_op (sx_operations s)"
  have "list_all ?P (butlast (ps_sections st) @ [last (ps_sections st)])" using assms by (simp add: rows_ok_def)
  then show "header_ok (sx_header (last (ps_sections st)))" "list_all loose_op (sx_operations (last (ps_sections st)))"
    "list_all ?P (butlast (ps_sections st))" unfolding list_all_append by simp_all
qed

text \<open>Replacing the operations of the last section.\<close>

lemma rows_ok_replace:
  assumes "rows_ok st" "ps_sections st \<noteq> []" "list_all loose_op os"
  shows "rows_ok (st\<lparr>ps_sections := butlast (ps_sections st) @ [(last (ps_sections st))\<lparr>sx_operations := os\<rparr>]\<rparr>)"
  using rows_ok_last [OF assms(1,2)] assms(3) by (simp add: rows_ok_def)

lemma parse_row_body_ok:
  assumes "rows_ok st" "ps_sections st \<noteq> []" "sx_operations (last (ps_sections st)) \<noteq> []" "LF \<notin> set line"
    and "append_body_line (last (sx_operations (last (ps_sections st)))) line = Some oper"
  shows "rows_ok (st\<lparr>ps_sections := butlast (ps_sections st) @
    [(last (ps_sections st))\<lparr>sx_operations := butlast (sx_operations (last (ps_sections st))) @ [oper]\<rparr>]\<rparr>)"
proof (rule rows_ok_replace [OF assms(1,2)])
  let ?os = "sx_operations (last (ps_sections st))"
  have "list_all loose_op (butlast ?os @ [last ?os])" using rows_ok_last(2) [OF assms(1,2)] assms(3) by simp
  then have "list_all loose_op (butlast ?os)" "loose_op (last ?os)" unfolding list_all_append by simp_all
  then show "list_all loose_op (butlast ?os @ [oper])" using append_body_loose [OF assms(5)] assms(4) by simp
qed

lemma parse_row_ok:
  assumes "parse_row n row final st = Inr st'" "rows_ok st" "LF \<notin> set row"
  shows "rows_ok st'"
proof -
  have lf: "LF \<notin> set (strip_cr row)" using assms(3) by (auto simp: strip_cr_def strip_suffix_def split: option.splits if_splits dest: in_set_takeD)
  have header: "rows_ok (st\<lparr>ps_sections := ps_sections st @ [\<lparr>sx_header = h, sx_operations = [], sx_line = n\<rparr>]\<rparr>)"
    if "parse_section_header x = Inr h" for x h
    using assms(2) parse_header_accepted [OF that] by (simp add: rows_ok_def)
  have oper: "rows_ok (st\<lparr>ps_sections := butlast (ps_sections st)
      @ [(last (ps_sections st))\<lparr>sx_operations := sx_operations (last (ps_sections st)) @ [oper]\<rparr>]\<rparr>)"
    if "parse_operation x n = Inr oper" "ps_sections st \<noteq> []" for x oper
    using rows_ok_last(2) [OF assms(2) that(2)] parse_operation_loose [OF that(1)] by (intro rows_ok_replace assms(2) that(2)) simp
  have flags: "rows_ok (st\<lparr>envelope_started := True\<rparr>)" "rows_ok (st\<lparr>envelope_ended := True\<rparr>)"
    using assms(2) by (simp_all add: rows_ok_def)
  show ?thesis
    using assms(1,2) unfolding parse_row_def Let_def
    by (auto simp: and_then_Inr flags split: if_splits option.splits
        intro: header oper parse_row_body_ok [OF assms(2) _ _ lf])
qed

lemma parse_rows_ok:
  "parse_rows n rows st = Inr st' \<Longrightarrow> rows_ok st \<Longrightarrow> \<forall>row \<in> set rows. LF \<notin> set row \<Longrightarrow> rows_ok st'"
proof (induction rows arbitrary: n st)
  case (Cons row rows)
  then show ?case using parse_row_ok by (auto simp: and_then_Inr)
qed simp

lemma validate_bodies_accepted: "validate_bodies os = Inr () \<Longrightarrow> list_all loose_op os \<Longrightarrow> list_all accepted_op os"
  by (induction os rule: validate_bodies.induct) auto

lemma validate_sections_accepted:
  "validate_sections ss = Inr () \<Longrightarrow> list_all (\<lambda>s. header_ok (sx_header s) \<and> list_all loose_op (sx_operations s)) ss
   \<Longrightarrow> list_all (\<lambda>s. sx_operations s \<noteq> []) ss \<Longrightarrow> list_all accepted_section ss"
proof (induction ss)
  case (Cons s ss)
  then have "composition_ok (sx_operations s)" using validate_composition_iff [of s] by (auto simp: and_then_Inr)
  then show ?case using Cons validate_bodies_accepted by (auto simp: and_then_Inr accepted_section_def)
qed simp

text \<open>C16. A patch that parses has at least one section, and every section is well composed: a nonempty path, a tag of four
  upper-case hexadecimal digits, at least one operation, a removal only on its own, a move only at the end, text bodies with at
  least one row, positive line numbers that fit the machine, and well-formed register names.\<close>

theorem parse_hashline_patch_accepted:
  assumes "parse_hashline_patch patch = Inr ss"
  shows "ss \<noteq> [] \<and> list_all accepted_section ss"
proof -
  obtain st where st: "parse_rows 0 (split_on LF patch) \<lparr>ps_sections = [], envelope_started = False, envelope_ended = False\<rparr> = Inr st"
      "ps_sections st \<noteq> []" "List.find (\<lambda>s. sx_operations s = []) (ps_sections st) = None"
      "validate_sections (ps_sections st) = Inr ()" "ss = ps_sections st"
    using assms by (auto simp: parse_hashline_patch_def and_then_Inr split: if_splits option.splits)
  have "\<forall>row \<in> set (split_on LF patch). LF \<notin> set row" using split_on_pieces [of _ LF patch] by simp
  then have "rows_ok st" by (intro parse_rows_ok [OF st(1)]) (simp_all add: rows_ok_def)
  then show ?thesis using st validate_sections_accepted [of ss] by (auto simp: rows_ok_def find_None_iff list_all_iff)
qed

theorem parse_hashline_patch_accepted_witness:
  "parse_hashline_patch (lit ''[a#00ff]'' @ [LF] @ lit ''CUT 2..$ @x'') =
     Inr [\<lparr>sx_header = \<lparr>sh_requested_path = lit ''a'', sh_tag = lit ''00FF''\<rparr>,
        sx_operations = [Cut (Range (Absolute 2) (EofRelative 0)) (Some (Named (lit ''x''))) 2], sx_line = 1\<rparr>]
   \<and> accepted_section \<lparr>sx_header = \<lparr>sh_requested_path = lit ''a'', sh_tag = lit ''00FF''\<rparr>,
        sx_operations = [Cut (Range (Absolute 2) (EofRelative 0)) (Some (Named (lit ''x''))) 2], sx_line = 1\<rparr>"
proof -
  have p: "parse_hashline_patch (lit ''[a#00ff]'' @ [LF] @ lit ''CUT 2..$ @x'') =
     Inr [\<lparr>sx_header = \<lparr>sh_requested_path = lit ''a'', sh_tag = lit ''00FF''\<rparr>,
        sx_operations = [Cut (Range (Absolute 2) (EofRelative 0)) (Some (Named (lit ''x''))) 2], sx_line = 1\<rparr>]"
    by code_simp
  then show ?thesis using parse_hashline_patch_accepted [OF p] by simp
qed

section \<open>Resolution and verification\<close>

lemma retains_whole: "retains coverage_whole_file = (\<lambda>_. True)"
  by (intro ext) (simp add: retains_def coverage_whole_file_def)

lemma bt_get_map_values: "bt_get (map (\<lambda>(n, r). (n, f r)) m) k = map_option f (bt_get m k)"
  by (induction m) (auto simp: bt_get_def)

text \<open>The record of a row of a file that was scanned whole.\<close>

lemma scan_bytes_rows:
  obtains s where "scan_bytes bs = Some s" "total_lines s = length (line_records bs)"
    "raw_record s = (\<lambda>n. if 0 < n \<and> n \<le> length (line_records bs) then Some (line_records bs ! (n - 1)) else None)"
    "is_seen s = (\<lambda>n. 0 < n \<and> n \<le> length (line_records bs))" "length (records s) = length (line_records bs)"
    "empty_file (boundary s) = (bs = [])" "bof_observed (boundary s)" "eof_observed (boundary s)"
proof -
  obtain s where s: "scan_bytes_with_coverage bs coverage_whole_file = Some s" "total_lines s = length (line_records bs)"
    "sn_retained_lines s = retained_of (retains coverage_whole_file) 1 0 (line_records bs)"
    "records s = map (\<lambda>(n, r). (n, rt_record r)) (sn_retained_lines s)"
    "sc_seen_lines (coverage s) = bt_keys (sn_retained_lines s)" "empty_file (boundary s) = (bs = [])"
    "bof_observed (boundary s)" "eof_observed (boundary s)"
    by (rule scan_bytes_with_coverage_spec)
  have ret: "sn_retained_lines s = retained_of (\<lambda>_. True) 1 0 (line_records bs)" using s(3) by (simp only: retains_whole)
  show ?thesis
  proof (rule that)
    show "raw_record s = (\<lambda>n. if 0 < n \<and> n \<le> length (line_records bs) then Some (line_records bs ! (n - 1)) else None)"
      by (intro ext) (auto simp: raw_record_def s(4) bt_get_map_values ret Let_def retained_of_get)
    have "is_seen s n \<longleftrightarrow> 0 < n \<and> n \<le> length (line_records bs)" for n
      using retained_of_keys [of n "\<lambda>_. True" 1 0 "line_records bs"]
      by (auto simp: is_seen_def coverage_is_seen_def s(5) bt_keys_def ret)
    then show "is_seen s = (\<lambda>n. 0 < n \<and> n \<le> length (line_records bs))" by (intro ext)
    have "length (retained_of (\<lambda>_. True) n off rs) = length rs" for n off rs
      using arg_cong [OF retained_of_all [of n off rs], of length] by simp
    then show "length (records s) = length (line_records bs)" by (simp add: s(4) ret)
  qed (use s in \<open>simp_all add: scan_bytes_whole\<close>)
qed

fun touched_rows :: "snapshot \<Rightarrow> resolved_address \<Rightarrow> nat list" where
  "touched_rows s WholeFile = [1..<Suc (total_lines s)]"
| "touched_rows s (AtSpan sp) = span_lines sp"
| "touched_rows s (AtGap g) = gap_anchors g"
| "touched_rows s _ = []"

text \<open>Every row a snapshot has shown is a row it retained.\<close>

definition seen_retained :: "snapshot \<Rightarrow> bool" where
  "seen_retained s \<longleftrightarrow> list_all (\<lambda>n. raw_record s n \<noteq> None) (sc_seen_lines (coverage s))"

lemma seen_retained_iff: "seen_retained s \<longleftrightarrow> (\<forall>n. is_seen s n \<longrightarrow> raw_record s n \<noteq> None)"
  by (auto simp: seen_retained_def list_all_iff is_seen_def coverage_is_seen_def)

lemma eligible_rows_seen: "check_eligibility s r = Inr () \<Longrightarrow> n \<in> set (touched_rows s r) \<Longrightarrow> is_seen s n"
  by (induction s r rule: check_eligibility.induct)
    (auto simp: list_ex_iff find_None_iff gap_anchors_def split: if_splits option.splits)

lemma exact_rows_equal:
  "verify_resolved s b r = Exact \<Longrightarrow> n \<in> set (touched_rows s r) \<Longrightarrow> raw_record s n = baseline_raw_record b n"
  by (induction s b r rule: verify_resolved.induct)
    (auto simp: list_ex_iff find_None_iff Let_def baseline_raw_record_def raw_record_def split: if_splits option.splits)

section \<open>Results on verification\<close>

text \<open>C2. An operation that verifies exactly touches only rows the tagged read showed, and the file still has each of them,
  at the same place and with the same bytes and terminator. For a removal or a move this is every row of the file.\<close>

theorem verify_exact_sound:
  assumes "verify_exact s b r = Exact" "baseline_from_bytes bytes = Some b" "seen_retained s"
  shows "list_all (\<lambda>n. is_seen s n \<and> 0 < n \<and> n \<le> length (line_records bytes)
      \<and> raw_record s n = Some (line_records bytes ! (n - 1))) (touched_rows s r)
    \<and> (r = WholeFile \<longrightarrow> total_lines s = length (line_records bytes))"
proof -
  have e: "check_eligibility s r = Inr ()" "verify_resolved s b r = Exact"
    using assms(1) by (auto simp: verify_exact_def split: sum.splits)
  obtain s' where s': "scan_bytes bytes = Some s'" "total_lines s' = length (line_records bytes)"
    "raw_record s' = (\<lambda>n. if 0 < n \<and> n \<le> length (line_records bytes) then Some (line_records bytes ! (n - 1)) else None)"
    by (rule scan_bytes_rows)
  have b: "bl_snapshot b = s'" using assms(2) s'(1) by (auto simp: baseline_from_bytes_def)
  have "is_seen s n \<and> 0 < n \<and> n \<le> length (line_records bytes) \<and> raw_record s n = Some (line_records bytes ! (n - 1))"
    if n: "n \<in> set (touched_rows s r)" for n
  proof -
    have seen: "is_seen s n" by (rule eligible_rows_seen [OF e(1) n])
    then have "raw_record s n \<noteq> None"
      using assms(3) by (simp add: seen_retained_iff)
    moreover have "raw_record s n = raw_record s' n" using exact_rows_equal [OF e(2) n] b by (simp add: baseline_raw_record_def)
    ultimately show ?thesis using s'(3) seen by (simp split: if_splits)
  qed
  moreover have "total_lines s = length (line_records bytes)" if "r = WholeFile"
    using e(2) that b s'(2) by (simp split: if_splits)
  ultimately show ?thesis by (simp add: list_all_iff)
qed

theorem verify_exact_sound_witness:
  "\<exists>s b. baseline_from_bytes [97, 10, 98] = Some b \<and> verify_exact s b (AtSpan \<lparr>sp_start = 1, sp_end = 2\<rparr>) = Exact
     \<and> raw_record s 2 = Some \<lparr>rl_content = [98], rl_terminator = NoTerm\<rparr>"
proof -
  have l: "line_records [97, 10, 98] = [\<lparr>rl_content = [97], rl_terminator = Lf\<rparr>, \<lparr>rl_content = [98], rl_terminator = NoTerm\<rparr>]"
    by code_simp
  obtain s where s: "scan_bytes [97, 10, 98] = Some s" "total_lines s = length (line_records [97, 10, 98])"
    "raw_record s = (\<lambda>n. if 0 < n \<and> n \<le> length (line_records [97, 10, 98]) then Some (line_records [97, 10, 98] ! (n - 1)) else None)"
    "is_seen s = (\<lambda>n. 0 < n \<and> n \<le> length (line_records [97, 10, 98]))"
    by (rule scan_bytes_rows)
  let ?b = "\<lparr>bl_bytes = [97, 10, 98], bl_snapshot = s\<rparr>"
  let ?r = "AtSpan \<lparr>sp_start = 1, sp_end = 2\<rparr>"
  have lines: "span_lines \<lparr>sp_start = 1, sp_end = 2\<rparr> = [1, 2]" by code_simp
  have b: "baseline_from_bytes [97, 10, 98] = Some ?b" using s(1) by (simp add: baseline_from_bytes_def)
  have v: "verify_exact s ?b ?r = Exact"
    using s(4) l lines by (simp add: verify_exact_def baseline_raw_record_def)
  have "seen_retained s"
    using s(3,4) by (simp add: seen_retained_iff)
  then have "raw_record s 2 = Some (line_records [97, 10, 98] ! 1)"
    using verify_exact_sound [OF v b] lines by simp
  then show ?thesis using b v l by (intro exI [of _ s] exI [of _ ?b]) simp
qed





lemma and_then_cases: "and_then r f = Inr y \<Longrightarrow> (\<And>x. r = Inr x \<Longrightarrow> f x = Inr y \<Longrightarrow> P) \<Longrightarrow> P"
  by (auto simp: and_then_def split: sum.splits)

lemma upt_step: "[i..<i + Suc n] = i # [i + 1..<i + 1 + n]"
  by (simp add: upt_conv_Cons del: upt_Suc)

lemma resolve_operations_eligible:
  "resolve_operations s i opers = Inr rs \<Longrightarrow>
   map fst rs = [i..<i + length opers] \<and> list_all (\<lambda>(_, a). check_eligibility s a = Inr ()) rs"
proof (induction opers arbitrary: i rs)
  case (Cons oper opers)
  from Cons.prems obtain r rs' where "check_eligibility s r = Inr ()" "resolve_operations s (i + 1) opers = Inr rs'" "rs = (i, r) # rs'"
    by (auto elim!: and_then_cases)
  then show ?case using Cons.IH [of "i + 1" rs'] upt_step [of i "length opers"] by (simp del: upt_Suc)
qed simp

lemma equivalent_snapshots_rel:
  "equivalent_snapshots s s" "equivalent_snapshots a b \<Longrightarrow> equivalent_snapshots b a"
  "equivalent_snapshots a b \<Longrightarrow> equivalent_snapshots b c \<Longrightarrow> equivalent_snapshots a c"
  by (auto simp: equivalent_snapshots_def)

definition section_eligible :: "resolved_patch_section \<Rightarrow> bool" where
  "section_eligible r \<longleftrightarrow> list_all (\<lambda>(_, a). check_eligibility (rp_snapshot r) a = Inr ()) (rp_operations r)"

definition agrees :: "(rstr, snapshot) btree_map \<Rightarrow> resolved_patch_section \<Rightarrow> bool" where
  "agrees views r \<longleftrightarrow> (\<exists>s. bt_get views (rp_canonical_path r) = Some s \<and> equivalent_snapshots s (rp_snapshot r))"

text \<open>The view table grows, and at the end every section agrees with the view of its path.\<close>

lemma resolve_sections_spec:
  assumes "resolve_sections env canon from views i ss store = (Inr rs, store')" "bt_inv views" "store_inv store"
  shows "map rp_section_index rs = [i..<i + length ss] \<and> list_all section_eligible rs \<and> store_inv store' \<and>
    (\<exists>views'. bt_inv views' \<and> (\<forall>p s. bt_get views p = Some s \<longrightarrow> bt_get views' p = Some s) \<and> list_all (agrees views') rs)"
  using assms
proof (induction ss arbitrary: views i store rs)
  case (Cons sect ss)
  obtain path s st1 opers rs1 where step:
      "resolve_snapshot env store path (sh_tag (sx_header sect)) = (Inr s, st1)"
      "case bt_get views path of Some existing \<Rightarrow> equivalent_snapshots existing s | None \<Rightarrow> True"
      "resolve_operations s 0 (sx_operations sect) = Inr opers"
      "resolve_sections env canon from (case bt_get views path of Some _ \<Rightarrow> views | None \<Rightarrow> bt_insert path s views) (i + 1) ss st1
        = (Inr rs1, store')"
      "rs = \<lparr>rp_section_index = i, rp_canonical_path = path, rp_snapshot = s, rp_operations = opers\<rparr> # rs1"
    using Cons.prems(1) by (auto simp: Let_def split: sum.splits prod.splits if_splits option.splits)
  let ?views = "case bt_get views path of Some _ \<Rightarrow> views | None \<Rightarrow> bt_insert path s views"
  have inv: "bt_inv ?views" using Cons.prems(2) by (auto simp: bt_insert_inv split: option.splits)
  have "store_inv st1"
    using step(1) lookup_inv [OF Cons.prems(3)]
    by (auto simp: resolve_snapshot_def split: sum.splits prod.splits) (metis snd_conv)
  from Cons.IH [OF step(4) inv this] obtain views' where IH: "map rp_section_index rs1 = [i + 1..<i + 1 + length ss]"
      "list_all section_eligible rs1" "store_inv store'" "bt_inv views'"
      "\<forall>p s. bt_get ?views p = Some s \<longrightarrow> bt_get views' p = Some s" "list_all (agrees views') rs1" by blast
  have "bt_get ?views p = Some t" if "bt_get views p = Some t" for p t
    using that Cons.prems(2) by (cases "bt_get views path") (auto simp: bt_get_insert)
  then have mono: "\<forall>p t. bt_get views p = Some t \<longrightarrow> bt_get views' p = Some t" using IH(5) by blast
  have "\<exists>t. bt_get ?views path = Some t \<and> equivalent_snapshots t s"
    using step(2) Cons.prems(2) by (auto simp: bt_get_insert equivalent_snapshots_rel(1) split: option.splits)
  then have "agrees views' \<lparr>rp_section_index = i, rp_canonical_path = path, rp_snapshot = s, rp_operations = opers\<rparr>"
    using IH(5) by (auto simp: agrees_def)
  moreover have "section_eligible \<lparr>rp_section_index = i, rp_canonical_path = path, rp_snapshot = s, rp_operations = opers\<rparr>"
    using resolve_operations_eligible [OF step(3)] by (simp add: section_eligible_def)
  ultimately show ?case using IH mono step(5) upt_step [of i "length ss"] by (auto simp del: upt_Suc)
qed (auto intro: exI [of _ views])


definition sample_patch :: "patch_section list" where
  "sample_patch = [\<lparr>sx_header = \<lparr>sh_requested_path = lit ''f'', sh_tag = lit ''00a1''\<rparr>,
     sx_operations = [Cut (Line (Absolute 1)) None 2, Put Bof (Register Anonymous) 3], sx_line = 1\<rparr>]"


end
