(* ===== verification/Hashline_Recovery.thy ===== *)
theory Hashline_Recovery
  imports Hashline_Syntax
begin

text \<open>
  Recovery of a stale span, \<^verbatim>\<open>crates/aft/src/hashline/recovery/mod.rs\<close>: when the rows of an addressed span are no longer
  where the tagged read saw them, the baseline is searched for the same rows elsewhere, and the operation moves there only if
  there is exactly one place.
\<close>

section \<open>Reports\<close>

record remap_recovery =
  rm_old_span :: line_span
  rm_new_span :: line_span
  rm_applied :: bool
  rm_backup_id :: "rstr option"

definition remap_validate :: "remap_recovery \<Rightarrow> hashline_rejection + unit" where
  "remap_validate r =
     (case (rm_applied r, rm_backup_id r) of
        (True, None) \<Rightarrow> Inl (rejection_parse (lit ''remap_recovery applied:true requires a real backup_id''))
      | (False, Some _) \<Rightarrow> Inl (rejection_parse (lit ''remap_recovery applied:false forbids backup_id''))
      | _ \<Rightarrow> Inr ())"

definition remap_try_new :: "line_span \<Rightarrow> line_span \<Rightarrow> bool \<Rightarrow> rstr option \<Rightarrow> hashline_rejection + remap_recovery" where
  "remap_try_new old new applied backup_id =
     (let report = \<lparr>rm_old_span = old, rm_new_span = new, rm_applied = applied, rm_backup_id = backup_id\<rparr>
      in and_then (remap_validate report) (\<lambda>_. Inr report))"

definition after_dynamic_backup_failure :: "remap_recovery \<Rightarrow> remap_recovery" where
  "after_dynamic_backup_failure r =
     \<lparr>rm_old_span = rm_old_span r, rm_new_span = rm_new_span r, rm_applied = False, rm_backup_id = None\<rparr>"

definition remap_report_after_dynamic_backup_failure :: "line_span \<Rightarrow> line_span \<Rightarrow> remap_recovery" where
  "remap_report_after_dynamic_backup_failure old new =
     \<lparr>rm_old_span = old, rm_new_span = new, rm_applied = False, rm_backup_id = None\<rparr>"

datatype recovery_intent = Preview | ApplyUnder rstr | KnownRollbackUnavailable

definition report_for_intent :: "line_span \<Rightarrow> line_span \<Rightarrow> recovery_intent \<Rightarrow> hashline_rejection + remap_recovery" where
  "report_for_intent old new intent =
     (case intent of
        ApplyUnder backup_id \<Rightarrow>
          if backup_id = [] then Inl (rejection_parse (lit ''apply recovery requires a non-empty backup_id''))
          else remap_try_new old new True (Some backup_id)
      | _ \<Rightarrow> remap_try_new old new False None)"

section \<open>Landing search\<close>

datatype landing_search_result = UniqueLanding line_span | NoLanding | AmbiguousLandings "line_span list"

fun landings_of :: "landing_search_result \<Rightarrow> line_span list" where
  "landings_of (UniqueLanding sp) = [sp]"
| "landings_of NoLanding = []"
| "landings_of (AmbiguousLandings sps) = sps"

fun records_match_at :: "baseline \<Rightarrow> nat \<Rightarrow> raw_line_record list \<Rightarrow> bool" where
  "records_match_at b line [] = True"
| "records_match_at b line (r # rs) = (baseline_raw_record b line = Some r \<and> records_match_at b (line + 1) rs)"

definition landings_in :: "baseline \<Rightarrow> raw_line_record list \<Rightarrow> line_span list" where
  "landings_in b expected =
     concat (map (\<lambda>from.
         if records_match_at b from expected
         then (case line_span_new from (from + length expected - 1) of Some sp \<Rightarrow> [sp] | None \<Rightarrow> [])
         else [])
       [1..<total_lines (bl_snapshot b) + 1 - length expected + 1])"

definition find_verbatim_landings :: "baseline \<Rightarrow> raw_line_record list \<Rightarrow> landing_search_result" where
  "find_verbatim_landings b expected =
     (if expected = [] then NoLanding
      else if length expected > total_lines (bl_snapshot b) then NoLanding
      else (case landings_in b expected of
              [] \<Rightarrow> NoLanding
            | [sp] \<Rightarrow> UniqueLanding sp
            | sps \<Rightarrow> AmbiguousLandings sps))"

section \<open>Recovery\<close>

record remapped_span =
  rs_old_span :: line_span
  rs_new_span :: line_span
  rs_report :: remap_recovery
  rs_remapped_address :: resolved_address

datatype recovery_decision = NotNeeded | Remapped remapped_span

definition recover_addressed_span :: "recovery_plan \<Rightarrow> baseline \<Rightarrow> recovery_intent \<Rightarrow> hashline_rejection + remapped_span" where
  "recover_addressed_span plan b intent =
     (case find_verbatim_landings b (rc_expected_records plan) of
        UniqueLanding new \<Rightarrow>
          and_then (report_for_intent (rc_old_span plan) new intent) (\<lambda>report.
            Inr \<lparr>rs_old_span = rc_old_span plan, rs_new_span = new, rs_report = report, rs_remapped_address = AtSpan new\<rparr>)
      | NoLanding \<Rightarrow>
          Inl (rejection_stale_recovery (lit ''addressed content no longer occurs verbatim in the Phase-1 baseline''))
      | AmbiguousLandings landings \<Rightarrow>
          Inl (rejection_ambiguous_recovery
            (lit ''addressed content has '' @ show_nat (length landings) @ lit '' verbatim landings in the Phase-1 baseline'')))"

fun recover_from_verification :: "verification_outcome \<Rightarrow> baseline \<Rightarrow> recovery_intent \<Rightarrow> hashline_rejection + recovery_decision" where
  "recover_from_verification Exact b intent = Inr NotNeeded"
| "recover_from_verification (RecoveryRequired plan) b intent =
     and_then (recover_addressed_span plan b intent) (\<lambda>r. Inr (Remapped r))"
| "recover_from_verification (Rejected rejection) b intent = Inl rejection"
| "recover_from_verification (BlockNeedsResolution anchor) b intent =
     Inl (rejection_eligibility CodeBoundaryIneligible
       (lit ''block anchor '' @ show_nat anchor @ lit '' was not expanded before recovery''))"

definition verify_and_recover :: "snapshot \<Rightarrow> baseline \<Rightarrow> resolved_address \<Rightarrow> recovery_intent \<Rightarrow> hashline_rejection + recovery_decision" where
  "verify_and_recover s b a intent = recover_from_verification (verify_exact s b a) b intent"

fun remap_resolved_address :: "resolved_address \<Rightarrow> line_span \<Rightarrow> line_span \<Rightarrow> hashline_rejection + resolved_address" where
  "remap_resolved_address (AtSpan sp) old new =
     (if sp = old then Inr (AtSpan new)
      else Inl (rejection_parse
        (lit ''cannot remap span '' @ show_nat (sp_start sp) @ lit ''-'' @ show_nat (sp_end sp) @ lit '' using old_span ''
          @ show_nat (sp_start old) @ lit ''-'' @ show_nat (sp_end old))))"
| "remap_resolved_address _ old new =
     Inl (rejection_stale_verification (lit ''required-anchor and non-span addresses never enter verbatim remap recovery''))"

fun remap_resolved_operations ::
    "(nat \<times> resolved_address) list \<Rightarrow> line_span \<Rightarrow> line_span \<Rightarrow> hashline_rejection + (nat \<times> resolved_address) list" where
  "remap_resolved_operations [] old new = Inr []"
| "remap_resolved_operations ((i, a) # ops) old new =
     and_then
       (case a of
          AtGap _ \<Rightarrow> Inl (rejection_stale_verification (lit ''required-anchor and block addresses never enter verbatim remap recovery''))
        | BlockGapAnchor _ _ \<Rightarrow> Inl (rejection_stale_verification (lit ''required-anchor and block addresses never enter verbatim remap recovery''))
        | BlockAnchor _ \<Rightarrow> Inl (rejection_stale_verification (lit ''required-anchor and block addresses never enter verbatim remap recovery''))
        | AtSpan sp \<Rightarrow> Inr (i, if sp = old then AtSpan new else a)
        | WholeFile \<Rightarrow> Inr (i, a))
       (\<lambda>r. and_then (remap_resolved_operations ops old new) (\<lambda>rs. Inr (r # rs)))"

section \<open>Landings\<close>

text \<open>The rows of \<open>rs\<close>, counted from one, at which the sequence \<open>xs\<close> starts.\<close>

definition occurrences :: "'a list \<Rightarrow> 'a list \<Rightarrow> nat set" where
  "occurrences xs rs = {n. 0 < n \<and> n + length xs \<le> length rs + 1 \<and> take (length xs) (drop (n - 1) rs) = xs}"

text \<open>The baseline of some bytes holds the bytes' rows.\<close>

definition baseline_of :: "byte list \<Rightarrow> baseline \<Rightarrow> bool" where
  "baseline_of bs b \<longleftrightarrow> bl_bytes b = bs \<and> total_lines (bl_snapshot b) = length (line_records bs)
    \<and> baseline_raw_record b = (\<lambda>n. if 0 < n \<and> n \<le> length (line_records bs) then Some (line_records bs ! (n - 1)) else None)"

lemma baseline_from_bytes_of:
  assumes "baseline_from_bytes bs = Some b"
  shows "baseline_of bs b"
proof -
  obtain s where "scan_bytes bs = Some s" "total_lines s = length (line_records bs)"
    "raw_record s = (\<lambda>n. if 0 < n \<and> n \<le> length (line_records bs) then Some (line_records bs ! (n - 1)) else None)"
    by (rule scan_bytes_rows)
  then show ?thesis using assms by (auto simp: baseline_from_bytes_def baseline_of_def baseline_raw_record_def)
qed

lemma records_match_at_iff:
  assumes "baseline_of bs b" "0 < n"
  shows "records_match_at b n xs \<longleftrightarrow> take (length xs) (drop (n - 1) (line_records bs)) = xs"
  using assms(2)
proof (induction xs arbitrary: n)
  case (Cons x xs)
  let ?rs = "line_records bs"
  have "baseline_raw_record b n = Some x \<longleftrightarrow> n \<le> length ?rs \<and> ?rs ! (n - 1) = x"
    using assms(1) Cons.prems by (auto simp: baseline_of_def)
  moreover have "records_match_at b (n + 1) xs \<longleftrightarrow> take (length xs) (drop n ?rs) = xs" using Cons.IH [of "n + 1"] by simp
  moreover have "drop (n - 1) ?rs = ?rs ! (n - 1) # drop n ?rs" if "n \<le> length ?rs"
    using that Cons.prems by (metis Cons_nth_drop_Suc Suc_pred' Suc_le_lessD)
  ultimately show ?case
    by (cases "n \<le> length ?rs") (use Cons.prems in auto)
qed simp

lemma landings_in_eq:
  assumes "baseline_of bs b" "xs \<noteq> []"
  shows "landings_in b xs = map (\<lambda>n. \<lparr>sp_start = n, sp_end = n + length xs - 1\<rparr>)
      (filter (\<lambda>n. n \<in> occurrences xs (line_records bs)) [1..<length (line_records bs) + 1])"
proof -
  let ?rs = "line_records bs" and ?f = "\<lambda>n. \<lparr>sp_start = n, sp_end = n + length xs - 1\<rparr>"
  let ?k = "length ?rs + 1 - length xs + 1"
  have total: "total_lines (bl_snapshot b) = length ?rs" using assms(1) by (simp add: baseline_of_def)
  have one: "(if records_match_at b n xs then case line_span_new n (n + length xs - 1) of Some sp \<Rightarrow> [sp] | None \<Rightarrow> [] else [])
      = (if n \<in> occurrences xs ?rs then [?f n] else [])" if "0 < n" for n
  proof -
    have "n + length xs \<le> length ?rs + 1" if "take (length xs) (drop (n - 1) ?rs) = xs"
      using arg_cong [OF that, of length] \<open>0 < n\<close> assms(2) by (cases "length xs") auto
    moreover have "n \<le> n + length xs - 1" using assms(2) by (cases xs) auto
    ultimately show ?thesis
      using that records_match_at_iff [OF assms(1) that, of xs] by (auto simp: occurrences_def line_span_new_def)
  qed
  have sel: "concat (map (\<lambda>n. if P n then [g n] else []) ns) = map g (filter P ns)" for P :: "nat \<Rightarrow> bool" and g :: "nat \<Rightarrow> line_span" and ns
    by (induction ns) auto
  have "landings_in b xs = concat (map (\<lambda>n. if n \<in> occurrences xs ?rs then [?f n] else []) [1..<?k])"
    unfolding landings_in_def total by (intro arg_cong [of _ _ concat] map_cong refl one) auto
  also have "\<dots> = map ?f (filter (\<lambda>n. n \<in> occurrences xs ?rs) [1..<?k])" by (rule sel)
  also have "filter (\<lambda>n. n \<in> occurrences xs ?rs) [1..<?k] = filter (\<lambda>n. n \<in> occurrences xs ?rs) [1..<length ?rs + 1]"
  proof -
    have "?k \<le> length ?rs + 1" using assms(2) by (cases xs) auto
    then have "[1..<length ?rs + 1] = [1..<?k] @ [?k..<length ?rs + 1]"
      using upt_add_eq_append [of 1 ?k "length ?rs + 1 - ?k"] by simp
    moreover have "filter (\<lambda>n. n \<in> occurrences xs ?rs) [?k..<length ?rs + 1] = []"
      by (auto simp: filter_empty_conv occurrences_def)
    ultimately show ?thesis by simp
  qed
  finally show ?thesis .
qed

lemma occurrences_listed:
  fixes xs rs :: "'a list"
  assumes "xs \<noteq> []"
  defines "L \<equiv> filter (\<lambda>n. n \<in> occurrences xs rs) [1..<length rs + 1]"
  shows "set L = occurrences xs rs" "length L = card (occurrences xs rs)"
proof -
  show "set L = occurrences xs rs"
    using assms(1) by (cases xs) (auto simp: L_def occurrences_def)
  then show "length L = card (occurrences xs rs)"
    using distinct_card [of L] by (simp add: L_def)
qed

lemma find_verbatim_landings_spec:
  assumes "baseline_of bs b" "xs \<noteq> []"
  defines "L \<equiv> occurrences xs (line_records bs)"
  shows "L = {} \<Longrightarrow> find_verbatim_landings b xs = NoLanding"
    and "L = {n} \<Longrightarrow> find_verbatim_landings b xs = UniqueLanding \<lparr>sp_start = n, sp_end = n + length xs - 1\<rparr>"
    and "card L \<ge> 2 \<Longrightarrow> \<exists>sps. find_verbatim_landings b xs = AmbiguousLandings sps \<and> length sps = card L"
proof -
  let ?rs = "line_records bs" and ?f = "\<lambda>n. \<lparr>sp_start = n, sp_end = n + length xs - 1\<rparr>"
  define N where "N = filter (\<lambda>n. n \<in> occurrences xs ?rs) [1..<length ?rs + 1]"
  have eq: "landings_in b xs = map ?f N" unfolding N_def by (rule landings_in_eq [OF assms(1,2)])
  have N: "set N = L" "length N = card L" using occurrences_listed [OF assms(2)] by (simp_all add: L_def N_def)
  have total: "total_lines (bl_snapshot b) = length ?rs" using assms(1) by (simp add: baseline_of_def)
  have wide: "L = {}" if "length ?rs < length xs" using that by (auto simp: L_def occurrences_def)
  have find: "find_verbatim_landings b xs =
      (case map ?f N of [] \<Rightarrow> NoLanding | [sp] \<Rightarrow> UniqueLanding sp | sps \<Rightarrow> AmbiguousLandings sps)"
    if "\<not> length ?rs < length xs"
    using that assms(2) by (simp add: find_verbatim_landings_def total eq)
  show "find_verbatim_landings b xs = NoLanding" if "L = {}"
  proof (cases "length ?rs < length xs")
    case True
    then show ?thesis by (simp add: find_verbatim_landings_def total)
  next
    case False
    moreover have "N = []" using N(1) that by simp
    ultimately show ?thesis using find by simp
  qed
  show "find_verbatim_landings b xs = UniqueLanding (?f n)" if L: "L = {n}"
  proof -
    have "length N = 1" using N(2) L by simp
    then obtain m where "N = [m]" by (auto simp: length_Suc_conv)
    moreover from this have "m = n" using N(1) L by simp
    ultimately show ?thesis using find wide L by auto
  qed
  show "\<exists>sps. find_verbatim_landings b xs = AmbiguousLandings sps \<and> length sps = card L" if c: "card L \<ge> 2"
  proof -
    have "length N \<ge> 2" using N(2) c by simp
    then obtain m n ns where "N = m # n # ns" by (auto simp: Suc_le_length_iff numeral_2_eq_2)
    moreover have "\<not> length ?rs < length xs" using wide c by auto
    ultimately show ?thesis using find N(2) by auto
  qed
qed

lemma recover_addressed_span_eq:
  assumes "baseline_of bs b" "xs \<noteq> []" "rc_expected_records plan = xs"
  defines "L \<equiv> occurrences xs (line_records bs)"
  defines "new \<equiv> \<lparr>sp_start = the_elem L, sp_end = the_elem L + length xs - 1\<rparr>"
  shows "recover_addressed_span plan b intent =
     (if L = {} then Inl (rejection_stale_recovery (lit ''addressed content no longer occurs verbatim in the Phase-1 baseline''))
      else if card L = 1 then
        and_then (report_for_intent (rc_old_span plan) new intent) (\<lambda>report.
          Inr \<lparr>rs_old_span = rc_old_span plan, rs_new_span = new, rs_report = report, rs_remapped_address = AtSpan new\<rparr>)
      else Inl (rejection_ambiguous_recovery
        (lit ''addressed content has '' @ show_nat (card L) @ lit '' verbatim landings in the Phase-1 baseline'')))"
proof -
  note spec = find_verbatim_landings_spec [OF assms(1,2), folded L_def]
  have fin: "finite L" unfolding L_def using occurrences_listed(1) [OF assms(2)] by (metis List.finite_set)
  consider "L = {}" | n where "L = {n}" | "card L \<ge> 2" "L \<noteq> {}"
    using fin card_1_singletonE [of L] by (cases "card L") (auto simp: Suc_le_eq)
  then show ?thesis
  proof cases
    case 1
    then show ?thesis using spec(1) assms(3) by (simp add: recover_addressed_span_def)
  next
    case (2 n)
    then show ?thesis using spec(2) assms(3) by (simp add: recover_addressed_span_def new_def)
  next
    case 3
    then show ?thesis using spec(3) assms(3) by (auto simp: recover_addressed_span_def)
  qed
qed

lemma concat_somes:
  "\<forall>n \<in> set ns. f n \<noteq> None \<Longrightarrow> concat (map (\<lambda>n. case f n of Some r \<Rightarrow> [r] | None \<Rightarrow> []) ns) = map (\<lambda>n. the (f n)) ns"
  by (induction ns) auto

lemma records_match_rows:
  "\<forall>n \<in> set [i..<i + k]. f n \<noteq> None \<Longrightarrow>
   records_match_at b i (map (\<lambda>n. the (f n)) [i..<i + k]) \<longleftrightarrow> (\<forall>n \<in> set [i..<i + k]. f n = baseline_raw_record b n)"
proof (induction k arbitrary: i)
  case (Suc k)
  show ?case using Suc.prems Suc.IH [of "i + 1"] unfolding upt_step by auto
qed simp

lemma rows_at_span:
  assumes "baseline_of bs b" "sp_start sp \<le> sp_end sp" "\<forall>n \<in> set (span_lines sp). raw_record s n \<noteq> None"
  shows "list_ex (\<lambda>n. raw_record s n \<noteq> baseline_raw_record b n) (span_lines sp)
    \<longleftrightarrow> sp_start sp \<notin> occurrences (map (\<lambda>n. the (raw_record s n)) (span_lines sp)) (line_records bs)"
proof -
  let ?a = "sp_start sp" and ?k = "Suc (sp_end sp - sp_start sp)" and ?rs = "line_records bs"
  let ?xs = "map (\<lambda>n. the (raw_record s n)) (span_lines sp)"
  have lines: "span_lines sp = [?a..<?a + ?k]" using assms(2) by (simp add: span_lines_def)
  have match: "records_match_at b ?a ?xs \<longleftrightarrow> (\<forall>n \<in> set (span_lines sp). raw_record s n = baseline_raw_record b n)"
    using records_match_rows [of ?a ?k "raw_record s" b] assms(3) unfolding lines by blast
  show ?thesis
  proof (cases "?a = 0")
    case True
    have "baseline_raw_record b 0 = None" using assms(1) by (simp add: baseline_of_def)
    moreover have "0 \<in> set (span_lines sp)" using True lines by auto
    ultimately have "list_ex (\<lambda>n. raw_record s n \<noteq> baseline_raw_record b n) (span_lines sp)"
      using assms(3) unfolding list_ex_iff by metis
    then show ?thesis using True by (simp add: occurrences_def)
  next
    case False
    have "?a + length ?xs \<le> length ?rs + 1" if "take (length ?xs) (drop (?a - 1) ?rs) = ?xs"
      using arg_cong [OF that, of length] False unfolding lines by simp
    then have "?a \<in> occurrences ?xs ?rs \<longleftrightarrow> records_match_at b ?a ?xs"
      using records_match_at_iff [OF assms(1), of ?a ?xs] False unfolding occurrences_def by blast
    then show ?thesis using match unfolding list_ex_iff by blast
  qed
qed

lemma report_pairing:
  "report_for_intent old new intent = Inr report \<Longrightarrow>
     (case rm_backup_id report of None \<Rightarrow> \<not> rm_applied report | Some i \<Rightarrow> rm_applied report \<and> i \<noteq> [] \<and> intent = ApplyUnder i)"
  by (auto simp: report_for_intent_def remap_try_new_def remap_validate_def and_then_def split: recovery_intent.splits if_splits)



end
