(* ===== verification/Hashline_Edits.thy ===== *)
theory Hashline_Edits
  imports Hashline_Syntax "HOL-Library.Multiset"
begin

text \<open>
  Line edits of the hashline apply phase, \<^verbatim>\<open>crates/aft/src/hashline/apply/edits.rs\<close> and
  \<^verbatim>\<open>crates/aft/src/hashline/apply/region.rs\<close>: the lowered edits and their replacement groups, the coalescing of the edits of an operation,
  the materialisation of an edit list on the rows of a file, the joining of rows to bytes, and the affected region.

  Materialisation walks the rows once; it agrees with the splice implementation that the module keeps as its oracle, on every
  list of edits.
\<close>

section \<open>Edits and groups\<close>

datatype insert_place = PlaceBefore | PlaceAfter | PlaceBof | PlaceEof

datatype insert_mode = Plain | Replacement

datatype line_edit =
  Insert nat insert_place rstr insert_mode nat
| Delete nat nat

fun edit_op_index :: "line_edit \<Rightarrow> nat" where
  "edit_op_index (Insert _ _ _ _ oi) = oi"
| "edit_op_index (Delete _ oi) = oi"

record replacement_group =
  gr_insert_indices :: "nat list"
  gr_delete_indices :: "nat list"
  gr_payload :: "rstr list"
  gr_start_line :: nat
  gr_end_line :: nat
  gr_op_index :: nat

text \<open>The two loops of \<^verbatim>\<open>find_replacement_group\<close>: each consumes edits from index \<open>i\<close> on and gives what it
  collected and the index and edits at which it stopped.\<close>

fun group_inserts :: "nat \<Rightarrow> nat \<Rightarrow> nat \<Rightarrow> line_edit list \<Rightarrow> nat list \<times> rstr list \<times> nat \<times> line_edit list" where
  "group_inserts anchor oi i (Insert a PlaceBefore text Replacement oi' # es) =
     (if a = anchor \<and> oi' = oi
      then (let (is, ps, j, rest) = group_inserts anchor oi (i + 1) es in (i # is, text # ps, j, rest))
      else ([], [], i, Insert a PlaceBefore text Replacement oi' # es))"
| "group_inserts anchor oi i es = ([], [], i, es)"

fun group_deletes :: "nat \<Rightarrow> nat \<Rightarrow> nat \<Rightarrow> line_edit list \<Rightarrow> nat list \<times> nat" where
  "group_deletes oi expected i (Delete line oi' # es) =
     (if line = expected \<and> oi' = oi
      then (let (is, e) = group_deletes oi (expected + 1) (i + 1) es in (i # is, e))
      else ([], expected))"
| "group_deletes oi expected i es = ([], expected)"

definition find_replacement_group :: "line_edit list \<Rightarrow> nat \<Rightarrow> replacement_group option" where
  "find_replacement_group edits start =
     (case nth_opt edits start of
        Some (Insert anchor PlaceBefore _ Replacement oi) \<Rightarrow>
          (let (insert_indices, payload, i, rest) = group_inserts anchor oi start (drop start edits);
               (delete_indices, expected) = group_deletes oi anchor i rest
           in if delete_indices = [] then None
              else Some \<lparr>gr_insert_indices = insert_indices, gr_delete_indices = delete_indices, gr_payload = payload,
                     gr_start_line = anchor, gr_end_line = expected - 1, gr_op_index = oi\<rparr>)
      | _ \<Rightarrow> None)"

section \<open>Coalescing\<close>

definition deleted_lines :: "line_edit list \<Rightarrow> nat list" where
  "deleted_lines edits = concat (map (\<lambda>e. case e of Delete line _ \<Rightarrow> [line] | _ \<Rightarrow> []) edits)"

definition replacement_texts :: "line_edit list \<Rightarrow> rstr list" where
  "replacement_texts edits = concat (map (\<lambda>e. case e of Insert _ _ text Replacement _ \<Rightarrow> [text] | _ \<Rightarrow> []) edits)"

definition is_plain :: "line_edit \<Rightarrow> bool" where
  "is_plain e = (case e of Insert _ _ _ Plain _ \<Rightarrow> True | _ \<Rightarrow> False)"

definition coalesce_one_op :: "line_edit list \<Rightarrow> line_edit list" where
  "coalesce_one_op edits =
     (let deletes = deleted_lines edits; replacements = replacement_texts edits in
      if deletes = [] \<or> replacements = [] then edits
      else
        (let deletes = remdups_adj (sort deletes) in
         if \<not> successively (\<lambda>a b. b = saturating_add a 1) deletes then edits
         else
           (let from = hd deletes; to = last deletes; oi = edit_op_index (hd edits) in
            filter is_plain edits
            @ map (\<lambda>text. Insert from PlaceBefore text Replacement oi) replacements
            @ map (\<lambda>line. Delete line oi) [from..<Suc to])))"

definition group_by_op :: "line_edit list \<Rightarrow> nat list \<times> (nat, line_edit list) btree_map" where
  "group_by_op edits =
     foldl (\<lambda>(op_order, by_op) e.
       (let oi = edit_op_index e in
        case bt_get by_op oi of
          None \<Rightarrow> (op_order @ [oi], bt_insert oi [e] by_op)
        | Some es \<Rightarrow> (op_order, bt_insert oi (es @ [e]) by_op)))
      ([], []) edits"

definition coalesce_replacement_edits :: "line_edit list \<Rightarrow> line_edit list" where
  "coalesce_replacement_edits edits =
     (if edits = [] then []
      else (let (op_order, by_op) = group_by_op edits in
        fst (foldl (\<lambda>(out, by_op) oi.
              (out @ coalesce_one_op (case bt_get by_op oi of Some es \<Rightarrow> es | None \<Rightarrow> []), bt_remove oi by_op))
            ([], by_op) op_order)))"

section \<open>Materialisation\<close>

definition push_bucket :: "nat \<Rightarrow> line_edit \<Rightarrow> (nat, line_edit list) btree_map \<Rightarrow> (nat, line_edit list) btree_map" where
  "push_bucket line e by_line =
     bt_insert line ((case bt_get by_line line of Some es \<Rightarrow> es | None \<Rightarrow> []) @ [e]) by_line"

text \<open>The first loop: rows for the start of the file, rows for its end, and the edits of each line.\<close>

fun bucket_edit ::
    "(nat, line_edit list) btree_map \<times> rstr list \<times> rstr list \<Rightarrow> line_edit \<Rightarrow> (nat, line_edit list) btree_map \<times> rstr list \<times> rstr list" where
  "bucket_edit (by_line, bof, eof) (Insert _ PlaceBof text _ _) = (by_line, bof @ [text], eof)"
| "bucket_edit (by_line, bof, eof) (Insert _ PlaceEof text _ _) = (by_line, bof, eof @ [text])"
| "bucket_edit (by_line, bof, eof) (Insert anchor place text mode oi) =
     (push_bucket anchor (Insert anchor place text mode oi) by_line, bof, eof)"
| "bucket_edit (by_line, bof, eof) (Delete line oi) = (push_bucket line (Delete line oi) by_line, bof, eof)"

definition bucket_edits :: "line_edit list \<Rightarrow> (nat, line_edit list) btree_map \<times> rstr list \<times> rstr list" where
  "bucket_edits edits = foldl bucket_edit ([], [], []) edits"

definition is_delete :: "line_edit \<Rightarrow> bool" where
  "is_delete e = (case e of Delete _ _ \<Rightarrow> True | _ \<Rightarrow> False)"

definition before_texts :: "insert_mode \<Rightarrow> line_edit list \<Rightarrow> rstr list" where
  "before_texts mode bucket =
     concat (map (\<lambda>e. case e of Insert _ PlaceBefore text m _ \<Rightarrow> if m = mode then [text] else [] | _ \<Rightarrow> []) bucket)"

definition after_texts :: "line_edit list \<Rightarrow> rstr list" where
  "after_texts bucket = concat (map (\<lambda>e. case e of Insert _ PlaceAfter text _ _ \<Rightarrow> [text] | _ \<Rightarrow> []) bucket)"

definition append_line_bucket :: "rstr list \<Rightarrow> rstr option \<Rightarrow> line_edit list \<Rightarrow> rstr list" where
  "append_line_bucket out current bucket =
     out @ before_texts Plain bucket @ before_texts Replacement bucket
       @ (if list_ex is_delete bucket then [] else (case current of Some row \<Rightarrow> [row] | None \<Rightarrow> []))
       @ after_texts bucket"

fun materialize_rows :: "(nat, line_edit list) btree_map \<Rightarrow> nat \<Rightarrow> rstr list \<Rightarrow> rstr list \<Rightarrow> rstr list" where
  "materialize_rows by_line index [] out = out"
| "materialize_rows by_line index (current # rows) out =
     materialize_rows by_line (index + 1) rows
       (case bt_get by_line (index + 1) of
          Some bucket \<Rightarrow> append_line_bucket out (Some current) bucket
        | None \<Rightarrow> out @ [current])"

definition materialize_edits :: "rstr list \<Rightarrow> line_edit list \<Rightarrow> rstr list" where
  "materialize_edits original_lines edits =
     (let (by_line, bof, eof) = bucket_edits edits;
          out = materialize_rows by_line 0 original_lines [];
          out = (case bt_get by_line (length original_lines + 1) of
              Some bucket \<Rightarrow> append_line_bucket out None bucket
            | None \<Rightarrow> out);
          out = (case bt_get by_line 0 of
              Some bucket \<Rightarrow>
                (case out of
                   first # rows \<Rightarrow> append_line_bucket [] (Some first) bucket @ rows
                 | [] \<Rightarrow> append_line_bucket [] None bucket)
            | None \<Rightarrow> out)
      in bof @ out @ eof)"

text \<open>The splice implementation kept as an oracle: from the last line with edits to the first.\<close>

definition splice_bucket :: "(nat, line_edit list) btree_map \<Rightarrow> nat \<Rightarrow> rstr list \<Rightarrow> rstr list" where
  "splice_bucket by_line line file_lines =
     (case bt_get by_line line of
        None \<Rightarrow> file_lines
      | Some bucket \<Rightarrow>
          (let idx = line - 1 in
           if idx > length file_lines then file_lines
           else
             (let current = (if idx < length file_lines then file_lines ! idx else []);
                  before = before_texts Plain bucket;
                  replacement = before_texts Replacement bucket;
                  after = after_texts bucket;
                  delete_line = list_ex is_delete bucket
              in if before = [] \<and> replacement = [] \<and> after = [] \<and> \<not> delete_line then file_lines
                 else
                   (let spliced = before @ replacement
                      @ (if \<not> delete_line \<and> idx < length file_lines then [current] else []) @ after
                    in if idx < length file_lines then take idx file_lines @ spliced @ drop (idx + 1) file_lines
                       else file_lines @ spliced))))"

definition materialize_edits_legacy :: "rstr list \<Rightarrow> line_edit list \<Rightarrow> rstr list" where
  "materialize_edits_legacy original_lines edits =
     (let (by_line, bof, eof) = bucket_edits edits;
          file_lines = foldl (\<lambda>fl line. splice_bucket by_line line fl) original_lines (rev (bt_keys by_line));
          file_lines = (if bof \<noteq> [] then bof @ file_lines else file_lines)
      in file_lines @ eof)"

section \<open>Bytes\<close>

definition join_lines :: "rstr list \<Rightarrow> terminator_kind \<Rightarrow> bool \<Rightarrow> byte list" where
  "join_lines lines default_term trailing =
     concat (map (\<lambda>(index, line).
       as_bytes line
       @ (let is_last = (index + 1 = length lines);
              term = (if is_last \<and> \<not> trailing then NoTerm else if default_term = NoTerm then Lf else default_term)
          in case term of Lf \<Rightarrow> [10] | CrLf \<Rightarrow> [13, 10] | NoTerm \<Rightarrow> [])) (List.enumerate 0 lines))"

definition terminator_policy :: "(nat, raw_line_record) btree_map \<Rightarrow> terminator_kind \<times> bool" where
  "terminator_policy recs =
     (let lf = length (filter (\<lambda>(_, r). rl_terminator r = Lf) recs);
          crlf = length (filter (\<lambda>(_, r). rl_terminator r = CrLf) recs);
          trailing = (if recs = [] then False else rl_terminator (snd (last recs)) \<noteq> NoTerm);
          default_term = (if crlf > lf then CrLf else Lf)
      in (default_term, trailing \<or> recs = []))"

section \<open>Affected region\<close>

datatype region_delta = OutputSpan nat nat | Deletion nat

definition build_affected_region :: "region_delta list \<Rightarrow> affected_region" where
  "build_affected_region deltas =
     region_new (concat (map (\<lambda>d. case d of
         OutputSpan from n \<Rightarrow> if n > 0 \<and> from > 0 then [\<lparr>lr_start = from, lr_end = from + n - 1\<rparr>] else []
       | Deletion at \<Rightarrow> if at > 0 then [\<lparr>lr_start = at, lr_end = at\<rparr>] else []) deltas))"

fun common_prefix :: "'a list \<Rightarrow> 'a list \<Rightarrow> nat" where
  "common_prefix (x # xs) (y # ys) = (if x = y then common_prefix xs ys + 1 else 0)"
| "common_prefix _ _ = 0"

text \<open>The second loop runs backwards over the rows after the common start.\<close>

definition affected_from_line_diff :: "rstr list \<Rightarrow> rstr list \<Rightarrow> affected_region" where
  "affected_from_line_diff before after =
     (if before = [] \<and> after = [] then region_default
      else if before = [] then region_insertion 1 (length after)
      else if after = [] then region_default
      else
        (let pre = common_prefix before after;
             suf = common_prefix (rev (drop pre before)) (rev (drop pre after));
             after_mid = length after - (pre + suf)
         in if after_mid = 0
            then build_affected_region [Deletion (if pre < length after then pre + 1 else max (length after) 1)]
            else region_insertion (pre + 1) after_mid))"

section \<open>One pass and splices\<close>

text \<open>The rows that stand for one row of the file, or for the place after its last row.\<close>

definition row_out :: "line_edit list option \<Rightarrow> rstr option \<Rightarrow> rstr list" where
  "row_out bucket current =
     (case bucket of
        Some es \<Rightarrow> append_line_bucket [] current es
      | None \<Rightarrow> (case current of Some row \<Rightarrow> [row] | None \<Rightarrow> []))"

fun rows_out :: "(nat \<rightharpoonup> line_edit list) \<Rightarrow> nat \<Rightarrow> rstr list \<Rightarrow> rstr list" where
  "rows_out B i [] = row_out (B (i + 1)) None"
| "rows_out B i (row # rows) = row_out (B (i + 1)) (Some row) @ rows_out B (i + 1) rows"

lemma append_line_bucket_out: "append_line_bucket out current es = out @ append_line_bucket [] current es"
  by (simp add: append_line_bucket_def)

lemma materialize_rows_out:
  "materialize_rows m i rows out @ row_out (bt_get m (i + length rows + 1)) None = out @ rows_out (bt_get m) i rows"
proof (induction rows arbitrary: i out)
  case (Cons row rows)
  have "(case bt_get m (i + 1) of Some b \<Rightarrow> append_line_bucket out (Some row) b | None \<Rightarrow> out @ [row]) = out @ row_out (bt_get m (i + 1)) (Some row)"
    using append_line_bucket_out [of out "Some row"] by (auto simp: row_out_def split: option.splits)
  then show ?case using Cons.IH [of "i + 1"] by simp
qed simp

lemma materialize_rows_end:
  "(case bt_get m (length rows + 1) of
      Some bucket \<Rightarrow> append_line_bucket (materialize_rows m 0 rows []) None bucket
    | None \<Rightarrow> materialize_rows m 0 rows []) = rows_out (bt_get m) 0 rows"
  using materialize_rows_out [of m 0 rows "[]"] append_line_bucket_out [of "materialize_rows m 0 rows []" None]
  by (auto simp: row_out_def split: option.splits)

lemma rows_out_cong: "\<forall>k > i. B k = B' k \<Longrightarrow> rows_out B i rows = rows_out B' i rows"
  by (induction rows arbitrary: i) auto

lemma rows_out_none: "\<forall>k > i. B k = None \<Longrightarrow> rows_out B i rows = rows"
  by (induction rows arbitrary: i) (auto simp: row_out_def)

lemma rows_out_split:
  "k \<le> length rows \<Longrightarrow> \<forall>j. i < j \<and> j \<le> i + k \<longrightarrow> B j = None \<Longrightarrow> rows_out B i rows = take k rows @ rows_out B (i + k) (drop k rows)"
proof (induction k arbitrary: i rows)
  case (Suc k)
  then obtain row rest where rows: "rows = row # rest" by (cases rows) auto
  have "rows_out B (i + 1) rest = take k rest @ rows_out B (i + 1 + k) (drop k rest)"
    by (rule Suc.IH) (use Suc.prems rows in auto)
  then show ?case using Suc.prems rows by (simp add: row_out_def)
qed simp

lemma append_bucket_trivial:
  "before_texts Plain es = [] \<Longrightarrow> before_texts Replacement es = [] \<Longrightarrow> after_texts es = [] \<Longrightarrow> \<not> list_ex is_delete es \<Longrightarrow>
     append_line_bucket [] current es = (case current of Some row \<Rightarrow> [row] | None \<Rightarrow> [])"
  by (simp add: append_line_bucket_def)

lemma splice_bucket_rows:
  assumes "bt_get m line = Some es"
  shows "line - 1 < length fl \<Longrightarrow> splice_bucket m line fl
      = take (line - 1) fl @ append_line_bucket [] (Some (fl ! (line - 1))) es @ drop (line - 1 + 1) fl"
    and "line - 1 = length fl \<Longrightarrow> splice_bucket m line fl = fl @ append_line_bucket [] None es"
    and "line - 1 > length fl \<Longrightarrow> splice_bucket m line fl = fl"
proof -
  show "splice_bucket m line fl = take (line - 1) fl @ append_line_bucket [] (Some (fl ! (line - 1))) es @ drop (line - 1 + 1) fl"
    if "line - 1 < length fl"
    using that id_take_nth_drop [OF that]
    by (simp add: splice_bucket_def assms Let_def append_line_bucket_def)
  show "splice_bucket m line fl = fl @ append_line_bucket [] None es" if "line - 1 = length fl"
    using that by (simp add: splice_bucket_def assms Let_def append_line_bucket_def)
  show "splice_bucket m line fl = fl" if "line - 1 > length fl"
    using that by (simp add: splice_bucket_def assms Let_def)
qed

lemma splice_row_out:
  assumes "0 < line" "bt_get m line = Some es" "\<forall>k \<le> line. B k = None"
  shows "splice_bucket m line (rows_out B 0 rows) = rows_out (B(line \<mapsto> es)) 0 rows"
proof (cases "line - 1 < length rows")
  case True
  then obtain row rest where rest: "drop (line - 1) rows = row # rest" by (cases "drop (line - 1) rows") auto
  have none: "\<forall>j. 0 < j \<and> j \<le> 0 + (line - 1) \<longrightarrow> B j = None" "\<forall>j. 0 < j \<and> j \<le> 0 + (line - 1) \<longrightarrow> (B(line \<mapsto> es)) j = None"
    using assms(1,3) by auto
  have out: "rows_out B 0 rows = take (line - 1) rows @ row # rows_out B line rest"
    using rows_out_split [OF _ none(1), of rows] True assms(1,3) rest by (simp add: row_out_def)
  have "rows_out (B(line \<mapsto> es)) line rest = rows_out B line rest" by (rule rows_out_cong) simp
  then have out': "rows_out (B(line \<mapsto> es)) 0 rows = take (line - 1) rows @ append_line_bucket [] (Some row) es @ rows_out B line rest"
    using rows_out_split [of "line - 1" rows 0 "B(line \<mapsto> es)", OF _ none(2)] True assms(1) rest by (simp add: row_out_def)
  show ?thesis
    unfolding out out' by (subst splice_bucket_rows(1) [OF assms(2)]) (use True in \<open>simp_all add: nth_append\<close>)
next
  case False
  let ?n = "length rows"
  have none: "\<forall>j. 0 < j \<and> j \<le> 0 + ?n \<longrightarrow> B j = None" "\<forall>j. 0 < j \<and> j \<le> 0 + ?n \<longrightarrow> (B(line \<mapsto> es)) j = None"
    using assms(1,3) False by auto
  have "B (?n + 1) = None" using assms(1,3) False by simp
  then have "rows_out B 0 rows = rows"
    using rows_out_split [OF _ none(1), of rows] by (simp add: row_out_def)
  moreover have "rows_out (B(line \<mapsto> es)) 0 rows = rows @ row_out ((B(line \<mapsto> es)) (?n + 1)) None"
    using rows_out_split [of ?n rows 0 "B(line \<mapsto> es)", OF _ none(2)] by simp
  ultimately show ?thesis
    using False assms(1,3) splice_bucket_rows(2,3) [OF assms(2), of rows]
    by (cases "line - 1 = ?n") (auto simp: row_out_def)
qed

lemma splices_rows_out:
  assumes "sorted_wrt (<) ks" "\<forall>k \<in> set ks. 0 < k \<and> bt_get m k \<noteq> None"
  shows "foldr (splice_bucket m) ks rows = rows_out (bt_get m |` set ks) 0 rows"
  using assms
proof (induction ks)
  case Nil
  then show ?case by (simp add: rows_out_none)
next
  case (Cons k ks)
  obtain es where es: "bt_get m k = Some es" using Cons.prems(2) by auto
  have "\<forall>j \<le> k. (bt_get m |` set ks) j = None" using Cons.prems(1) by (auto simp: restrict_map_def)
  then have "splice_bucket m k (rows_out (bt_get m |` set ks) 0 rows) = rows_out ((bt_get m |` set ks)(k \<mapsto> es)) 0 rows"
    using splice_row_out [OF _ es] Cons.prems(2) by simp
  moreover have "(bt_get m |` set ks)(k \<mapsto> es) = bt_get m |` set (k # ks)"
    using es by (auto simp: restrict_map_def)
  ultimately show ?case using Cons by simp
qed

lemma bucket_edit_inv: "bt_inv (fst acc) \<Longrightarrow> bt_inv (fst (bucket_edit acc e))"
  by (induction acc e rule: bucket_edit.induct) (auto simp: push_bucket_def bt_insert_inv)

lemma bucket_edits_inv: "bt_inv (fst (bucket_edits edits))"
proof -
  have "bt_inv (fst acc) \<Longrightarrow> bt_inv (fst (foldl bucket_edit acc edits))" for acc
    by (induction edits arbitrary: acc) (simp_all add: bucket_edit_inv)
  then show ?thesis by (simp add: bucket_edits_def bt_inv_def)
qed

lemma splice_first_row:
  assumes "bt_get m 0 = Some es"
  shows "splice_bucket m 0 out = (case out of first # rows \<Rightarrow> append_line_bucket [] (Some first) es @ rows | [] \<Rightarrow> append_line_bucket [] None es)"
  using splice_bucket_rows [OF assms, of out] by (cases out) auto

lemma splices_all:
  assumes "bt_inv m"
  shows "foldl (\<lambda>fl line. splice_bucket m line fl) rows (rev (bt_keys m)) =
    (case bt_get m 0 of
       Some es \<Rightarrow> splice_bucket m 0 (rows_out (bt_get m) 0 rows)
     | None \<Rightarrow> rows_out (bt_get m) 0 rows)"
proof -
  have sorted: "sorted_wrt (<) (bt_keys m)" using assms by (simp add: bt_inv_def bt_keys_def)
  have keys: "k \<in> set (bt_keys m) \<longleftrightarrow> bt_get m k \<noteq> None" for k using btree.keys_get [OF assms] .
  have fold: "foldl (\<lambda>fl line. splice_bucket m line fl) rows (rev ks) = foldr (splice_bucket m) ks rows" for ks
    by (simp add: foldl_conv_foldr)
  have out: "rows_out (bt_get m |` set ks) 0 rows = rows_out (bt_get m) 0 rows" if "set ks = set (bt_keys m) - {0}" for ks
    by (rule rows_out_cong) (use that keys in \<open>auto simp: restrict_map_def\<close>)
  show ?thesis
  proof (cases "bt_get m 0")
    case None
    have "foldr (splice_bucket m) (bt_keys m) rows = rows_out (bt_get m |` set (bt_keys m)) 0 rows"
      by (rule splices_rows_out [OF sorted]) (use keys None in \<open>metis neq0_conv\<close>)
    moreover have "set (bt_keys m) = set (bt_keys m) - {0}" using keys None by blast
    ultimately show ?thesis using out [of "bt_keys m"] None unfolding fold by simp
  next
    case (Some es)
    then have "0 \<in> set (bt_keys m)" using keys by simp
    then obtain ks where ks: "bt_keys m = 0 # ks" using sorted by (cases "bt_keys m") auto
    have "foldr (splice_bucket m) ks rows = rows_out (bt_get m |` set ks) 0 rows"
      by (rule splices_rows_out) (use sorted ks keys in auto)
    moreover have "rows_out (bt_get m |` set ks) 0 rows = rows_out (bt_get m) 0 rows"
    proof (rule out)
      have "0 \<notin> set ks" using sorted unfolding ks by (metis less_irrefl sorted_wrt.simps(2))
      then show "set ks = set (bt_keys m) - {0}" unfolding ks by simp
    qed
    ultimately show ?thesis unfolding fold ks Some by simp
  qed
qed

text \<open>C32. Materialising edits in one pass over the rows gives what splicing them in from the last line to the first gives, on
  every file and every list of edits: edits of line zero, edits just past the end and edits beyond it included.\<close>

theorem materialize_edits_splices: "materialize_edits original_lines edits = materialize_edits_legacy original_lines edits"
proof -
  obtain m bof eof where m: "bucket_edits edits = (m, bof, eof)" by (cases "bucket_edits edits")
  then have inv: "bt_inv m" using bucket_edits_inv [of edits] by simp
  show ?thesis
    by (simp add: materialize_edits_def materialize_edits_legacy_def m Let_def materialize_rows_end [simplified] splices_all [OF inv]
        splice_first_row split: option.splits)
qed

section \<open>What materialisation keeps and adds\<close>

definition edit_texts :: "line_edit list \<Rightarrow> rstr list" where
  "edit_texts edits = concat (map (\<lambda>e. case e of Insert _ _ t _ _ \<Rightarrow> [t] | _ \<Rightarrow> []) edits)"

text \<open>The line of an edit, if it is bound to one.\<close>

fun edit_line :: "line_edit \<Rightarrow> nat option" where
  "edit_line (Insert _ PlaceBof _ _ _) = None"
| "edit_line (Insert _ PlaceEof _ _ _) = None"
| "edit_line (Insert anchor _ _ _ _) = Some anchor"
| "edit_line (Delete line _) = Some line"

definition bucket_of :: "line_edit list \<Rightarrow> nat \<Rightarrow> line_edit list" where
  "bucket_of edits k = filter (\<lambda>e. edit_line e = Some k) edits"

definition place_texts :: "insert_place \<Rightarrow> line_edit list \<Rightarrow> rstr list" where
  "place_texts p edits = concat (map (\<lambda>e. case e of Insert _ p' t _ _ \<Rightarrow> if p' = p then [t] else [] | _ \<Rightarrow> []) edits)"

lemma edit_texts_simps [simp]:
  "edit_texts [] = []" "edit_texts (Insert a p t m oi # es) = t # edit_texts es" "edit_texts (Delete l oi # es) = edit_texts es"
  "edit_texts (xs @ ys) = edit_texts xs @ edit_texts ys"
  by (simp_all add: edit_texts_def)

lemma deleted_lines_simps [simp]:
  "deleted_lines [] = []" "deleted_lines (Insert a p t m oi # es) = deleted_lines es" "deleted_lines (Delete l oi # es) = l # deleted_lines es"
  "deleted_lines (xs @ ys) = deleted_lines xs @ deleted_lines ys"
  by (simp_all add: deleted_lines_def)

lemma set_deleted_lines: "k \<in> set (deleted_lines es) \<longleftrightarrow> (\<exists>e \<in> set es. is_delete e \<and> edit_line e = Some k)"
proof (induction es)
  case (Cons e es)
  then show ?case by (cases e) (auto simp: is_delete_def)
qed simp

definition option_list :: "'a list \<Rightarrow> 'a list option" where
  "option_list xs = (if xs = [] then None else Some xs)"

lemma bucket_edits_spec:
  "bt_get (fst (bucket_edits es)) k = option_list (bucket_of es k)"
  "fst (snd (bucket_edits es)) = place_texts PlaceBof es"
  "snd (snd (bucket_edits es)) = place_texts PlaceEof es"
proof -
  have "(\<forall>k. bt_get (fst (bucket_edits es)) k = option_list (bucket_of es k))
      \<and> fst (snd (bucket_edits es)) = place_texts PlaceBof es \<and> snd (snd (bucket_edits es)) = place_texts PlaceEof es"
  proof (induction es rule: rev_induct)
    case Nil
    then show ?case by (simp add: bucket_edits_def bt_get_def option_list_def bucket_of_def place_texts_def)
  next
    case (snoc e es)
    have inv: "bt_inv (fst (bucket_edits es))" by (rule bucket_edits_inv)
    obtain m bof eof where b: "bucket_edits es = (m, bof, eof)" by (cases "bucket_edits es")
    have step: "bucket_edits (es @ [e]) = bucket_edit (m, bof, eof) e" using b by (simp add: bucket_edits_def)
    have push: "bt_get (push_bucket l e m) k = option_list (bucket_of es k @ (if l = k then [e] else []))" for l k
      using snoc.IH [THEN conjunct1] inv b
      by (auto simp: push_bucket_def bt_get_insert option_list_def bucket_of_def split: option.splits if_splits)
    show ?case
      using snoc.IH b push unfolding step
      by (cases "(((m, bof, eof)), e)" rule: bucket_edit.cases) (auto simp: bucket_of_def place_texts_def)
  qed
  then show "bt_get (fst (bucket_edits es)) k = option_list (bucket_of es k)"
    "fst (snd (bucket_edits es)) = place_texts PlaceBof es" "snd (snd (bucket_edits es)) = place_texts PlaceEof es" by blast+
qed

fun kept_rows :: "nat list \<Rightarrow> nat \<Rightarrow> 'a list \<Rightarrow> 'a list" where
  "kept_rows ds i [] = []"
| "kept_rows ds i (row # rows) = (if i + 1 \<in> set ds then [] else [row]) @ kept_rows ds (i + 1) rows"

definition row_texts :: "line_edit list \<Rightarrow> rstr list" where
  "row_texts bucket = before_texts Plain bucket @ before_texts Replacement bucket @ after_texts bucket"

fun inserted_out :: "line_edit list \<Rightarrow> nat \<Rightarrow> 'a list \<Rightarrow> rstr list" where
  "inserted_out es i [] = row_texts (bucket_of es (i + 1))"
| "inserted_out es i (row # rows) = row_texts (bucket_of es (i + 1)) @ inserted_out es (i + 1) rows"

lemma shuffles_append: "xs \<in> shuffles a b \<Longrightarrow> ys \<in> shuffles c d \<Longrightarrow> xs @ ys \<in> shuffles (a @ c) (b @ d)"
proof (induction xs arbitrary: a b)
  case (Cons x xs)
  then show ?case by (auto simp: Cons_in_shuffles_iff)
qed simp

lemma shuffles_left: "xs \<in> shuffles xs []" by simp

lemma shuffles_right: "xs \<in> shuffles [] xs" by simp

lemma append_bucket_shuffle:
  "append_line_bucket [] current b \<in> shuffles (if list_ex is_delete b then [] else (case current of Some row \<Rightarrow> [row] | None \<Rightarrow> [])) (row_texts b)"
  (is "_ \<in> shuffles ?keep _")
proof -
  have "(before_texts Plain b @ before_texts Replacement b) @ ?keep @ after_texts b
      \<in> shuffles ([] @ ?keep @ []) ((before_texts Plain b @ before_texts Replacement b) @ [] @ after_texts b)"
    by (intro shuffles_append shuffles_left shuffles_right)
  then show ?thesis by (simp add: append_line_bucket_def row_texts_def)
qed

lemma bucket_deletes: "list_ex is_delete (bucket_of es k) \<longleftrightarrow> k \<in> set (deleted_lines es)"
  by (auto simp: set_deleted_lines list_ex_iff bucket_of_def)

lemma row_out_shuffle:
  "row_out (option_list (bucket_of es k)) current
     \<in> shuffles (if k \<in> set (deleted_lines es) then [] else (case current of Some row \<Rightarrow> [row] | None \<Rightarrow> [])) (row_texts (bucket_of es k))"
proof (cases "bucket_of es k = []")
  case True
  then show ?thesis using bucket_deletes [of es k]
    by (simp add: row_out_def option_list_def row_texts_def before_texts_def after_texts_def split: option.splits)
next
  case False
  then show ?thesis using append_bucket_shuffle [of current "bucket_of es k"] bucket_deletes [of es k]
    by (simp add: row_out_def option_list_def)
qed

lemma rows_out_shuffle:
  "rows_out (\<lambda>k. option_list (bucket_of es k)) i rows \<in> shuffles (kept_rows (deleted_lines es) i rows) (inserted_out es i rows)"
proof (induction rows arbitrary: i)
  case Nil
  show ?case using row_out_shuffle [of es "i + 1" None] by (simp split: if_splits)
next
  case (Cons row rows)
  show ?case
    using shuffles_append [OF row_out_shuffle [of es "i + 1" "Some row"] Cons.IH [of "i + 1"]] by (simp split: if_splits)
qed

lemma mset_row_texts: "list_all (\<lambda>e. edit_line e \<noteq> None) b \<Longrightarrow> mset (row_texts b) = mset (edit_texts b)"
proof (induction b)
  case (Cons e b)
  have mode: "m \<noteq> Replacement \<Longrightarrow> m = Plain" for m by (cases m) auto
  show ?case using Cons
    by (cases e rule: edit_line.cases)
      (auto dest: mode simp: row_texts_def before_texts_def after_texts_def split: insert_place.splits insert_mode.splits)
qed (simp add: row_texts_def before_texts_def after_texts_def)

definition lines_within :: "nat \<Rightarrow> nat \<Rightarrow> line_edit list \<Rightarrow> line_edit list" where
  "lines_within i j es = filter (\<lambda>e. case edit_line e of Some k \<Rightarrow> i \<le> k \<and> k \<le> j | None \<Rightarrow> False) es"

lemma mset_texts_filter:
  "(\<And>e. e \<in> set es \<Longrightarrow> P e \<longleftrightarrow> (Q e \<noteq> R e)) \<Longrightarrow> (\<And>e. e \<in> set es \<Longrightarrow> \<not> (Q e \<and> R e)) \<Longrightarrow>
     mset (edit_texts (filter P es)) = mset (edit_texts (filter Q es)) + mset (edit_texts (filter R es))"
proof (induction es)
  case (Cons e es)
  have IH: "mset (edit_texts (filter P es)) = mset (edit_texts (filter Q es)) + mset (edit_texts (filter R es))"
    by (rule Cons.IH) (use Cons.prems in auto)
  show ?case using IH Cons.prems [of e] by (cases e) auto
qed simp

lemma mset_bucket: "mset (row_texts (bucket_of es k)) = mset (edit_texts (bucket_of es k))"
  by (rule mset_row_texts) (auto simp: bucket_of_def list_all_iff)

lemma mset_inserted_out: "mset (inserted_out es i rows) = mset (edit_texts (lines_within (i + 1) (i + length rows + 1) es))"
proof (induction rows arbitrary: i)
  case Nil
  have "bucket_of es (i + 1) = lines_within (i + 1) (i + 1) es"
    by (auto simp: bucket_of_def lines_within_def intro!: filter_cong split: option.splits)
  then show ?case using mset_bucket [of es "i + 1"] by simp
next
  case (Cons row rows)
  have "mset (edit_texts (lines_within (i + 1) (i + length rows + 2) es))
      = mset (edit_texts (bucket_of es (i + 1))) + mset (edit_texts (lines_within (i + 2) (i + length rows + 2) es))"
    unfolding lines_within_def bucket_of_def by (rule mset_texts_filter) (auto split: option.splits)
  then show ?case using Cons.IH [of "i + 1"] by (simp add: mset_bucket)
qed

lemma mset_places:
  "mset (place_texts PlaceBof es) + (mset (edit_texts (filter (\<lambda>e. edit_line e \<noteq> None) es)) + mset (place_texts PlaceEof es)) = mset (edit_texts es)"
proof (induction es)
  case (Cons e es)
  then show ?case by (cases e rule: edit_line.cases) (auto simp: place_texts_def)
qed (simp add: place_texts_def)

text \<open>The result has the rows that are not deleted, in order, and the inserted texts, each once.\<close>

lemma materialize_edits_shuffle:
  assumes "\<forall>e \<in> set es. case edit_line e of Some k \<Rightarrow> 0 < k \<and> k \<le> length rows + 1 | None \<Rightarrow> True"
  shows "\<exists>ins. materialize_edits rows es \<in> shuffles (kept_rows (deleted_lines es) 0 rows) ins \<and> mset ins = mset (edit_texts es)"
proof -
  obtain m bof eof where b: "bucket_edits es = (m, bof, eof)" by (cases "bucket_edits es")
  have get: "bt_get m = (\<lambda>k. option_list (bucket_of es k))" using bucket_edits_spec(1) [of es] b by auto
  have bof: "bof = place_texts PlaceBof es" "eof = place_texts PlaceEof es" using bucket_edits_spec(2,3) [of es] b by auto
  have "bucket_of es 0 = []" using assms by (auto simp: bucket_of_def filter_empty_conv)
  then have m: "materialize_edits rows es = bof @ rows_out (\<lambda>k. option_list (bucket_of es k)) 0 rows @ eof"
    using materialize_rows_end [of m rows] get by (simp add: materialize_edits_def b option_list_def)
  have "bof @ rows_out (\<lambda>k. option_list (bucket_of es k)) 0 rows @ eof
      \<in> shuffles ([] @ kept_rows (deleted_lines es) 0 rows @ []) (bof @ inserted_out es 0 rows @ eof)"
    by (intro shuffles_append shuffles_left shuffles_right rows_out_shuffle)
  moreover have "mset (bof @ inserted_out es 0 rows @ eof) = mset (edit_texts es)"
  proof -
    have "lines_within 1 (length rows + 1) es = filter (\<lambda>e. edit_line e \<noteq> None) es"
      unfolding lines_within_def by (rule filter_cong) (use assms in \<open>auto split: option.splits\<close>)
    then show ?thesis using mset_places [of es] mset_inserted_out [of es 0 rows] by (simp add: bof)
  qed
  ultimately show ?thesis using m by auto
qed

section \<open>Coalescing by operation\<close>

definition in_first_order :: "'a list \<Rightarrow> 'a list" where
  "in_first_order xs = foldl (\<lambda>ys x. if x \<in> set ys then ys else ys @ [x]) [] xs"

lemma in_first_order_snoc: "in_first_order (xs @ [x]) = (if x \<in> set (in_first_order xs) then in_first_order xs else in_first_order xs @ [x])"
  by (simp add: in_first_order_def)

lemma set_in_first_order [simp]: "set (in_first_order xs) = set xs"
  by (induction xs rule: rev_induct) (auto simp: in_first_order_snoc, simp add: in_first_order_def)

lemma distinct_in_first_order: "distinct (in_first_order xs)"
  by (induction xs rule: rev_induct) (auto simp: in_first_order_snoc, simp add: in_first_order_def)

lemma group_by_op_spec:
  "fst (group_by_op es) = in_first_order (map edit_op_index es) \<and> bt_inv (snd (group_by_op es))
     \<and> (\<forall>k. bt_get (snd (group_by_op es)) k = option_list (filter (\<lambda>e. edit_op_index e = k) es))"
proof (induction es rule: rev_induct)
  case Nil
  then show ?case by (simp add: group_by_op_def in_first_order_def bt_inv_def bt_get_def option_list_def)
next
  case (snoc e es)
  obtain order m where g: "group_by_op es = (order, m)" by (cases "group_by_op es")
  let ?oi = "edit_op_index e"
  have step: "group_by_op (es @ [e]) = (case bt_get m ?oi of
      None \<Rightarrow> (order @ [?oi], bt_insert ?oi [e] m) | Some xs \<Rightarrow> (order, bt_insert ?oi (xs @ [e]) m))"
    using g by (simp add: group_by_op_def Let_def)
  have IH: "order = in_first_order (map edit_op_index es)" "bt_inv m" "\<And>k. bt_get m k = option_list (filter (\<lambda>e. edit_op_index e = k) es)"
    using snoc.IH g by auto
  show ?case
  proof (cases "bt_get m ?oi")
    case None
    then have "filter (\<lambda>x. edit_op_index x = ?oi) es = []" using IH(3) [of ?oi] by (simp add: option_list_def split: if_splits)
    moreover from this have "?oi \<notin> edit_op_index ` set es" by (auto simp: filter_empty_conv)
    ultimately show ?thesis using None IH step by (auto simp: in_first_order_snoc bt_insert_inv bt_get_insert option_list_def)
  next
    case (Some xs)
    then have xs: "xs = filter (\<lambda>x. edit_op_index x = ?oi) es" "xs \<noteq> []"
      using IH(3) [of ?oi] by (auto simp: option_list_def split: if_splits)
    then have "?oi \<in> edit_op_index ` set es" by (metis (mono_tags, lifting) filter_empty_conv image_eqI)
    then show ?thesis using Some IH xs step by (auto simp: in_first_order_snoc bt_insert_inv bt_get_insert option_list_def)
  qed
qed

lemma drain_groups:
  "distinct order \<Longrightarrow> fst (foldl (\<lambda>(out, m) oi. (out @ f (bt_get m oi), bt_remove oi m)) (out, m) order)
     = out @ concat (map (\<lambda>oi. f (bt_get m oi)) order)"
proof (induction order arbitrary: out m)
  case (Cons oi order)
  have "concat (map (\<lambda>k. f (bt_get (bt_remove oi m) k)) order) = concat (map (\<lambda>k. f (bt_get m k)) order)"
    by (intro arg_cong [of _ _ concat] map_cong refl) (use Cons.prems in \<open>auto simp: bt_get_remove\<close>)
  then show ?case using Cons by simp
qed simp

lemma coalesce_replacement_edits_eq:
  "coalesce_replacement_edits es =
     concat (map (\<lambda>oi. coalesce_one_op (filter (\<lambda>e. edit_op_index e = oi) es)) (in_first_order (map edit_op_index es)))"
proof (cases "es = []")
  case False
  obtain order m where g: "group_by_op es = (order, m)" by (cases "group_by_op es")
  have spec: "order = in_first_order (map edit_op_index es)" "\<And>k. bt_get m k = option_list (filter (\<lambda>e. edit_op_index e = k) es)"
    using group_by_op_spec [of es] g by auto
  let ?f = "\<lambda>x. coalesce_one_op (case x of Some xs \<Rightarrow> xs | None \<Rightarrow> [])"
  have "coalesce_replacement_edits es = concat (map (\<lambda>oi. ?f (bt_get m oi)) order)"
    using False g drain_groups [of order ?f "[]" m] distinct_in_first_order [of "map edit_op_index es"]
    by (simp add: coalesce_replacement_edits_def spec(1))
  also have "map (\<lambda>oi. ?f (bt_get m oi)) order = map (\<lambda>oi. coalesce_one_op (filter (\<lambda>e. edit_op_index e = oi) es)) order"
    by (rule map_cong [OF refl]) (simp add: spec(2) option_list_def)
  finally show ?thesis by (simp add: spec(1))
qed (simp add: coalesce_replacement_edits_def in_first_order_def)

text \<open>Edits that come operation by operation, each operation's edits already in coalesced form.\<close>

definition op_groups :: "(nat \<times> line_edit list) list \<Rightarrow> bool" where
  "op_groups gs \<longleftrightarrow> distinct (map fst gs) \<and> list_all (\<lambda>(oi, g). list_all (\<lambda>e. edit_op_index e = oi) g \<and> coalesce_one_op g = g) gs"

lemma in_first_order_constant:
  "list_all (\<lambda>x. x = c) ys \<Longrightarrow> c \<notin> set xs \<Longrightarrow> in_first_order (xs @ ys) = in_first_order xs @ (if ys = [] then [] else [c])"
proof (induction ys rule: rev_induct)
  case (snoc y ys)
  then have "in_first_order (xs @ ys) = in_first_order xs @ (if ys = [] then [] else [c])" "y = c" "set ys \<subseteq> {c}"
    by (auto simp: list_all_iff)
  moreover have "in_first_order (xs @ ys @ [y]) = (if y \<in> set (in_first_order (xs @ ys)) then in_first_order (xs @ ys) else in_first_order (xs @ ys) @ [y])"
    using in_first_order_snoc [of "xs @ ys" y] by simp
  ultimately show ?case using snoc.prems(2) by (cases ys) auto
qed simp

lemma coalesce_groups_identity:
  assumes "op_groups gs"
  shows "coalesce_replacement_edits (concat (map snd gs)) = concat (map snd gs)"
  using assms
proof (induction gs rule: rev_induct)
  case (snoc og gs)
  obtain oi g where og: "og = (oi, g)" by (cases og)
  let ?es = "concat (map snd gs)"
  have IH: "coalesce_replacement_edits ?es = ?es" using snoc by (simp add: op_groups_def)
  have g: "list_all (\<lambda>e. edit_op_index e = oi) g" "coalesce_one_op g = g" using snoc.prems og by (auto simp: op_groups_def)
  have fresh: "oi \<notin> set (map edit_op_index ?es)"
    using snoc.prems og by (force simp: op_groups_def list_all_iff)
  have order: "in_first_order (map edit_op_index (?es @ g)) = in_first_order (map edit_op_index ?es) @ (if g = [] then [] else [oi])"
    using in_first_order_constant [of oi "map edit_op_index g" "map edit_op_index ?es"] g(1) fresh by (simp add: list_all_iff)
  have none: "filter (\<lambda>e. edit_op_index e = oi) ?es = []" using fresh by (auto simp: filter_empty_conv)
  have g_all: "filter (\<lambda>e. edit_op_index e = oi) g = g" using g(1) by (simp add: list_all_iff)
  have old: "map (\<lambda>k. coalesce_one_op (filter (\<lambda>e. edit_op_index e = k) (?es @ g))) (in_first_order (map edit_op_index ?es))
      = map (\<lambda>k. coalesce_one_op (filter (\<lambda>e. edit_op_index e = k) ?es)) (in_first_order (map edit_op_index ?es))"
  proof (rule map_cong [OF refl])
    fix k assume "k \<in> set (in_first_order (map edit_op_index ?es))"
    then have "k \<noteq> oi" using fresh by (simp only: set_in_first_order) blast
    then have "filter (\<lambda>e. edit_op_index e = k) g = []" using g(1) by (auto simp: filter_empty_conv list_all_iff)
    then show "coalesce_one_op (filter (\<lambda>e. edit_op_index e = k) (?es @ g)) = coalesce_one_op (filter (\<lambda>e. edit_op_index e = k) ?es)" by simp
  qed
  have new: "coalesce_one_op (filter (\<lambda>e. edit_op_index e = oi) (?es @ g)) = g" using none g_all g(2) by simp
  let ?F = "\<lambda>k. coalesce_one_op (filter (\<lambda>e. edit_op_index e = k) (?es @ g))"
  have "coalesce_replacement_edits (?es @ g) = concat (map ?F (in_first_order (map edit_op_index ?es) @ (if g = [] then [] else [oi])))"
    unfolding coalesce_replacement_edits_eq [of "?es @ g"] order by (rule refl)
  also have "\<dots> = concat (map ?F (in_first_order (map edit_op_index ?es))) @ concat (map ?F (if g = [] then [] else [oi]))"
    unfolding map_append concat_append by (rule refl)
  also have "concat (map ?F (in_first_order (map edit_op_index ?es))) = coalesce_replacement_edits ?es"
    unfolding old coalesce_replacement_edits_eq [of ?es] by (rule refl)
  also have "concat (map ?F (if g = [] then [] else [oi])) = g" using new by auto
  finally have "coalesce_replacement_edits (?es @ g) = coalesce_replacement_edits ?es @ g" .
  then show ?case using IH og by simp
qed (simp add: coalesce_replacement_edits_def)

text \<open>The lowered forms.\<close>

lemma coalesce_no_deletes: "deleted_lines es = [] \<Longrightarrow> coalesce_one_op es = es"
  by (simp add: coalesce_one_op_def)

lemma coalesce_no_replacements: "replacement_texts es = [] \<Longrightarrow> coalesce_one_op es = es"
  by (simp add: coalesce_one_op_def)

lemma lowered_texts:
  "deleted_lines (map (\<lambda>t. Insert a p t m oi) body) = []" "deleted_lines (map (\<lambda>l. Delete l oi) ls) = ls"
  "replacement_texts (map (\<lambda>t. Insert a p t Replacement oi) body) = body" "replacement_texts (map (\<lambda>l. Delete l oi) ls) = []"
  by (induction body, simp_all add: replacement_texts_def) (induction ls, simp_all add: deleted_lines_def replacement_texts_def)+

lemma coalesce_span:
  fixes a b oi :: nat and body :: "rstr list"
  assumes "a \<le> b"
  defines "es \<equiv> map (\<lambda>t. Insert a PlaceBefore t Replacement oi) body @ map (\<lambda>l. Delete l oi) [a..<Suc b]"
  shows "coalesce_one_op es = es"
proof (cases "body = []")
  case True
  then show ?thesis using lowered_texts(4) [of oi "[a..<Suc b]"] by (simp add: es_def coalesce_no_replacements del: upt_Suc)
next
  case False
  have "sort [a..<Suc b] = [a..<Suc b]" by (rule sort_upt)
  then have dels: "remdups_adj (sort (deleted_lines es)) = [a..<Suc b]"
    using lowered_texts(1,2) remdups_adj_distinct [OF distinct_upt, of a "Suc b"] by (simp add: es_def del: upt_Suc)
  have reps: "replacement_texts es = body"
    using lowered_texts(3,4) by (simp add: es_def replacement_texts_def del: upt_Suc)
  have "filter is_plain es = []" by (auto simp: es_def is_plain_def filter_empty_conv)
  moreover have "hd [a..<Suc b] = a" "last [a..<Suc b] = b" using assms(1) by (simp_all add: hd_upt del: upt_Suc)
  moreover have "edit_op_index (hd es) = oi" using False by (cases body) (simp_all add: es_def)
  ultimately show ?thesis
    using reps dels False by (simp add: coalesce_one_op_def Let_def es_def [symmetric] del: upt_Suc)
qed

end
