(* ===== verification/Hashline_Repair.thy ===== *)
theory Hashline_Repair
  imports Hashline_Edits
begin

text \<open>
  Repair layers of the hashline apply phase, \<^verbatim>\<open>crates/aft/src/hashline/apply/repair.rs\<close>: the restored base indent of a
  replacement body and the removal of body rows that restate the rows just outside the replaced span.

  No layer deletes a row of the file that no operation addresses, adds a row, or changes anything of a row but the indent it starts with.
\<close>

section \<open>Groups\<close>

lemma group_inserts_index: "group_inserts anchor oi i es = (is, ps, j, rest) \<Longrightarrow> i \<le> j"
  by (induction anchor oi i es arbitrary: "is" ps j rest rule: group_inserts.induct)
    (fastforce split: if_splits prod.splits)+

lemma group_deletes_index: "group_deletes oi e i es = (is, e') \<Longrightarrow> \<forall>k \<in> set is. i \<le> k"
  by (induction oi e i es arbitrary: "is" e' rule: group_deletes.induct)
    (fastforce split: if_splits prod.splits)+

lemma find_group_last:
  assumes "find_replacement_group edits start = Some g"
  shows "start < length edits" "start \<le> last (gr_delete_indices g)" "gr_delete_indices g \<noteq> []"
proof -
  obtain anchor t oi where e: "nth_opt edits start = Some (Insert anchor PlaceBefore t Replacement oi)"
    using assms by (auto simp: find_replacement_group_def split: option.splits line_edit.splits insert_place.splits insert_mode.splits)
  then show "start < length edits" by (simp add: nth_opt_def split: if_splits)
  obtain "is" ps i rest ds x where g: "group_inserts anchor oi start (drop start edits) = (is, ps, i, rest)"
      "group_deletes oi anchor i rest = (ds, x)"
    by (metis surj_pair)
  then have ds: "ds \<noteq> []" "gr_delete_indices g = ds"
    using assms e by (auto simp: find_replacement_group_def split: if_splits)
  then show "gr_delete_indices g \<noteq> []" by simp
  have "i \<le> last ds" using group_deletes_index [OF g(2)] ds(1) by simp
  then show "start \<le> last (gr_delete_indices g)" using group_inserts_index [OF g(1)] ds(2) by simp
qed

section \<open>Indent\<close>

definition leading_indent :: "rstr \<Rightarrow> rstr" where
  "leading_indent line = takeWhile (\<lambda>c. c = 32 \<or> c = 9) line"

definition is_indent_deeper :: "rstr \<Rightarrow> rstr \<Rightarrow> bool" where
  "is_indent_deeper deeper shallower \<longleftrightarrow> str_len deeper > str_len shallower \<and> starts_with deeper shallower"

definition line_or_empty :: "rstr list \<Rightarrow> nat \<Rightarrow> rstr" where
  "line_or_empty file_lines i = (case nth_opt file_lines i of Some l \<Rightarrow> l | None \<Rightarrow> [])"

text \<open>The loop over the body's rows: the shift found so far and the number of rows that prove it, or \<open>None\<close> when the rows
  contradict each other.\<close>

fun indent_shift :: "rstr list \<Rightarrow> nat \<Rightarrow> rstr list \<Rightarrow> rstr option \<Rightarrow> nat \<Rightarrow> (rstr option \<times> nat) option" where
  "indent_shift file_lines index [] shift matches = Some (shift, matches)"
| "indent_shift file_lines index (payload # payloads) shift matches =
     (let source = line_or_empty file_lines index in
      if trim source = [] \<or> trim_start source \<noteq> trim_start payload
      then indent_shift file_lines (index + 1) payloads shift matches
      else
        (case strip_suffix (leading_indent source) (leading_indent payload) of
           None \<Rightarrow> None
         | Some candidate \<Rightarrow>
             if shift \<noteq> None \<and> shift \<noteq> Some candidate then None
             else indent_shift file_lines (index + 1) payloads (Some candidate) (matches + 1)))"

definition group_shift :: "replacement_group \<Rightarrow> rstr list \<Rightarrow> rstr option" where
  "group_shift g file_lines =
     (if length (gr_payload g) \<noteq> length (gr_delete_indices g) then None
      else
        (let preceding = line_or_empty file_lines (gr_start_line g - 2);
             source_first = line_or_empty file_lines (gr_start_line g - 1);
             payload_first = (case gr_payload g of l # _ \<Rightarrow> l | [] \<Rightarrow> [])
         in if \<not> ends_with (trim_end preceding) (lit ''{'')
               \<or> \<not> is_indent_deeper (leading_indent source_first) (leading_indent preceding)
               \<or> is_indent_deeper (leading_indent payload_first) (leading_indent preceding)
            then None
            else
              (case indent_shift file_lines (gr_start_line g - 1) (gr_payload g) None 0 of
                 None \<Rightarrow> None
               | Some (shift, matches) \<Rightarrow>
                   if shift = None \<or> matches < 2 \<or> matches * 2 \<le> length (gr_payload g) then None else shift)))"

fun shift_edit :: "rstr \<Rightarrow> line_edit \<Rightarrow> line_edit" where
  "shift_edit shift (Insert anchor place text mode oi) =
     Insert anchor place (if trim text \<noteq> [] then shift @ text else text) mode oi"
| "shift_edit shift (Delete line oi) = Delete line oi"

definition shift_edits :: "rstr \<Rightarrow> nat list \<Rightarrow> line_edit list \<Rightarrow> line_edit list" where
  "shift_edits shift indices edits = foldl (\<lambda>es i. es[i := shift_edit shift (es ! i)]) edits indices"

lemma length_shift_edits [simp]: "length (shift_edits shift indices edits) = length edits"
proof -
  have "length (foldl (\<lambda>es i. es[i := shift_edit shift (es ! i)]) es indices) = length es" for es
    by (induction indices arbitrary: es) simp_all
  then show ?thesis by (simp add: shift_edits_def)
qed

definition indent_warning :: "replacement_group \<Rightarrow> rstr" where
  "indent_warning g = lit ''Auto-indented a replacement body at line '' @ show_nat (gr_start_line g)
     @ lit '': restored a uniformly omitted base indent.''"

function repair_indent_from :: "rstr list \<Rightarrow> nat \<Rightarrow> line_edit list \<Rightarrow> rstr list \<Rightarrow> rstr list \<times> line_edit list" where
  "repair_indent_from file_lines start edits warnings =
     (if \<not> start < length edits then (warnings, edits)
      else
        (case find_replacement_group edits start of
           None \<Rightarrow> repair_indent_from file_lines (start + 1) edits warnings
         | Some g \<Rightarrow>
             (let start' = last (gr_delete_indices g) + 1 in
              case group_shift g file_lines of
                None \<Rightarrow> repair_indent_from file_lines start' edits warnings
              | Some shift \<Rightarrow>
                  repair_indent_from file_lines start' (shift_edits shift (gr_insert_indices g) edits)
                    (warnings @ [indent_warning g]))))"
  by auto
termination
  by (relation "measure (\<lambda>(_, start, edits, _). length edits - start)") (auto dest: find_group_last)

declare repair_indent_from.simps [simp del]

definition repair_replacement_indentation :: "line_edit list \<Rightarrow> rstr list \<Rightarrow> rstr list \<times> line_edit list" where
  "repair_replacement_indentation edits file_lines = repair_indent_from file_lines 0 edits []"

section \<open>Boundary echoes\<close>

definition has_non_whitespace :: "rstr \<Rightarrow> bool" where
  "has_non_whitespace text \<longleftrightarrow> list_ex (\<lambda>c. c \<notin> {32, 9, LF, CR}) text"

definition is_structural_closer :: "rstr \<Rightarrow> bool" where
  "is_structural_closer line =
     (let trimmed = trim line in
      if trimmed = [] then False
      else hd trimmed \<in> set (lit ''})]/'') \<or> starts_with trimmed (lit ''</'')
           \<or> list_all (\<lambda>c. c \<in> set (lit ''})];,/>'')) trimmed)"

text \<open>Whether the rows of \<open>ls\<close> stand in the file from index \<open>i\<close> on, and one of them has content.\<close>

definition echoes_at :: "rstr list \<Rightarrow> nat \<Rightarrow> rstr list \<Rightarrow> bool" where
  "echoes_at file_lines i ls \<longleftrightarrow>
     list_all (\<lambda>(k, l). nth_opt file_lines (i + k) = Some l) (List.enumerate 0 ls) \<and> list_ex has_non_whitespace ls"

definition count_duplicate_leading :: "replacement_group \<Rightarrow> rstr list \<Rightarrow> nat" where
  "count_duplicate_leading g file_lines =
     (let most = min (length (gr_payload g)) (gr_start_line g - 1) in
      case List.find (\<lambda>n. echoes_at file_lines (gr_start_line g - 1 - n) (take n (gr_payload g))) (rev [1..<Suc most]) of
        Some n \<Rightarrow> n
      | None \<Rightarrow> 0)"

definition count_duplicate_trailing :: "replacement_group \<Rightarrow> rstr list \<Rightarrow> nat" where
  "count_duplicate_trailing g file_lines =
     (let most = min (length (gr_payload g)) (length file_lines - gr_end_line g) in
      case List.find (\<lambda>n. echoes_at file_lines (gr_end_line g) (drop (length (gr_payload g) - n) (gr_payload g))) (rev [1..<Suc most]) of
        Some n \<Rightarrow> n
      | None \<Rightarrow> 0)"

definition find_boundary_echo :: "replacement_group \<Rightarrow> rstr list \<Rightarrow> (nat \<times> nat) option" where
  "find_boundary_echo g file_lines =
     (let leading = count_duplicate_leading g file_lines in
      if leading = 0 then None
      else
        (let trailing = count_duplicate_trailing g file_lines in
         if trailing = 0 then None
         else if leading + trailing \<ge> length (gr_payload g) then None
         else Some (leading, trailing)))"

datatype echo_side = Leading | Trailing

definition find_one_sided_boundary_echo :: "replacement_group \<Rightarrow> rstr list \<Rightarrow> (echo_side \<times> nat) option" where
  "find_one_sided_boundary_echo g file_lines =
     (let leading = count_duplicate_leading g file_lines; trailing = count_duplicate_trailing g file_lines in
      if (leading > 0) = (trailing > 0) then None
      else
        (let (side, n) = (if leading > 0 then (Leading, leading) else (Trailing, trailing)) in
         if n \<ge> length (gr_payload g) then None
         else if length (gr_delete_indices g) \<le> 1
           \<and> (side \<noteq> Trailing \<or> \<not> list_all is_structural_closer (drop (length (gr_payload g) - n) (gr_payload g)))
         then None
         else Some (side, n)))"

definition echo_warning :: "replacement_group \<Rightarrow> nat \<Rightarrow> nat \<Rightarrow> rstr" where
  "echo_warning g leading trailing =
     lit ''Auto-repaired a replacement boundary echo at line '' @ show_nat (gr_start_line g) @ lit '': dropped ''
     @ show_nat leading @ lit '' leading and '' @ show_nat trailing
     @ lit '' trailing payload line(s) already present outside the range.''"

definition one_sided_warning :: "replacement_group \<Rightarrow> echo_side \<Rightarrow> nat \<Rightarrow> rstr" where
  "one_sided_warning g side n =
     lit ''Auto-repaired a replacement boundary echo at line '' @ show_nat (gr_start_line g) @ lit '': dropped ''
     @ show_nat n @ lit '' '' @ (case side of Leading \<Rightarrow> lit ''leading'' | Trailing \<Rightarrow> lit ''trailing'')
     @ lit '' payload line(s) identical to the surviving line(s) just outside the range.''"

text \<open>The inserts of a group that stay, and the warning if some do not.\<close>

definition echo_group :: "replacement_group \<Rightarrow> rstr list \<Rightarrow> nat list \<times> rstr list" where
  "echo_group g file_lines =
     (let is = gr_insert_indices g in
      case find_boundary_echo g file_lines of
        Some (leading, trailing) \<Rightarrow> (take (length is - leading - trailing) (drop leading is), [echo_warning g leading trailing])
      | None \<Rightarrow>
          (case find_one_sided_boundary_echo g file_lines of
             Some (Leading, n) \<Rightarrow> (drop n is, [one_sided_warning g Leading n])
           | Some (Trailing, n) \<Rightarrow> (take (length is - n) is, [one_sided_warning g Trailing n])
           | None \<Rightarrow> (is, [])))"

function repair_echo_from :: "rstr list \<Rightarrow> line_edit list \<Rightarrow> nat \<Rightarrow> line_edit list \<Rightarrow> rstr list \<Rightarrow> rstr list \<times> line_edit list" where
  "repair_echo_from file_lines edits i rebuilt warnings =
     (if \<not> i < length edits then (warnings, rebuilt)
      else
        (case find_replacement_group edits i of
           None \<Rightarrow> repair_echo_from file_lines edits (i + 1) (rebuilt @ [edits ! i]) warnings
         | Some g \<Rightarrow>
             (let (kept, ws) = echo_group g file_lines in
              repair_echo_from file_lines edits (last (gr_delete_indices g) + 1)
                (rebuilt @ map ((!) edits) kept @ map ((!) edits) (gr_delete_indices g)) (warnings @ ws))))"
  by auto
termination
  by (relation "measure (\<lambda>(_, edits, i, _, _). length edits - i)") (auto dest: find_group_last)

declare repair_echo_from.simps [simp del]

definition repair_boundary_echoes :: "line_edit list \<Rightarrow> rstr list \<Rightarrow> rstr list \<times> line_edit list" where
  "repair_boundary_echoes edits file_lines = repair_echo_from file_lines edits 0 [] []"

section \<open>All layers\<close>

record repair_outcome =
  rp_edits :: "line_edit list"
  rp_warnings :: "rstr list"
  rp_layers_applied :: "rstr list"

definition apply_repair_layers :: "line_edit list \<Rightarrow> rstr list \<Rightarrow> repair_outcome" where
  "apply_repair_layers edits file_lines =
     (let (indent, working) = repair_replacement_indentation edits file_lines;
          (echo, working) = repair_boundary_echoes working file_lines
      in \<lparr>rp_edits = working, rp_warnings = indent @ echo,
          rp_layers_applied = (if indent \<noteq> [] then [lit ''indent''] else []) @ (if echo \<noteq> [] then [lit ''boundary-echo''] else [])\<rparr>)"

section \<open>What the layers change\<close>

definition is_replacement :: "line_edit \<Rightarrow> bool" where
  "is_replacement e = (case e of Insert _ PlaceBefore _ Replacement _ \<Rightarrow> True | _ \<Rightarrow> False)"

text \<open>An edit list in which some replacement rows are missing.\<close>

inductive thinned :: "line_edit list \<Rightarrow> line_edit list \<Rightarrow> bool" where
  thinned_Nil: "thinned [] []"
| thinned_keep: "thinned es' es \<Longrightarrow> thinned (e # es') (e # es)"
| thinned_drop: "thinned es' es \<Longrightarrow> is_replacement e \<Longrightarrow> thinned es' (e # es)"

lemma thinned_refl: "thinned es es"
  by (induction es) (auto intro: thinned.intros)

lemma thinned_append: "thinned xs' xs \<Longrightarrow> thinned ys' ys \<Longrightarrow> thinned (xs' @ ys') (xs @ ys)"
  by (induction rule: thinned.induct) (auto intro: thinned.intros)

lemma thinned_none: "list_all is_replacement es \<Longrightarrow> thinned [] es"
  by (induction es) (auto intro: thinned.intros)

lemma thinned_drop_front: "list_all is_replacement es \<Longrightarrow> thinned (drop n es) es"
  using thinned_append [OF thinned_none thinned_refl, of "take n es" "drop n es"]
  by (simp add: list_all_iff) (meson in_set_takeD)

lemma thinned_drop_back: "list_all is_replacement es \<Longrightarrow> thinned (take n es) es"
  using thinned_append [OF thinned_refl thinned_none, of "drop n es" "take n es"]
  by (simp add: list_all_iff) (meson in_set_dropD)

lemma thinned_trans: "thinned ys zs \<Longrightarrow> thinned xs ys \<Longrightarrow> thinned xs zs"
proof (induction arbitrary: xs rule: thinned.induct)
  case (thinned_keep es' es e)
  from thinned_keep.prems thinned_keep.IH show ?case by (cases rule: thinned.cases) (auto intro: thinned.intros)
qed (auto intro: thinned.intros)

text \<open>An edit with a restored indent.\<close>

definition reindented :: "line_edit \<Rightarrow> line_edit \<Rightarrow> bool" where
  "reindented e' e \<longleftrightarrow> e' = e \<or>
     (\<exists>anchor t oi w. e = Insert anchor PlaceBefore t Replacement oi \<and> e' = Insert anchor PlaceBefore (w @ t) Replacement oi
        \<and> list_all (\<lambda>c. c = 32 \<or> c = 9) w)"

lemma group_inserts_spec:
  "group_inserts anchor oi i es = (is, ps, j, rest) \<Longrightarrow>
     is = [i..<j] \<and> j = i + length ps \<and> es = map (\<lambda>t. Insert anchor PlaceBefore t Replacement oi) ps @ rest"
proof (induction anchor oi i es arbitrary: "is" ps j rest rule: group_inserts.induct)
  case (1 anchor oi i a t oi' es)
  show ?case
  proof (cases "a = anchor \<and> oi' = oi")
    case True
    obtain is1 ps1 j1 rest1 where r: "group_inserts anchor oi (i + 1) es = (is1, ps1, j1, rest1)" by (metis surj_pair)
    have "is = i # is1" "ps = t # ps1" "j = j1" "rest = rest1" using 1(2) True r by auto
    moreover have "is1 = [i + 1..<j1] \<and> j1 = i + 1 + length ps1 \<and> es = map (\<lambda>t. Insert anchor PlaceBefore t Replacement oi) ps1 @ rest1"
      by (rule 1(1) [OF True r])
    ultimately show ?thesis using True by (simp add: upt_conv_Cons del: upt_Suc)
  qed (use 1(2) in auto)
qed auto

lemma group_deletes_spec:
  "group_deletes oi e i es = (is, e') \<Longrightarrow>
     \<exists>n rest. is = [i..<i + n] \<and> e' = e + n \<and> es = map (\<lambda>l. Delete l oi) [e..<e + n] @ rest"
proof (induction oi e i es arbitrary: "is" e' rule: group_deletes.induct)
  case (1 oi e i line oi' es)
  show ?case
  proof (cases "line = e \<and> oi' = oi")
    case True
    obtain is1 e1 where r: "group_deletes oi (e + 1) (i + 1) es = (is1, e1)" by (metis surj_pair)
    have eq: "is = i # is1" "e' = e1" using 1(2) True r by auto
    obtain n rest where "is1 = [i + 1..<i + 1 + n]" "e1 = e + 1 + n" "es = map (\<lambda>l. Delete l oi) [e + 1..<e + 1 + n] @ rest"
      using 1(1) [OF True r] by blast
    then show ?thesis using eq True
      by (intro exI [of _ "Suc n"] exI [of _ rest]) (simp add: upt_conv_Cons del: upt_Suc)
  next
    case False
    then show ?thesis using 1(2) by (intro exI [of _ 0]) auto
  qed
qed (auto intro: exI [of _ 0])

lemma find_group_segment:
  assumes "find_replacement_group edits start = Some g"
  obtains ps n oi rest where "ps \<noteq> []" "0 < n" "gr_payload g = ps" "gr_op_index g = oi"
    "gr_insert_indices g = [start..<start + length ps]" "gr_delete_indices g = [start + length ps..<start + length ps + n]"
    "gr_end_line g = gr_start_line g + n - 1"
    "drop start edits = map (\<lambda>t. Insert (gr_start_line g) PlaceBefore t Replacement oi) ps
       @ map (\<lambda>l. Delete l oi) [gr_start_line g..<gr_start_line g + n] @ rest"
proof -
  obtain anchor t oi where e: "nth_opt edits start = Some (Insert anchor PlaceBefore t Replacement oi)"
    using assms by (auto simp: find_replacement_group_def split: option.splits line_edit.splits insert_place.splits insert_mode.splits)
  obtain "is" ps i rest ds x where g: "group_inserts anchor oi start (drop start edits) = (is, ps, i, rest)"
      "group_deletes oi anchor i rest = (ds, x)"
    by (metis surj_pair)
  have eq: "ds \<noteq> []" "g = \<lparr>gr_insert_indices = is, gr_delete_indices = ds, gr_payload = ps, gr_start_line = anchor, gr_end_line = x - 1, gr_op_index = oi\<rparr>"
    using assms e g by (auto simp: find_replacement_group_def split: if_splits)
  obtain es where es: "drop start edits = Insert anchor PlaceBefore t Replacement oi # es"
    using e by (metis Cons_nth_drop_Suc nth_opt_def option.inject option.distinct(1))
  have ins: "is = [start..<i]" "i = start + length ps" "drop start edits = map (\<lambda>t. Insert anchor PlaceBefore t Replacement oi) ps @ rest"
    using group_inserts_spec [OF g(1)] by blast+
  obtain n rest' where dels: "ds = [i..<i + n]" "x = anchor + n" "rest = map (\<lambda>l. Delete l oi) [anchor..<anchor + n] @ rest'"
    using group_deletes_spec [OF g(2)] by blast
  have "ps \<noteq> []"
    using g(1) unfolding es by (auto split: prod.splits)
  moreover have "0 < n" using eq(1) dels(1) by (cases n) auto
  ultimately show ?thesis by (rule that [of ps n oi rest']) (simp_all add: eq(2) ins dels del: upt_Suc)
qed

definition blank :: "rstr \<Rightarrow> bool" where
  "blank w \<longleftrightarrow> list_all (\<lambda>c. c = 32 \<or> c = 9) w"

lemma blank_append [simp]: "blank (v @ w) \<longleftrightarrow> blank v \<and> blank w"
  by (simp add: blank_def)

lemma blank_leading_indent: "blank (leading_indent l)"
  by (auto simp: blank_def leading_indent_def list_all_iff dest: set_takeWhileD)

lemma reindented_blank:
  "reindented e' e \<longleftrightarrow> e' = e \<or> (\<exists>anchor t oi w. e = Insert anchor PlaceBefore t Replacement oi
     \<and> e' = Insert anchor PlaceBefore (w @ t) Replacement oi \<and> blank w)"
  by (simp add: reindented_def blank_def)

lemma reindented_refl [simp]: "reindented e e"
  by (simp add: reindented_blank)

lemma reindented_trans: "reindented a b \<Longrightarrow> reindented b c \<Longrightarrow> reindented a c"
proof -
  assume a: "reindented a b" and b: "reindented b c"
  show ?thesis
  proof (cases "a = b \<or> b = c")
    case False
    then obtain anchor t oi v where c: "c = Insert anchor PlaceBefore t Replacement oi"
        "b = Insert anchor PlaceBefore (v @ t) Replacement oi" "blank v"
      using b by (auto simp: reindented_blank)
    then obtain u where "a = Insert anchor PlaceBefore ((u @ v) @ t) Replacement oi" "blank (u @ v)"
      using a False by (auto simp: reindented_blank)
    then show ?thesis using c(1) unfolding reindented_blank by blast
  qed (use a b in auto)
qed

lemma reindented_all_refl [simp]: "list_all2 reindented es es"
  by (rule list_all2_refl) simp

lemma reindented_all_trans: "list_all2 reindented as bs \<Longrightarrow> list_all2 reindented bs cs \<Longrightarrow> list_all2 reindented as cs"
  by (rule list_all2_trans [of reindented reindented reindented]) (rule reindented_trans)

lemma indent_shift_blank:
  "indent_shift fl i ps shift k = Some (shift', k') \<Longrightarrow> (\<And>w. shift = Some w \<Longrightarrow> blank w) \<Longrightarrow> shift' = Some w' \<Longrightarrow> blank w'"
proof (induction fl i ps shift k rule: indent_shift.induct)
  case (2 fl i p ps shift k)
  let ?s = "line_or_empty fl i"
  show ?case
  proof (cases "trim ?s = [] \<or> trim_start ?s \<noteq> trim_start p")
    case True
    then show ?thesis using 2(1) [OF refl True] 2(3-5) by simp
  next
    case False
    then obtain c where c: "strip_suffix (leading_indent ?s) (leading_indent p) = Some c" "\<not> (shift \<noteq> None \<and> shift \<noteq> Some c)"
      using 2(3) by (auto simp: Let_def split: option.splits if_splits)
    have "leading_indent ?s = c @ leading_indent p" using c(1) by (simp add: strip_suffix_Some)
    then have "blank c" using blank_leading_indent [of ?s] by (metis blank_append)
    moreover have "indent_shift fl (i + 1) ps (Some c) (k + 1) = Some (shift', k')"
      using 2(3) False c by (auto simp: Let_def)
    ultimately show ?thesis using 2(2) [OF refl False c] 2(5) by simp
  qed
qed auto

lemma group_shift_blank: "group_shift g fl = Some shift \<Longrightarrow> blank shift"
  using indent_shift_blank [of fl "gr_start_line g - 1" "gr_payload g" None 0]
  by (auto simp: group_shift_def Let_def split: if_splits option.splits)

lemma shift_edit_reindented: "blank shift \<Longrightarrow> is_replacement e \<Longrightarrow> reindented (shift_edit shift e) e \<and> is_replacement (shift_edit shift e)"
  by (auto simp: reindented_blank is_replacement_def split: line_edit.splits insert_place.splits insert_mode.splits)

lemma shift_edits_reindented:
  assumes "blank shift" "\<forall>i \<in> set is. i < length edits \<and> is_replacement (edits ! i)"
  shows "list_all2 reindented (shift_edits shift is edits) edits"
  using assms(2) unfolding shift_edits_def
proof (induction "is" arbitrary: edits)
  case (Cons i "is")
  let ?es = "edits[i := shift_edit shift (edits ! i)]"
  have r: "reindented (shift_edit shift (edits ! i)) (edits ! i)" "is_replacement (shift_edit shift (edits ! i))"
    using shift_edit_reindented [OF assms(1)] Cons.prems by auto
  have "list_all2 reindented ?es edits" using r(1) Cons.prems by (auto simp: list_all2_conv_all_nth nth_list_update)
  moreover have "\<forall>k \<in> set is. k < length ?es \<and> is_replacement (?es ! k)"
    using Cons.prems r(2) by (auto simp: nth_list_update)
  ultimately show ?case using reindented_all_trans [OF Cons.IH [of ?es]] by simp
qed simp

lemma group_inserts_replacement:
  assumes "find_replacement_group edits start = Some g" "i \<in> set (gr_insert_indices g)"
  shows "i < length edits \<and> is_replacement (edits ! i)"
proof -
  obtain ps n oi rest where s: "gr_insert_indices g = [start..<start + length ps]"
    "drop start edits = map (\<lambda>t. Insert (gr_start_line g) PlaceBefore t Replacement oi) ps
       @ map (\<lambda>l. Delete l oi) [gr_start_line g..<gr_start_line g + n] @ rest"
    using find_group_segment [OF assms(1)] by metis
  have i: "start \<le> i" "i - start < length ps" using assms(2) s(1) by auto
  then have "i - start < length (drop start edits)" unfolding s(2) by simp
  then have "i < length edits" by simp
  moreover have "edits ! i = drop start edits ! (i - start)" using i calculation by simp
  then have "is_replacement (edits ! i)" using i unfolding s(2) by (simp add: nth_append is_replacement_def)
  ultimately show ?thesis by simp
qed

lemma repair_indent_reindented:
  "list_all2 reindented (snd (repair_indent_from fl start edits ws)) edits"
proof (induction fl start edits ws rule: repair_indent_from.induct)
  case (1 fl start edits ws)
  show ?case
  proof (cases "start < length edits")
    case True
    show ?thesis
    proof (cases "find_replacement_group edits start")
      case None
      then show ?thesis using 1(1) [OF _ None] True by (subst repair_indent_from.simps) simp
    next
      case g: (Some g)
      show ?thesis
      proof (cases "group_shift g fl")
        case None
        then show ?thesis using 1(2) [OF _ g refl None] True g by (subst repair_indent_from.simps) (simp add: Let_def)
      next
        case (Some shift)
        have "list_all2 reindented (shift_edits shift (gr_insert_indices g) edits) edits"
          using shift_edits_reindented [OF group_shift_blank [OF Some]] group_inserts_replacement [OF g] by blast
        moreover note 1(3) [OF _ g refl Some]
        ultimately have "list_all2 reindented (snd (repair_indent_from fl (last (gr_delete_indices g) + 1)
            (shift_edits shift (gr_insert_indices g) edits) (ws @ [indent_warning g]))) edits"
          using True reindented_all_trans by blast
        then show ?thesis using True g Some by (subst repair_indent_from.simps) (simp add: Let_def)
      qed
    qed
  qed (subst repair_indent_from.simps, simp)
qed

lemma echo_group_thinned:
  assumes "echo_group g fl = (kept, ws)" "list_all (\<lambda>i. is_replacement (edits ! i)) (gr_insert_indices g)"
  shows "thinned (map ((!) edits) kept) (map ((!) edits) (gr_insert_indices g))"
proof -
  let ?es = "map ((!) edits) (gr_insert_indices g)"
  have all: "list_all is_replacement ?es" using assms(2) by (simp add: list_all_iff)
  have "list_all is_replacement (drop n ?es)" for n using all by (meson in_set_dropD list_all_iff)
  then have "thinned (take m (drop n ?es)) ?es" for m n
    using thinned_trans [OF thinned_drop_front [OF all] thinned_drop_back] by blast
  from this [of _ _] this [of _ 0] thinned_drop_front [OF all] show ?thesis
    using assms(1) thinned_refl [of ?es]
    by (auto simp: echo_group_def Let_def take_map drop_map split: option.splits echo_side.splits)
qed

lemma segment_nth: "drop i xs = a @ b \<Longrightarrow> map ((!) xs) [i..<i + length a] = a \<and> drop (i + length a) xs = b"
proof -
  assume d: "drop i xs = a @ b"
  have "length a \<le> length (drop i xs)" unfolding d by simp
  then have "map ((!) xs) [i..<i + length a] = take (length a) (drop i xs)" by (intro nth_equalityI) auto
  then show ?thesis using d drop_after by auto
qed

lemma group_segment:
  assumes "find_replacement_group edits i = Some g"
  shows "drop i edits = map ((!) edits) (gr_insert_indices g) @ map ((!) edits) (gr_delete_indices g)
    @ drop (last (gr_delete_indices g) + 1) edits"
proof -
  obtain ps n oi rest where s: "0 < n" "gr_insert_indices g = [i..<i + length ps]"
    "gr_delete_indices g = [i + length ps..<i + length ps + n]"
    "drop i edits = map (\<lambda>t. Insert (gr_start_line g) PlaceBefore t Replacement oi) ps
       @ map (\<lambda>l. Delete l oi) [gr_start_line g..<gr_start_line g + n] @ rest"
    using find_group_segment [OF assms] by metis
  note ins = segment_nth [OF s(4)]
  note dels = segment_nth [OF conjunct2 [OF ins]]
  have "last (gr_delete_indices g) + 1 = i + length ps + n" using s(1,3) by simp
  then show ?thesis using ins dels unfolding s(2,3,4) by simp
qed

lemma repair_echo_thinned:
  "\<exists>es'. snd (repair_echo_from fl edits i rebuilt ws) = rebuilt @ es' \<and> thinned es' (drop i edits)"
proof (induction fl edits i rebuilt ws rule: repair_echo_from.induct)
  case (1 fl edits i rebuilt ws)
  show ?case
  proof (cases "i < length edits")
    case True
    show ?thesis
    proof (cases "find_replacement_group edits i")
      case None
      obtain es' where "snd (repair_echo_from fl edits (i + 1) (rebuilt @ [edits ! i]) ws) = (rebuilt @ [edits ! i]) @ es'"
          "thinned es' (drop (i + 1) edits)"
        using 1(1) [OF _ None] True by blast
      moreover have "drop i edits = edits ! i # drop (i + 1) edits" using True by (simp add: Cons_nth_drop_Suc)
      ultimately show ?thesis using None True
        by (subst repair_echo_from.simps) (auto intro: thinned_keep)
    next
      case g: (Some g)
      obtain kept ws' where k: "echo_group g fl = (kept, ws')" by (metis surj_pair)
      let ?j = "last (gr_delete_indices g) + 1"
      obtain es' where es': "snd (repair_echo_from fl edits ?j (rebuilt @ map ((!) edits) kept @ map ((!) edits) (gr_delete_indices g)) (ws @ ws'))
          = (rebuilt @ map ((!) edits) kept @ map ((!) edits) (gr_delete_indices g)) @ es'" "thinned es' (drop ?j edits)"
        using 1(2) [OF _ g k [symmetric] refl] True by blast
      note seg = group_segment [OF g]
      have "thinned (map ((!) edits) kept) (map ((!) edits) (gr_insert_indices g))"
        by (rule echo_group_thinned [OF k]) (use group_inserts_replacement [OF g] in \<open>simp add: list_all_iff\<close>)
      then have "thinned (map ((!) edits) kept @ map ((!) edits) (gr_delete_indices g) @ es') (drop i edits)"
        unfolding seg by (intro thinned_append thinned_refl es'(2))
      then show ?thesis using g True es'(1) k
        by (subst repair_echo_from.simps) (simp add: Let_def)
    qed
  next
    case False
    then show ?thesis by (subst repair_echo_from.simps) (simp add: thinned_Nil)
  qed
qed

lemma repair_indent_silent:
  "\<exists>v. fst (repair_indent_from fl start edits ws) = ws @ v \<and> (v = [] \<longrightarrow> snd (repair_indent_from fl start edits ws) = edits)"
proof (induction fl start edits ws rule: repair_indent_from.induct)
  case (1 fl start edits ws)
  show ?case
  proof (cases "start < length edits")
    case True
    show ?thesis
    proof (cases "find_replacement_group edits start")
      case None
      then show ?thesis using 1(1) [OF _ None] True by (subst (1 2) repair_indent_from.simps) simp
    next
      case g: (Some g)
      show ?thesis
      proof (cases "group_shift g fl")
        case None
        then show ?thesis using 1(2) [OF _ g refl None] True g by (subst (1 2) repair_indent_from.simps) (simp add: Let_def)
      next
        case (Some shift)
        obtain v where "fst (repair_indent_from fl (last (gr_delete_indices g) + 1) (shift_edits shift (gr_insert_indices g) edits)
            (ws @ [indent_warning g])) = (ws @ [indent_warning g]) @ v"
          using 1(3) [OF _ g refl Some] True by blast
        then show ?thesis using True g Some
          by (subst (1 2) repair_indent_from.simps) (simp add: Let_def)
      qed
    qed
  qed (subst (1 2) repair_indent_from.simps, simp)
qed

lemma echo_group_silent: "echo_group g fl = (kept, []) \<Longrightarrow> kept = gr_insert_indices g"
  by (auto simp: echo_group_def Let_def split: option.splits echo_side.splits)

lemma repair_echo_silent:
  "\<exists>v. fst (repair_echo_from fl edits i rebuilt ws) = ws @ v
     \<and> (v = [] \<longrightarrow> snd (repair_echo_from fl edits i rebuilt ws) = rebuilt @ drop i edits)"
proof (induction fl edits i rebuilt ws rule: repair_echo_from.induct)
  case (1 fl edits i rebuilt ws)
  show ?case
  proof (cases "i < length edits")
    case True
    show ?thesis
    proof (cases "find_replacement_group edits i")
      case None
      have "drop i edits = edits ! i # drop (i + 1) edits" using True by (simp add: Cons_nth_drop_Suc)
      then show ?thesis using 1(1) [OF _ None] True None by (subst (1 2) repair_echo_from.simps) simp
    next
      case g: (Some g)
      obtain kept ws' where k: "echo_group g fl = (kept, ws')" by (metis surj_pair)
      let ?j = "last (gr_delete_indices g) + 1"
      let ?rb = "rebuilt @ map ((!) edits) kept @ map ((!) edits) (gr_delete_indices g)"
      obtain v where v: "fst (repair_echo_from fl edits ?j ?rb (ws @ ws')) = (ws @ ws') @ v"
          "v = [] \<longrightarrow> snd (repair_echo_from fl edits ?j ?rb (ws @ ws')) = ?rb @ drop ?j edits"
        using 1(2) [OF _ g k [symmetric] refl] True by blast
      have "?rb @ drop ?j edits = rebuilt @ drop i edits" if "ws' = []"
        using group_segment [OF g] echo_group_silent [of g fl kept] k that by simp
      then show ?thesis using v g True k
        by (subst (1 2) repair_echo_from.simps) (auto simp: Let_def)
    qed
  qed (subst (1 2) repair_echo_from.simps, simp)
qed

lemma thinned_subset: "thinned es' es \<Longrightarrow> set es' \<subseteq> set es \<and> deleted_lines es' = deleted_lines es"
proof (induction rule: thinned.induct)
  case (thinned_keep es' es e)
  then show ?case by (cases e) auto
next
  case (thinned_drop es' es e)
  then show ?case by (cases e) (auto simp: is_replacement_def)
qed simp

lemma reindented_same:
  "list_all2 reindented es' es \<Longrightarrow> deleted_lines es' = deleted_lines es \<and> map edit_line es' = map edit_line es"
proof (induction rule: list_all2_induct)
  case (Cons e' es' e es)
  then show ?case by (cases e) (auto simp: reindented_blank)
qed simp

lemma set_edit_texts: "t \<in> set (edit_texts es) \<longleftrightarrow> (\<exists>a p m oi. Insert a p t m oi \<in> set es)"
proof (induction es)
  case (Cons e es)
  then show ?case by (cases e) auto
qed simp

lemma reindented_texts:
  assumes "list_all2 reindented es' es" "t' \<in> set (edit_texts es')"
  shows "\<exists>w t. t' = w @ t \<and> blank w \<and> t \<in> set (edit_texts es)"
proof -
  obtain a p m oi where "Insert a p t' m oi \<in> set es'" using assms(2) by (auto simp: set_edit_texts)
  then obtain e where e: "e \<in> set es" "reindented (Insert a p t' m oi) e"
    using assms(1) by (metis in_set_conv_nth list_all2_conv_all_nth)
  then consider "e = Insert a p t' m oi" | t w where "e = Insert a PlaceBefore t Replacement oi" "t' = w @ t" "blank w"
    by (auto simp: reindented_blank)
  then show ?thesis
  proof cases
    case 1
    then have "t' \<in> set (edit_texts es)" using e(1) set_edit_texts by blast
    then show ?thesis by (intro exI [of _ "[]"] exI [of _ t']) (simp add: blank_def)
  next
    case (2 t w)
    then have "t \<in> set (edit_texts es)" using e(1) set_edit_texts by blast
    then show ?thesis using 2 by blast
  qed
qed

text \<open>The layers together: rows are deleted as before, every edit stands where one stood before, every text is one of
  the old ones up to an indent, and without a warning nothing has changed.\<close>

lemma apply_repair_layers_spec:
  fixes edits :: "line_edit list" and fl :: "rstr list"
  defines "out \<equiv> apply_repair_layers edits fl"
  shows "deleted_lines (rp_edits out) = deleted_lines edits"
    and "edit_line ` set (rp_edits out) \<subseteq> edit_line ` set edits"
    and "t' \<in> set (edit_texts (rp_edits out)) \<Longrightarrow> \<exists>w t. t' = w @ t \<and> blank w \<and> t \<in> set (edit_texts edits)"
    and "rp_warnings out = [] \<Longrightarrow> rp_edits out = edits"
proof -
  obtain wi es where i: "repair_replacement_indentation edits fl = (wi, es)" by (metis surj_pair)
  obtain we es' where e: "repair_boundary_echoes es fl = (we, es')" by (metis surj_pair)
  have out: "rp_edits out = es'" "rp_warnings out = wi @ we" by (simp_all add: out_def apply_repair_layers_def i e)
  have r: "list_all2 reindented es edits"
    using repair_indent_reindented [of fl 0 edits "[]"] i by (simp add: repair_replacement_indentation_def)
  have t: "thinned es' es"
    using repair_echo_thinned [of fl es 0 "[]" "[]"] e by (simp add: repair_boundary_echoes_def)
  show "deleted_lines (rp_edits out) = deleted_lines edits" using thinned_subset [OF t] reindented_same [OF r] out by simp
  have "edit_line ` set es = edit_line ` set edits" using reindented_same [OF r] by (metis list.set_map)
  then show "edit_line ` set (rp_edits out) \<subseteq> edit_line ` set edits" using thinned_subset [OF t] out by blast
  show "\<exists>w t. t' = w @ t \<and> blank w \<and> t \<in> set (edit_texts edits)" if "t' \<in> set (edit_texts (rp_edits out))"
  proof (rule reindented_texts [OF r])
    show "t' \<in> set (edit_texts es)" using that thinned_subset [OF t] out unfolding set_edit_texts by blast
  qed
  show "rp_edits out = edits" if "rp_warnings out = []"
  proof -
    have "es = edits" using repair_indent_silent [of fl 0 edits "[]"] i that out by (simp add: repair_replacement_indentation_def)
    moreover have "es' = es" using repair_echo_silent [of fl es 0 "[]" "[]"] e that out by (simp add: repair_boundary_echoes_def)
    ultimately show ?thesis using out by simp
  qed
qed

end
