(* ===== verification/Hashline_Registers.thy ===== *)
theory Hashline_Registers
  imports Hashline_Syntax
begin

text \<open>
  Clipboard registers of a session, \<^verbatim>\<open>crates/aft/src/hashline/apply/registers.rs\<close>: the session's store, the fork a request stages
  its captures on, the bounds a capture is checked against, and the reads of a PUT.

  A capture keeps the working store within its bounds, and changes no other register.
\<close>

section \<open>The store\<close>

definition MAX_NAMED_REGISTERS :: nat where "MAX_NAMED_REGISTERS = 64"
definition MAX_REGISTER_BYTES :: nat where "MAX_REGISTER_BYTES = 8 * 1024 * 1024"
definition MAX_REGISTER_TOTAL_BYTES :: nat where "MAX_REGISTER_TOTAL_BYTES = 32 * 1024 * 1024"

record register_store =
  reg_named :: "(rstr, rstr list) btree_map"
  reg_anonymous :: "rstr list option"

definition register_store_new :: register_store where
  "register_store_new = \<lparr>reg_named = [], reg_anonymous = None\<rparr>"

definition named_count :: "register_store \<Rightarrow> nat" where
  "named_count st = length (reg_named st)"

fun register_get :: "register_store \<Rightarrow> register_ref \<Rightarrow> rstr list option" where
  "register_get st Anonymous = reg_anonymous st"
| "register_get st (Named name) = bt_get (reg_named st) name"

definition register_payload_bytes :: "rstr list \<Rightarrow> nat" where
  "register_payload_bytes lines =
     (if lines = [] then 0 else sum_list (map str_len lines) + (length lines - 1))"

definition register_total_bytes :: "register_store \<Rightarrow> nat" where
  "register_total_bytes st =
     sum_list (map register_payload_bytes (bt_values (reg_named st)))
     + (case reg_anonymous st of Some lines \<Rightarrow> register_payload_bytes lines | None \<Rightarrow> 0)"

definition register_clear :: "register_store \<Rightarrow> register_store" where
  "register_clear st = \<lparr>reg_named = [], reg_anonymous = None\<rparr>"

section \<open>Staged captures\<close>

record register_write =
  rw_register :: register_ref
  rw_lines :: "rstr list"

record staged_registers =
  sg_base :: register_store
  sg_working :: register_store
  sg_writes :: "register_write list"

definition stage_registers :: "register_store \<Rightarrow> staged_registers" where
  "stage_registers st = \<lparr>sg_base = st, sg_working = st, sg_writes = []\<rparr>"

definition commit_staged :: "register_store \<Rightarrow> staged_registers \<Rightarrow> register_store" where
  "commit_staged st staged = sg_working staged"

definition register_overflow :: "rstr \<Rightarrow> hashline_rejection" where
  "register_overflow message = rejection_new CodeRegisterOverflow StageRegister message"

definition check_register_bounds :: "register_store \<Rightarrow> register_ref \<Rightarrow> rstr list \<Rightarrow> hashline_rejection + unit" where
  "check_register_bounds st register lines =
     (let incoming = register_payload_bytes lines in
      if incoming > MAX_REGISTER_BYTES
      then Inl (register_overflow (lit ''a single register capture exceeds MAX_REGISTER_BYTES''))
      else
        (let previous = (case register_get st register of Some ls \<Rightarrow> register_payload_bytes ls | None \<Rightarrow> 0);
             sum = register_total_bytes st - previous + incoming
         in if sum > MAX_REGISTER_TOTAL_BYTES
            then Inl (register_overflow (lit ''register captures would exceed MAX_REGISTER_TOTAL_BYTES''))
            else
              (case register of
                 Named name \<Rightarrow>
                   if bt_get (reg_named st) name = None \<and> length (reg_named st) \<ge> MAX_NAMED_REGISTERS
                   then Inl (register_overflow (lit ''named register count would exceed MAX_NAMED_REGISTERS''))
                   else Inr ()
               | Anonymous \<Rightarrow> Inr ())))"

definition write_register :: "register_store \<Rightarrow> register_ref \<Rightarrow> rstr list \<Rightarrow> hashline_rejection + register_store" where
  "write_register st register lines =
     (case register of
        Anonymous \<Rightarrow> Inr (st\<lparr>reg_anonymous := Some lines\<rparr>)
      | Named name \<Rightarrow>
          if bt_get (reg_named st) name = None \<and> length (reg_named st) \<ge> MAX_NAMED_REGISTERS
          then Inl (register_overflow (lit ''named register count would exceed MAX_NAMED_REGISTERS''))
          else Inr (st\<lparr>reg_named := bt_insert name lines (reg_named st)\<rparr>))"

definition capture_register :: "staged_registers \<Rightarrow> register_ref \<Rightarrow> rstr list \<Rightarrow> hashline_rejection + staged_registers" where
  "capture_register staged register lines =
     and_then (check_register_bounds (sg_working staged) register lines) (\<lambda>_.
       and_then (write_register (sg_working staged) register lines) (\<lambda>working.
         Inr (staged\<lparr>sg_working := working,
                     sg_writes := sg_writes staged @ [\<lparr>rw_register = register, rw_lines = lines\<rparr>]\<rparr>)))"

definition read_for_put :: "staged_registers \<Rightarrow> register_ref \<Rightarrow> bool \<Rightarrow> hashline_rejection + rstr list" where
  "read_for_put staged register target_is_span =
     (case register_get (sg_working staged) register of
        Some lines \<Rightarrow>
          if lines \<noteq> [] \<or> \<not> target_is_span then Inr lines
          else Inl (rejection_new CodeParseError StageRegister (lit ''register paste over a span requires a non-empty capture''))
      | None \<Rightarrow>
          if register \<noteq> Anonymous \<and> \<not> target_is_span then Inr []
          else Inl (rejection_new CodeParseError StageRegister (lit ''register is empty or unknown for this PUT'')))"

section \<open>Bounds\<close>

definition register_values :: "register_store \<Rightarrow> rstr list list" where
  "register_values st = bt_values (reg_named st) @ (case reg_anonymous st of Some lines \<Rightarrow> [lines] | None \<Rightarrow> [])"

definition registers_ok :: "register_store \<Rightarrow> bool" where
  "registers_ok st \<longleftrightarrow> bt_inv (reg_named st) \<and> named_count st \<le> MAX_NAMED_REGISTERS
     \<and> list_all (\<lambda>lines. register_payload_bytes lines \<le> MAX_REGISTER_BYTES) (register_values st)
     \<and> register_total_bytes st \<le> MAX_REGISTER_TOTAL_BYTES"

definition staged_ok :: "staged_registers \<Rightarrow> bool" where
  "staged_ok staged \<longleftrightarrow> registers_ok (sg_working staged)"

text \<open>What planning relies on: a capture is what the next read of its register gives, no other register changes, and an
  invariant is kept. A sequence of captures then reads as the latest capture of each register.\<close>

fun capture_all :: "('s \<Rightarrow> 'r \<Rightarrow> 'l \<Rightarrow> 'e + 's) \<Rightarrow> 's \<Rightarrow> ('r \<times> 'l) list \<Rightarrow> 'e + 's" where
  "capture_all capture s [] = Inr s"
| "capture_all capture s ((r, l) # ws) = and_then (capture s r l) (\<lambda>s'. capture_all capture s' ws)"

locale register_file =
  fixes get :: "'s \<Rightarrow> 'r \<Rightarrow> 'l option"
    and capture :: "'s \<Rightarrow> 'r \<Rightarrow> 'l \<Rightarrow> 'e + 's"
    and ok :: "'s \<Rightarrow> bool"
  assumes get_capture: "ok s \<Longrightarrow> capture s r l = Inr s' \<Longrightarrow> get s' r' = (if r' = r then Some l else get s r')"
    and ok_capture: "ok s \<Longrightarrow> capture s r l = Inr s' \<Longrightarrow> ok s'"
begin

lemma capture_all_ok: "ok s \<Longrightarrow> capture_all capture s ws = Inr s' \<Longrightarrow> ok s'"
proof (induction ws arbitrary: s)
  case (Cons w ws)
  then obtain s1 where "capture s (fst w) (snd w) = Inr s1" "capture_all capture s1 ws = Inr s'"
    by (cases w) (auto simp: and_then_Inr)
  then show ?case using Cons.IH ok_capture [OF Cons.prems(1)] by blast
qed simp

lemma capture_all_get:
  "ok s \<Longrightarrow> capture_all capture s ws = Inr s' \<Longrightarrow> get s' r = (case map_of (rev ws) r of Some l \<Rightarrow> Some l | None \<Rightarrow> get s r)"
proof (induction ws arbitrary: s)
  case (Cons w ws)
  obtain r' l where w: "w = (r', l)" by (cases w)
  obtain s1 where s1: "capture s r' l = Inr s1" "capture_all capture s1 ws = Inr s'" using Cons.prems(2) w by (auto simp: and_then_Inr)
  have "get s' r = (case map_of (rev ws) r of Some l \<Rightarrow> Some l | None \<Rightarrow> get s1 r)"
    using Cons.IH s1 ok_capture [OF Cons.prems(1) s1(1)] by simp
  then show ?case using get_capture [OF Cons.prems(1) s1(1)] w by (auto simp: map_add_def split: option.splits)
qed simp

end

lemma payload_values_sum: "register_total_bytes st = sum_list (map register_payload_bytes (register_values st))"
  by (simp add: register_total_bytes_def register_values_def split: option.splits)

lemma total_after_write:
  assumes "bt_inv (reg_named st)" "write_register st r lines = Inr st'"
  shows "register_total_bytes st' + (case register_get st r of Some ls \<Rightarrow> register_payload_bytes ls | None \<Rightarrow> 0)
    = register_total_bytes st + register_payload_bytes lines"
proof (cases r)
  case Anonymous
  then show ?thesis using assms(2) by (auto simp: write_register_def register_total_bytes_def split: option.splits)
next
  case (Named name)
  then have "st' = st\<lparr>reg_named := bt_insert name lines (reg_named st)\<rparr>" using assms(2) by (auto simp: write_register_def split: if_splits)
  then show ?thesis using bt_sum_insert [OF assms(1), of register_payload_bytes name lines] Named
    by (simp add: register_total_bytes_def)
qed

lemma get_after_write:
  "bt_inv (reg_named st) \<Longrightarrow> write_register st r lines = Inr st' \<Longrightarrow> register_get st' r' = (if r' = r then Some lines else register_get st r')"
  by (cases r; cases r') (auto simp: write_register_def bt_get_insert split: if_splits)

lemma values_after_write:
  assumes "bt_inv (reg_named st)" "write_register st r lines = Inr st'"
  shows "set (register_values st') \<subseteq> insert lines (set (register_values st))"
proof (cases r)
  case Anonymous
  then show ?thesis using assms(2) by (auto simp: write_register_def register_values_def)
next
  case (Named name)
  then have "st' = st\<lparr>reg_named := bt_insert name lines (reg_named st)\<rparr>" using assms(2) by (auto simp: write_register_def split: if_splits)
  then show ?thesis using set_bt_insert_entries [OF assms(1), of name lines]
    by (auto simp: register_values_def bt_values_def image_iff split: option.splits)
qed

lemma capture_cases:
  assumes "capture_register staged r lines = Inr staged'"
  obtains "check_register_bounds (sg_working staged) r lines = Inr ()" "write_register (sg_working staged) r lines = Inr (sg_working staged')"
    "sg_base staged' = sg_base staged" "sg_writes staged' = sg_writes staged @ [\<lparr>rw_register = r, rw_lines = lines\<rparr>]"
  using assms by (auto simp: capture_register_def and_then_Inr)

lemma capture_bounds:
  assumes "registers_ok st" "check_register_bounds st r lines = Inr ()" "write_register st r lines = Inr st'"
  shows "registers_ok st'"
proof -
  have inv: "bt_inv (reg_named st)" using assms(1) by (simp add: registers_ok_def)
  have b: "register_payload_bytes lines \<le> MAX_REGISTER_BYTES"
    "register_total_bytes st - (case register_get st r of Some ls \<Rightarrow> register_payload_bytes ls | None \<Rightarrow> 0) + register_payload_bytes lines \<le> MAX_REGISTER_TOTAL_BYTES"
    using assms(2) by (auto simp: check_register_bounds_def Let_def split: if_splits)
  have "bt_inv (reg_named st') \<and> named_count st' \<le> MAX_NAMED_REGISTERS"
    using assms(1,3) inv by (cases r) (auto simp: write_register_def registers_ok_def named_count_def bt_insert_inv bt_length_insert split: if_splits)
  moreover have "register_total_bytes st' \<le> MAX_REGISTER_TOTAL_BYTES" using total_after_write [OF inv assms(3)] b(2) by linarith
  moreover have "\<forall>ls \<in> set (register_values st'). register_payload_bytes ls \<le> MAX_REGISTER_BYTES"
    using values_after_write [OF inv assms(3)] assms(1) b(1) by (auto simp: registers_ok_def list_all_iff)
  ultimately show ?thesis by (simp add: registers_ok_def list_all_iff)
qed

interpretation registers: register_file "\<lambda>staged. register_get (sg_working staged)" capture_register staged_ok
proof
  fix s r l s' r'
  assume ok: "staged_ok s" and c: "capture_register s r l = Inr s'"
  have inv: "bt_inv (reg_named (sg_working s))" using ok by (simp add: staged_ok_def registers_ok_def)
  from c obtain k: "check_register_bounds (sg_working s) r l = Inr ()" "write_register (sg_working s) r l = Inr (sg_working s')"
    by (rule capture_cases)
  show "register_get (sg_working s') r' = (if r' = r then Some l else register_get (sg_working s) r')"
    by (rule get_after_write [OF inv k(2)])
  show "staged_ok s'" using capture_bounds [OF _ k] ok by (simp add: staged_ok_def)
qed

lemma register_store_new_ok: "registers_ok register_store_new"
  by (simp add: registers_ok_def register_store_new_def bt_inv_def named_count_def register_values_def register_total_bytes_def bt_values_def)

end
