(* ===== verification/Hashline_Plan.thy ===== *)
theory Hashline_Plan
  imports Hashline_Repair Hashline_Registers
begin

text \<open>
  Planning of the hashline apply phase, \<^verbatim>\<open>crates/aft/src/hashline/apply/mod.rs\<close>: the lowering of PUT and CUT, the application of a
  section to a baseline, the composition of several sections of one path, the plan of a patch, and the commit of the staged
  registers.

  A result of type \<open>(hashline_rejection + 'a) option\<close> is \<open>None\<close> where the source panics: an \<^verbatim>\<open>unreachable!\<close> or a range out of
  bounds. Paths are strings; canonical paths come from outside.
\<close>

section \<open>Classifications\<close>

datatype mutation_state = Unmutated | StateApplied | UnknownPossiblyMutated | PartialMv

fun mutation_as_str :: "mutation_state \<Rightarrow> rstr" where
  "mutation_as_str Unmutated = lit ''unmutated''"
| "mutation_as_str StateApplied = lit ''applied''"
| "mutation_as_str UnknownPossiblyMutated = lit ''unknown_possibly_mutated''"
| "mutation_as_str PartialMv = lit ''partial_mv''"

datatype file_classification =
  Applied | AppliedWithValidationFailure | AppliedTagUnavailable | FailedBackup | FailedWrite | FailedDurability
| FailedSourceUnlink | FailedBaselineDrift | NotAttempted

fun classification_as_str :: "file_classification \<Rightarrow> rstr" where
  "classification_as_str Applied = lit ''applied''"
| "classification_as_str AppliedWithValidationFailure = lit ''applied_with_validation_failure''"
| "classification_as_str AppliedTagUnavailable = lit ''applied_tag_unavailable''"
| "classification_as_str FailedBackup = lit ''failed_backup''"
| "classification_as_str FailedWrite = lit ''failed_write''"
| "classification_as_str FailedDurability = lit ''failed_durability''"
| "classification_as_str FailedSourceUnlink = lit ''failed_source_unlink''"
| "classification_as_str FailedBaselineDrift = lit ''failed_baseline_drift''"
| "classification_as_str NotAttempted = lit ''not_attempted''"

definition is_applied_star :: "file_classification \<Rightarrow> bool" where
  "is_applied_star c \<longleftrightarrow> c \<in> {Applied, AppliedWithValidationFailure, AppliedTagUnavailable}"

definition is_stopping_failure :: "file_classification \<Rightarrow> bool" where
  "is_stopping_failure c \<longleftrightarrow> c \<in> {FailedBackup, FailedWrite, FailedDurability, FailedSourceUnlink, FailedBaselineDrift}"

fun mutation_state_of :: "file_classification \<Rightarrow> mutation_state" where
  "mutation_state_of Applied = StateApplied"
| "mutation_state_of AppliedWithValidationFailure = StateApplied"
| "mutation_state_of AppliedTagUnavailable = StateApplied"
| "mutation_state_of FailedBackup = Unmutated"
| "mutation_state_of FailedBaselineDrift = Unmutated"
| "mutation_state_of NotAttempted = Unmutated"
| "mutation_state_of FailedWrite = UnknownPossiblyMutated"
| "mutation_state_of FailedDurability = UnknownPossiblyMutated"
| "mutation_state_of FailedSourceUnlink = PartialMv"

section \<open>Plans\<close>

record planned_file =
  pf_canonical_path :: rstr
  pf_requested_path :: rstr
  pf_baseline_bytes :: "byte list"
  pf_final_bytes :: "byte list"
  pf_affected :: affected_region
  pf_remove_file :: bool
  pf_warnings :: "rstr list"
  pf_repair_layers :: "rstr list"

record apply_plan =
  ap_files :: "planned_file list"
  ap_staged_registers :: staged_registers

record file_result =
  fr_canonical_path :: rstr
  fr_requested_path :: rstr
  fr_classification :: file_classification
  fr_mutation_state :: mutation_state
  fr_final_bytes :: "byte list option"
  fr_affected :: affected_region
  fr_warnings :: "rstr list"
  fr_remove_file :: bool

record apply_result_envelope =
  ar_success :: bool
  ar_complete :: bool
  ar_files :: "file_result list"
  ar_registers_committed :: bool

type_synonym resolved_operation = "nat \<times> resolved_address"

record section_plan_input =
  in_canonical_path :: rstr
  in_requested_path :: rstr
  in_baseline :: baseline
  in_snapshot :: snapshot
  in_operations :: "operation list"
  in_resolved :: "resolved_operation list"

text \<open>The \<^verbatim>\<open>?\<close> operator in code that may also panic.\<close>

definition try_then :: "('e + 'a) option \<Rightarrow> ('a \<Rightarrow> ('e + 'b) option) \<Rightarrow> ('e + 'b) option" where
  "try_then r f = (case r of None \<Rightarrow> None | Some (Inl e) \<Rightarrow> Some (Inl e) | Some (Inr x) \<Rightarrow> f x)"

section \<open>Lowering\<close>

definition gap_place :: "resolved_gap \<Rightarrow> nat \<times> insert_place" where
  "gap_place gap =
     (let (anchor, place) =
        (case (rg_before gap, rg_after gap) of
           (None, None) \<Rightarrow> (1, PlaceBof)
         | (Some before, _) \<Rightarrow> (before, PlaceAfter)
         | (None, Some after) \<Rightarrow> if after = 1 then (1, PlaceBof) else (after, PlaceBefore));
          place =
        (if rg_before gap \<noteq> None \<and> rg_after gap = None then PlaceAfter
         else if rg_before gap = None \<and> rg_after gap = None then PlaceBof
         else if rg_before gap = None \<and> rg_after gap = Some 1 then PlaceBof
         else place);
          place =
        (if rg_before gap \<noteq> None \<and> rg_after gap = None \<and> place = PlaceAfter then PlaceEof else place)
      in (anchor, place))"

fun lower_put_body :: "resolved_address \<Rightarrow> rstr list \<Rightarrow> nat \<Rightarrow> line_edit list" where
  "lower_put_body (AtSpan sp) body oi =
     map (\<lambda>text. Insert (sp_start sp) PlaceBefore text Replacement oi) body
     @ map (\<lambda>line. Delete line oi) [sp_start sp..<Suc (sp_end sp)]"
| "lower_put_body (AtGap gap) body oi =
     (let (anchor, place) = gap_place gap in map (\<lambda>text. Insert anchor place text Plain oi) body)"
| "lower_put_body WholeFile body oi = map (\<lambda>text. Insert 1 PlaceBefore text Replacement oi) body"
| "lower_put_body (BlockAnchor _) body oi = []"
| "lower_put_body (BlockGapAnchor _ _) body oi = []"

definition lower_put :: "put_source \<Rightarrow> resolved_address \<Rightarrow> staged_registers \<Rightarrow> nat \<Rightarrow> hashline_rejection + line_edit list" where
  "lower_put source a registers oi =
     (let target_is_span = (case a of AtSpan _ \<Rightarrow> True | _ \<Rightarrow> False) in
      and_then (case source of Text lines \<Rightarrow> Inr lines | Register r \<Rightarrow> read_for_put registers r target_is_span) (\<lambda>body.
        Inr (lower_put_body a body oi)))"

definition cut_span :: "resolved_address \<Rightarrow> rstr list \<Rightarrow> hashline_rejection + line_span option" where
  "cut_span a lines =
     (case a of
        AtSpan sp \<Rightarrow> Inr (Some sp)
      | WholeFile \<Rightarrow> Inr (if lines = [] then None else Some \<lparr>sp_start = 1, sp_end = length lines\<rparr>)
      | _ \<Rightarrow> Inl (rejection_eligibility CodeBoundaryIneligible (lit ''CUT requires a line or range address'')))"

definition lower_cut ::
    "register_ref option \<Rightarrow> resolved_address \<Rightarrow> rstr list \<Rightarrow> staged_registers \<Rightarrow> nat \<Rightarrow> hashline_rejection + line_edit list \<times> staged_registers" where
  "lower_cut register a lines registers oi =
     and_then (cut_span a lines) (\<lambda>sp.
       case sp of
         None \<Rightarrow> Inr ([], registers)
       | Some sp \<Rightarrow>
           (let captured = map (\<lambda>line. line_or_empty lines (line - 1)) (span_lines sp) in
            and_then (capture_register registers (case register of Some r \<Rightarrow> r | None \<Rightarrow> Anonymous) captured) (\<lambda>registers.
              Inr (map (\<lambda>line. Delete line oi) (span_lines sp), registers))))"

fun lower_operations ::
    "rstr list \<Rightarrow> (operation \<times> resolved_operation) list \<Rightarrow> staged_registers \<Rightarrow> line_edit list \<Rightarrow> (hashline_rejection + line_edit list \<times> staged_registers) option" where
  "lower_operations lines [] registers edits = Some (Inr (edits, registers))"
| "lower_operations lines ((Put _ source _, oi, a) # ops) registers edits =
     try_then (Some (lower_put source a registers oi)) (\<lambda>es. lower_operations lines ops registers (edits @ es))"
| "lower_operations lines ((Cut _ register _, oi, a) # ops) registers edits =
     try_then (Some (lower_cut register a lines registers oi)) (\<lambda>(es, registers).
       lower_operations lines ops registers (edits @ es))"
| "lower_operations lines ((Rem _, _, _) # ops) registers edits = None"
| "lower_operations lines ((Mv _ _, _, _) # ops) registers edits = None"

section \<open>One section\<close>

definition line_content_utf8 :: "raw_line_record \<Rightarrow> hashline_rejection + rstr" where
  "line_content_utf8 r =
     (case from_utf8 (rl_content r) of
        Some s \<Rightarrow> Inr s
      | None \<Rightarrow> Inl (rejection_new CodeUntaggablePath StagePath (lit ''baseline line is not valid UTF-8'')))"

fun lines_from :: "baseline \<Rightarrow> nat list \<Rightarrow> hashline_rejection + rstr list" where
  "lines_from b [] = Inr []"
| "lines_from b (line # ns) =
     and_then (case baseline_raw_record b line of
         None \<Rightarrow> Inl (rejection_parse (lit ''baseline is missing raw record for line '' @ show_nat line))
       | Some r \<Rightarrow> Inr r) (\<lambda>r.
       and_then (line_content_utf8 r) (\<lambda>l.
         and_then (lines_from b ns) (\<lambda>ls. Inr (l # ls))))"

definition baseline_lines :: "baseline \<Rightarrow> hashline_rejection + rstr list" where
  "baseline_lines b = lines_from b [1..<Suc (total_lines (bl_snapshot b))]"

definition coalescing :: rstr where
  "coalescing = lit ''replacement-coalescing''"

definition is_replacement_insert :: "line_edit \<Rightarrow> bool" where
  "is_replacement_insert e = (case e of Insert _ _ _ Replacement _ \<Rightarrow> True | _ \<Rightarrow> False)"

definition section_layers :: "line_edit list \<Rightarrow> line_edit list \<Rightarrow> rstr list \<Rightarrow> rstr list" where
  "section_layers edits coalesced layers =
     (let applied =
        (if length coalesced \<noteq> length edits \<or> list_ex (\<lambda>(l, r). l \<noteq> r) (zip coalesced edits) then True
         else find_replacement_group coalesced 0 \<noteq> None \<and> list_ex is_replacement_insert edits)
      in if applied \<and> find_replacement_group coalesced 0 \<noteq> None \<and> coalescing \<notin> set layers
           \<and> length (filter is_delete coalesced) > 1
         then coalescing # layers else layers)"

definition apply_section_ops ::
    "rstr \<Rightarrow> rstr \<Rightarrow> baseline \<Rightarrow> operation list \<Rightarrow> resolved_operation list \<Rightarrow> staged_registers
      \<Rightarrow> (hashline_rejection + planned_file \<times> staged_registers) option" where
  "apply_section_ops requested canonical b operations resolved registers =
     (if length operations \<noteq> length resolved
      then Some (Inl (rejection_parse (lit ''resolved operation count does not match the parsed section'')))
      else if operations \<noteq> [] \<and> is_rem (hd operations)
      then
        (if length operations \<noteq> 1
         then Some (Inl (rejection_parse (lit ''REM cannot be combined with other operations'')))
         else Some (Inr (\<lparr>pf_canonical_path = canonical, pf_requested_path = requested, pf_baseline_bytes = bl_bytes b,
                pf_final_bytes = [], pf_affected = region_default, pf_remove_file = True, pf_warnings = [],
                pf_repair_layers = []\<rparr>, registers)))
      else if list_ex is_mv operations
      then Some (Inl (rejection_parse (lit ''MV is not handled by the line-apply engine'')))
      else
        try_then (Some (baseline_lines b)) (\<lambda>original_lines.
        try_then (lower_operations original_lines (zip operations resolved) registers []) (\<lambda>(edits, registers).
          let (default_term, trailing) = terminator_policy (records (bl_snapshot b));
              coalesced = coalesce_replacement_edits edits;
              repaired = apply_repair_layers coalesced original_lines;
              final_lines = materialize_edits original_lines (rp_edits repaired)
          in Some (Inr (\<lparr>pf_canonical_path = canonical, pf_requested_path = requested, pf_baseline_bytes = bl_bytes b,
               pf_final_bytes = join_lines final_lines default_term trailing,
               pf_affected = affected_from_line_diff original_lines final_lines, pf_remove_file = False,
               pf_warnings = rp_warnings repaired,
               pf_repair_layers = section_layers edits coalesced (rp_layers_applied repaired)\<rparr>, registers)))))"

section \<open>Composition of sections\<close>

record original_gap =
  og_before :: "nat option"
  og_after :: "nat option"

datatype line_origin = Original nat | ReplacementOf line_span rstr | InsertedAt original_gap

record composition_state =
  cs_canonical_path :: rstr
  cs_requested_path :: rstr
  cs_original :: baseline
  cs_current :: baseline
  cs_origins :: "line_origin list"
  cs_deleted_by :: "(nat, rstr) btree_map"
  cs_removed_by :: "rstr option"
  cs_warnings :: "rstr list"
  cs_repair_layers :: "rstr list"
  cs_remove_file :: bool

definition composition_new :: "section_plan_input \<Rightarrow> composition_state" where
  "composition_new i =
     \<lparr>cs_canonical_path = in_canonical_path i, cs_requested_path = in_requested_path i, cs_original = in_baseline i,
      cs_current = in_baseline i, cs_origins = map Original [1..<Suc (total_lines (bl_snapshot (in_baseline i)))],
      cs_deleted_by = [], cs_removed_by = None, cs_warnings = [], cs_repair_layers = [], cs_remove_file = False\<rparr>"

fun operation_label :: "operation \<Rightarrow> rstr" where
  "operation_label (Put _ _ line) = lit ''PUT at patch line '' @ show_nat line"
| "operation_label (Cut _ _ line) = lit ''CUT at patch line '' @ show_nat line"
| "operation_label (Rem line) = lit ''REM at patch line '' @ show_nat line"
| "operation_label (Mv _ line) = lit ''MV at patch line '' @ show_nat line"

definition composition_conflict :: "rstr \<Rightarrow> rstr \<Rightarrow> rstr \<Rightarrow> hashline_rejection" where
  "composition_conflict current previous reason =
     rejection_eligibility CodeBoundaryIneligible
       (lit ''same-path composition conflict: '' @ current @ lit '' conflicts with '' @ previous @ lit '': '' @ reason)"

definition spans_overlap :: "line_span \<Rightarrow> line_span \<Rightarrow> bool" where
  "spans_overlap left right \<longleftrightarrow> sp_start left \<le> sp_end right \<and> sp_start right \<le> sp_end left"

definition span_contains :: "line_span \<Rightarrow> line_span \<Rightarrow> bool" where
  "span_contains outer inner \<longleftrightarrow> sp_start outer \<le> sp_start inner \<and> sp_end inner \<le> sp_end outer"

fun origin_covers_line :: "line_origin \<Rightarrow> nat \<Rightarrow> bool" where
  "origin_covers_line (Original original) line = (original = line)"
| "origin_covers_line (ReplacementOf source _) line = (sp_start source \<le> line \<and> line \<le> sp_end source)"
| "origin_covers_line (InsertedAt _) line = False"

definition first_index_for_original :: "line_origin list \<Rightarrow> nat option \<Rightarrow> nat option" where
  "first_index_for_original origins line =
     (case line of None \<Rightarrow> None
      | Some line \<Rightarrow> map_option (\<lambda>i. i + 1) (position (\<lambda>origin. origin_covers_line origin line) origins))"

definition last_index_for_original :: "line_origin list \<Rightarrow> nat option \<Rightarrow> nat option" where
  "last_index_for_original origins line =
     (case line of None \<Rightarrow> None
      | Some line \<Rightarrow> map_option (\<lambda>i. length origins - 1 - i + 1) (position (\<lambda>origin. origin_covers_line origin line) (rev origins)))"

text \<open>The loop that selects the rows a span now stands for; \<open>i\<close> is the row of the first origin.\<close>

fun select_rows :: "line_span \<Rightarrow> rstr \<Rightarrow> nat \<Rightarrow> line_origin list \<Rightarrow> hashline_rejection + nat list" where
  "select_rows sp current i [] = Inr []"
| "select_rows sp current i (Original line # os) =
     (if sp_start sp \<le> line \<and> line \<le> sp_end sp
      then and_then (select_rows sp current (i + 1) os) (\<lambda>is. Inr (i # is))
      else select_rows sp current (i + 1) os)"
| "select_rows sp current i (ReplacementOf source previous # os) =
     (if spans_overlap source sp
      then
        (if \<not> span_contains sp source
         then Inl (composition_conflict current previous
                (lit ''the later pre-request span only partially overlaps an earlier replacement''))
         else and_then (select_rows sp current (i + 1) os) (\<lambda>is. Inr (i # is)))
      else select_rows sp current (i + 1) os)"
| "select_rows sp current i (InsertedAt _ # os) = select_rows sp current (i + 1) os"

definition remap_span :: "composition_state \<Rightarrow> line_span \<Rightarrow> rstr \<Rightarrow> hashline_rejection + line_span" where
  "remap_span st sp current =
     (case List.find (\<lambda>line. bt_get (cs_deleted_by st) line \<noteq> None) (span_lines sp) of
        Some line \<Rightarrow>
          Inl (composition_conflict current (the (bt_get (cs_deleted_by st) line))
            (lit ''pre-request line '' @ show_nat line @ lit '' was deleted earlier''))
      | None \<Rightarrow>
          and_then (select_rows sp current 1 (cs_origins st)) (\<lambda>selected.
            if selected = []
            then Inl (rejection_eligibility CodeBoundaryIneligible
                   (current @ lit '' cannot resolve its pre-request span after earlier same-path operations''))
            else Inr \<lparr>sp_start = hd selected, sp_end = last selected\<rparr>))"

definition remap_gap :: "composition_state \<Rightarrow> original_gap \<Rightarrow> rstr \<Rightarrow> hashline_rejection + resolved_gap" where
  "remap_gap st gap current =
     (case List.find (\<lambda>line. bt_get (cs_deleted_by st) line \<noteq> None)
         (gap_anchors \<lparr>rg_before = og_before gap, rg_after = og_after gap\<rparr>) of
        Some line \<Rightarrow>
          Inl (composition_conflict current (the (bt_get (cs_deleted_by st) line))
            (lit ''required pre-request gap anchor line '' @ show_nat line @ lit '' was deleted earlier''))
      | None \<Rightarrow>
          (let before = last_index_for_original (cs_origins st) (og_before gap);
               after = first_index_for_original (cs_origins st) (og_after gap);
               inserted = filter (\<lambda>i. cs_origins st ! i = InsertedAt gap) [0..<length (cs_origins st)]
           in Inr \<lparr>rg_before = (if inserted = [] then before else Some (last inserted + 1)), rg_after = after\<rparr>))"

fun remap_address :: "composition_state \<Rightarrow> resolved_address \<Rightarrow> rstr \<Rightarrow> hashline_rejection + resolved_address" where
  "remap_address st (AtSpan sp) current = and_then (remap_span st sp current) (\<lambda>sp. Inr (AtSpan sp))"
| "remap_address st (AtGap gap) current =
     and_then (remap_gap st \<lparr>og_before = rg_before gap, og_after = rg_after gap\<rparr> current) (\<lambda>gap. Inr (AtGap gap))"
| "remap_address st a current = Inr a"

definition checked_add :: "nat \<Rightarrow> nat \<Rightarrow> nat option" where
  "checked_add a b = (if a + b \<le> usize_max then Some (a + b) else None)"

text \<open>\<^verbatim>\<open>Vec::splice\<close> and \<^verbatim>\<open>Vec::drain\<close>: a range that is not within the vector panics.\<close>

definition splice_range :: "nat \<Rightarrow> nat \<Rightarrow> 'a list \<Rightarrow> 'a list \<Rightarrow> 'a list option" where
  "splice_range i j new xs = (if i \<le> j \<and> j \<le> length xs then Some (take i xs @ new @ drop j xs) else None)"

fun update_origins ::
    "composition_state \<Rightarrow> operation \<Rightarrow> resolved_address \<Rightarrow> resolved_address \<Rightarrow> rstr \<Rightarrow> nat \<Rightarrow> nat \<Rightarrow> (hashline_rejection + composition_state) option" where
  "update_origins st (Put _ _ _) (AtSpan original) (AtSpan current) name before_lines after_lines =
     (let replaced = sp_end current - sp_start current + 1 in
      case Option.bind (checked_add after_lines replaced) (\<lambda>n. checked_sub n before_lines) of
        None \<Rightarrow> Some (Inl (rejection_parse (lit ''same-path replacement produced inconsistent line accounting'')))
      | Some inserted \<Rightarrow>
          map_option (\<lambda>os. Inr (st\<lparr>cs_origins := os\<rparr>))
            (splice_range (sp_start current - 1) (sp_end current) (replicate inserted (ReplacementOf original name)) (cs_origins st)))"
| "update_origins st (Put _ _ _) (AtGap original) (AtGap current) name before_lines after_lines =
     (case checked_sub after_lines before_lines of
        None \<Rightarrow> Some (Inl (rejection_parse (lit ''same-path gap insertion produced inconsistent line accounting'')))
      | Some inserted \<Rightarrow>
          (let index = (case rg_before current of Some n \<Rightarrow> n | None \<Rightarrow> 0);
               gap = \<lparr>og_before = rg_before original, og_after = rg_after original\<rparr>
           in map_option (\<lambda>os. Inr (st\<lparr>cs_origins := os\<rparr>))
                (splice_range index index (replicate inserted (InsertedAt gap)) (cs_origins st))))"
| "update_origins st (Put _ _ _) _ _ name before_lines after_lines = Some (Inr st)"
| "update_origins st (Cut _ _ _) (AtSpan original) (AtSpan current) name before_lines after_lines =
     map_option (\<lambda>os. Inr (st\<lparr>cs_origins := os,
         cs_deleted_by := fold (\<lambda>line. bt_insert line name) (span_lines original) (cs_deleted_by st)\<rparr>))
       (splice_range (sp_start current - 1) (sp_end current) [] (cs_origins st))"
| "update_origins st (Cut _ _ _) _ _ name before_lines after_lines = Some (Inr st)"
| "update_origins st (Rem _) _ _ name before_lines after_lines =
     Some (Inr (st\<lparr>cs_deleted_by := fold (\<lambda>line. bt_insert line name)
           [1..<Suc (total_lines (bl_snapshot (cs_original st)))] (cs_deleted_by st),
         cs_origins := [], cs_removed_by := Some name\<rparr>))"
| "update_origins st (Mv _ _) _ _ name before_lines after_lines = Some (Inr st)"

definition apply_operation ::
    "composition_state \<Rightarrow> operation \<Rightarrow> resolved_operation \<Rightarrow> staged_registers \<Rightarrow> (hashline_rejection + composition_state \<times> staged_registers) option" where
  "apply_operation st operation resolved registers =
     (let current = operation_label operation; original_address = snd resolved in
      case cs_removed_by st of
        Some previous \<Rightarrow>
          Some (Inl (composition_conflict current previous (lit ''the earlier operation removed the whole pre-request file'')))
      | None \<Rightarrow>
          try_then (Some (remap_address st original_address current)) (\<lambda>current_address.
          try_then (apply_section_ops (cs_requested_path st) (cs_canonical_path st) (cs_current st) [operation]
              [(fst resolved, current_address)] registers) (\<lambda>(planned, registers).
            case baseline_from_bytes (pf_final_bytes planned) of
              None \<Rightarrow> None
            | Some after \<Rightarrow>
                try_then (update_origins st operation original_address current_address current
                    (total_lines (bl_snapshot (cs_current st))) (total_lines (bl_snapshot after))) (\<lambda>st.
                  Some (Inr (st\<lparr>cs_current := after, cs_remove_file := pf_remove_file planned,
                    cs_warnings := cs_warnings st @ pf_warnings planned,
                    cs_repair_layers := foldl (\<lambda>ls l. if l \<in> set ls then ls else ls @ [l]) (cs_repair_layers st) (pf_repair_layers planned)\<rparr>,
                    registers))))))"

fun apply_operations ::
    "composition_state \<Rightarrow> (operation \<times> resolved_operation) list \<Rightarrow> staged_registers \<Rightarrow> (hashline_rejection + composition_state \<times> staged_registers) option" where
  "apply_operations st [] registers = Some (Inr (st, registers))"
| "apply_operations st ((operation, resolved) # ops) registers =
     try_then (apply_operation st operation resolved registers) (\<lambda>(st, registers). apply_operations st ops registers)"

definition composition_apply_section ::
    "composition_state \<Rightarrow> section_plan_input \<Rightarrow> staged_registers \<Rightarrow> (hashline_rejection + composition_state \<times> staged_registers) option" where
  "composition_apply_section st i registers =
     (if length (in_operations i) \<noteq> length (in_resolved i)
      then Some (Inl (rejection_parse (lit ''resolved operation count does not match the parsed section'')))
      else apply_operations st (zip (in_operations i) (in_resolved i)) registers)"

definition composition_finish :: "composition_state \<Rightarrow> hashline_rejection + planned_file" where
  "composition_finish st =
     and_then
       (if cs_remove_file st then Inr region_default
        else and_then (baseline_lines (cs_original st)) (\<lambda>original_lines.
          and_then (baseline_lines (cs_current st)) (\<lambda>final_lines.
            Inr (affected_from_line_diff original_lines final_lines)))) (\<lambda>affected.
       Inr \<lparr>pf_canonical_path = cs_canonical_path st, pf_requested_path = cs_requested_path st,
            pf_baseline_bytes = bl_bytes (cs_original st), pf_final_bytes = bl_bytes (cs_current st), pf_affected = affected,
            pf_remove_file = cs_remove_file st, pf_warnings = cs_warnings st, pf_repair_layers = cs_repair_layers st\<rparr>)"

section \<open>The plan of a patch\<close>

fun verify_operations :: "snapshot \<Rightarrow> baseline \<Rightarrow> resolved_operation list \<Rightarrow> rstr \<Rightarrow> hashline_rejection + unit" where
  "verify_operations s b [] unexpanded = Inr ()"
| "verify_operations s b ((_, a) # ops) unexpanded =
     (case verify_exact s b a of
        Exact \<Rightarrow> verify_operations s b ops unexpanded
      | RecoveryRequired _ \<Rightarrow>
          Inl (rejection_new CodeStaleTag StageRecovery (lit ''addressed content no longer matches the Phase-1 baseline''))
      | Rejected rejection \<Rightarrow> Inl rejection
      | BlockNeedsResolution _ \<Rightarrow> Inl (rejection_new CodeBoundaryIneligible StageEligibility unexpanded))"

definition verify_section_against_pre_request_baseline :: "section_plan_input \<Rightarrow> hashline_rejection + unit" where
  "verify_section_against_pre_request_baseline i =
     verify_operations (in_snapshot i) (in_baseline i) (in_resolved i) (lit ''block address was not expanded before apply planning'')"

fun verify_plan_sections ::
    "(rstr, nat) btree_map \<Rightarrow> (rstr, byte list) btree_map \<Rightarrow> section_plan_input list \<Rightarrow> hashline_rejection + (rstr, nat) btree_map" where
  "verify_plan_sections counts baselines [] = Inr counts"
| "verify_plan_sections counts baselines (i # rest) =
     (let path = in_canonical_path i;
          counts = bt_insert path ((case bt_get counts path of Some n \<Rightarrow> n | None \<Rightarrow> 0) + 1) counts
      in and_then
           (case bt_get baselines path of
              Some existing \<Rightarrow>
                if existing \<noteq> bl_bytes (in_baseline i)
                then Inl (rejection_new CodeStaleTag StageBaseline
                       (lit ''sections for one canonical path did not retain one Phase-1 baseline''))
                else Inr baselines
            | None \<Rightarrow> Inr (bt_insert path (bl_bytes (in_baseline i)) baselines)) (\<lambda>baselines.
           and_then (verify_section_against_pre_request_baseline i) (\<lambda>_.
             verify_plan_sections counts baselines rest)))"

datatype apply_plan_slot = Complete planned_file | Composing composition_state

fun plan_sections ::
    "(rstr, nat) btree_map \<Rightarrow> section_plan_input list \<Rightarrow> staged_registers \<Rightarrow> apply_plan_slot list \<Rightarrow> (rstr, nat) btree_map
      \<Rightarrow> (hashline_rejection + apply_plan_slot list \<times> staged_registers) option" where
  "plan_sections counts [] staged slots slot_by_path = Some (Inr (slots, staged))"
| "plan_sections counts (i # rest) staged slots slot_by_path =
     (let path = in_canonical_path i in
      if (case bt_get counts path of Some n \<Rightarrow> n | None \<Rightarrow> 0) = 1
      then
        try_then (apply_section_ops (in_requested_path i) path (in_baseline i) (in_operations i) (in_resolved i) staged) (\<lambda>(planned, staged).
          plan_sections counts rest staged (slots @ [Complete planned]) (bt_insert path (length slots) slot_by_path))
      else
        (let (slot, slots, slot_by_path) =
           (case bt_get slot_by_path path of
              Some slot \<Rightarrow> (slot, slots, slot_by_path)
            | None \<Rightarrow> (length slots, slots @ [Composing (composition_new i)], bt_insert path (length slots) slot_by_path))
         in case nth_opt slots slot of
              Some (Composing st) \<Rightarrow>
                try_then (composition_apply_section st i staged) (\<lambda>(st, staged).
                  plan_sections counts rest staged (slots[slot := Composing st]) slot_by_path)
            | _ \<Rightarrow> None))"

fun finish_slots :: "apply_plan_slot list \<Rightarrow> hashline_rejection + planned_file list" where
  "finish_slots [] = Inr []"
| "finish_slots (slot # slots) =
     and_then (case slot of Complete file \<Rightarrow> Inr file | Composing st \<Rightarrow> composition_finish st) (\<lambda>file.
       and_then (finish_slots slots) (\<lambda>files. Inr (file # files)))"

definition plan_apply :: "section_plan_input list \<Rightarrow> register_store \<Rightarrow> (hashline_rejection + apply_plan) option" where
  "plan_apply sections session_registers =
     try_then (Some (verify_plan_sections [] [] sections)) (\<lambda>counts.
     try_then (plan_sections counts sections (stage_registers session_registers) [] []) (\<lambda>(slots, staged).
     try_then (Some (finish_slots slots)) (\<lambda>files.
       Some (Inr \<lparr>ap_files = files, ap_staged_registers = staged\<rparr>))))"

section \<open>Commit\<close>

definition commit_registers_if_complete :: "register_store \<Rightarrow> staged_registers \<Rightarrow> file_classification list \<Rightarrow> bool \<times> register_store" where
  "commit_registers_if_complete session staged classifications =
     (let all_applied = (classifications \<noteq> [] \<and> list_all is_applied_star classifications) in
      if all_applied then (True, commit_staged session staged) else (False, session))"

text \<open>The loop of \<^verbatim>\<open>simulate_phase2\<close>, from file \<open>index\<close> on.\<close>

fun phase2_results :: "(nat \<times> file_classification) option \<Rightarrow> nat \<Rightarrow> bool \<Rightarrow> planned_file list \<Rightarrow> file_result list" where
  "phase2_results fail_at index stopped [] = []"
| "phase2_results fail_at index stopped (file # files) =
     (let result = (\<lambda>classification bytes affected warnings.
            \<lparr>fr_canonical_path = pf_canonical_path file, fr_requested_path = pf_requested_path file,
             fr_classification = classification, fr_mutation_state = mutation_state_of classification,
             fr_final_bytes = bytes, fr_affected = affected, fr_warnings = warnings, fr_remove_file = pf_remove_file file\<rparr>)
      in if stopped
         then result NotAttempted None region_default [] # phase2_results fail_at (index + 1) True files
         else
           (case fail_at of
              Some (fail_index, classification) \<Rightarrow>
                if index = fail_index
                then result classification None region_default (pf_warnings file) # phase2_results fail_at (index + 1) True files
                else result Applied (Some (pf_final_bytes file)) (pf_affected file) (pf_warnings file)
                       # phase2_results fail_at (index + 1) False files
            | None \<Rightarrow>
                result Applied (Some (pf_final_bytes file)) (pf_affected file) (pf_warnings file)
                  # phase2_results fail_at (index + 1) False files))"

definition simulate_phase2 ::
    "apply_plan \<Rightarrow> register_store \<Rightarrow> (nat \<times> file_classification) option \<Rightarrow> apply_result_envelope \<times> register_store" where
  "simulate_phase2 plan session_registers fail_at =
     (let results = phase2_results fail_at 0 False (ap_files plan);
          classifications = map fr_classification results;
          (registers_committed, session_registers) =
            commit_registers_if_complete session_registers (ap_staged_registers plan) classifications;
          applied = length (filter is_applied_star classifications)
      in (\<lparr>ar_success = (applied > 0), ar_complete = (applied = length classifications \<and> classifications \<noteq> []),
           ar_files = results, ar_registers_committed = registers_committed\<rparr>, session_registers))"

definition apply_simple_ops ::
    "byte list \<Rightarrow> snapshot \<Rightarrow> operation list \<Rightarrow> resolved_address list \<Rightarrow> staged_registers
      \<Rightarrow> (hashline_rejection + planned_file \<times> staged_registers) option" where
  "apply_simple_ops baseline_bytes s operations addresses registers =
     (case baseline_from_bytes baseline_bytes of
        None \<Rightarrow> None
      | Some b \<Rightarrow>
          (let resolved = List.enumerate 0 addresses in
           try_then (Some (verify_operations s b resolved (lit ''block address was not expanded before apply''))) (\<lambda>_.
             apply_section_ops (lit ''file'') (lit ''file'') b operations resolved registers)))"

section \<open>Lowered edits\<close>

text \<open>The rows an operation deletes or replaces.\<close>

fun op_addressed :: "'a list \<Rightarrow> operation \<times> resolved_operation \<Rightarrow> nat list" where
  "op_addressed lines (Put _ _ _, _, AtSpan sp) = span_lines sp"
| "op_addressed lines (Cut _ _ _, _, AtSpan sp) = span_lines sp"
| "op_addressed lines (Cut _ _ _, _, WholeFile) = [1..<Suc (length lines)]"
| "op_addressed lines _ = []"

text \<open>An address within the rows of the file.\<close>

fun address_within :: "nat \<Rightarrow> resolved_address \<Rightarrow> bool" where
  "address_within n (AtSpan sp) \<longleftrightarrow> 0 < sp_start sp \<and> sp_start sp \<le> sp_end sp \<and> sp_end sp \<le> n"
| "address_within n (AtGap g) \<longleftrightarrow> list_all (\<lambda>k. 0 < k \<and> k \<le> n) (gap_anchors g)"
| "address_within n WholeFile \<longleftrightarrow> True"
| "address_within n _ \<longleftrightarrow> False"

text \<open>The rows that inserted rows come from: bodies in the patch, registers, and rows a CUT captures.\<close>

definition text_rows :: "operation list \<Rightarrow> rstr list" where
  "text_rows ops = concat (map (\<lambda>oper. case oper of Put _ (Text ls) _ \<Rightarrow> ls | _ \<Rightarrow> []) ops)"

definition register_rows :: "staged_registers \<Rightarrow> rstr list" where
  "register_rows staged = concat (register_values (sg_working staged))"

definition edit_within :: "nat \<Rightarrow> line_edit \<Rightarrow> bool" where
  "edit_within n e \<longleftrightarrow> (case edit_line e of Some k \<Rightarrow> 0 < k \<and> k \<le> n + 1 | None \<Rightarrow> True)"

lemma register_get_rows: "register_get st r = Some ls \<Longrightarrow> ls \<in> set (register_values st)"
  by (cases r) (force simp: register_values_def bt_values_def bt_get_def dest!: map_of_SomeD)+

lemma read_for_put_rows: "read_for_put staged r span = Inr body \<Longrightarrow> set body \<subseteq> set (register_rows staged)"
  using register_get_rows [of "sg_working staged" r]
  by (auto simp: read_for_put_def register_rows_def split: option.splits if_splits)

lemma gap_place_cases:
  assumes "gap_place g = (anchor, place)"
  shows "place \<in> {PlaceBof, PlaceEof} \<or> (place \<in> {PlaceBefore, PlaceAfter} \<and> anchor \<in> set (gap_anchors g))"
  using assms by (auto simp: gap_place_def gap_anchors_def Let_def split: option.splits if_splits prod.splits)

lemma edit_texts_inserts: "edit_texts (map (\<lambda>t. Insert a p t m oi) body) = body" "edit_texts (map (\<lambda>l. Delete l oi) ls) = []"
  by (induction body, simp_all) (induction ls, simp_all)

lemma lower_put_body_spec:
  fixes oi :: nat and body :: "rstr list"
  assumes "address_within n a"
  defines "es \<equiv> lower_put_body a body oi"
  shows "edit_texts es = body \<and> deleted_lines es = (case a of AtSpan sp \<Rightarrow> span_lines sp | _ \<Rightarrow> [])
    \<and> list_all (edit_within n) es \<and> list_all (\<lambda>e. edit_op_index e = oi) es \<and> coalesce_one_op es = es"
proof (cases a)
  case (AtSpan sp)
  have es: "es = map (\<lambda>t. Insert (sp_start sp) PlaceBefore t Replacement oi) body @ map (\<lambda>l. Delete l oi) [sp_start sp..<Suc (sp_end sp)]"
    by (simp add: es_def AtSpan)
  have "list_all (edit_within n) es"
    using assms(1) AtSpan unfolding es by (auto simp: list_all_iff edit_within_def)
  moreover have "coalesce_one_op es = es" unfolding es by (rule coalesce_span) (use assms(1) AtSpan in simp)
  moreover have "edit_texts es = body" "deleted_lines es = [sp_start sp..<Suc (sp_end sp)]"
    unfolding es by (simp_all add: edit_texts_inserts lowered_texts del: upt_Suc)
  moreover have "list_all (\<lambda>e. edit_op_index e = oi) es" unfolding es by (auto simp: list_all_iff)
  ultimately show ?thesis by (simp add: AtSpan span_lines_def)
next
  case (AtGap g)
  obtain anchor place where gp: "gap_place g = (anchor, place)" by (cases "gap_place g")
  have es: "es = map (\<lambda>t. Insert anchor place t Plain oi) body" by (simp add: es_def AtGap gp)
  have "edit_within n (Insert anchor place t Plain oi)" for t
    using gap_place_cases [OF gp] assms(1) AtGap
    by (cases place) (auto simp: edit_within_def list_all_iff)
  then show ?thesis unfolding es
    by (simp add: AtGap edit_texts_inserts lowered_texts coalesce_no_deletes list_all_iff)
next
  case WholeFile
  have es: "es = map (\<lambda>t. Insert 1 PlaceBefore t Replacement oi) body" by (simp add: es_def WholeFile)
  show ?thesis unfolding es
    by (simp add: WholeFile edit_texts_inserts lowered_texts coalesce_no_deletes list_all_iff edit_within_def)
qed (use assms(1) in simp_all)

lemma line_or_empty_in: "i < length lines \<Longrightarrow> line_or_empty lines i \<in> set lines"
  by (simp add: line_or_empty_def nth_opt_def)

lemma cut_span_cases:
  assumes "cut_span a lines = Inr sp" "address_within (length lines) a"
  shows "case sp of
      None \<Rightarrow> a = WholeFile \<and> lines = []
    | Some sp \<Rightarrow> 0 < sp_start sp \<and> sp_start sp \<le> sp_end sp \<and> sp_end sp \<le> length lines
        \<and> (a = AtSpan sp \<or> a = WholeFile \<and> span_lines sp = [1..<Suc (length lines)])"
  using assms by (cases a) (auto simp: cut_span_def span_lines_def Suc_le_eq split: if_splits)

lemma lower_cut_spec:
  assumes "lower_cut r a lines regs oi = Inr (es, regs')" "address_within (length lines) a" "registers_ok (sg_working regs)"
  shows "edit_texts es = []" "deleted_lines es = op_addressed lines (Cut ad r k, oi, a)"
    "list_all (edit_within (length lines)) es" "list_all (\<lambda>e. edit_op_index e = oi) es" "coalesce_one_op es = es"
    "set (register_rows regs') \<subseteq> set (register_rows regs) \<union> set lines" "registers_ok (sg_working regs')"
proof -
  have "edit_texts es = [] \<and> deleted_lines es = op_addressed lines (Cut ad r k, oi, a)
    \<and> list_all (edit_within (length lines)) es \<and> list_all (\<lambda>e. edit_op_index e = oi) es \<and> coalesce_one_op es = es
    \<and> set (register_rows regs') \<subseteq> set (register_rows regs) \<union> set lines \<and> registers_ok (sg_working regs')"
  proof (cases "cut_span a lines")
    case (Inr msp)
    note c = cut_span_cases [OF Inr assms(2)]
    show ?thesis
    proof (cases msp)
      case None
      then show ?thesis using assms(1,3) Inr c by (auto simp: lower_cut_def and_then_def coalesce_no_deletes)
    next
      case (Some sp)
      let ?cap = "map (\<lambda>line. line_or_empty lines (line - 1)) (span_lines sp)"
      let ?r = "case r of Some r \<Rightarrow> r | None \<Rightarrow> Anonymous"
      have es: "es = map (\<lambda>l. Delete l oi) (span_lines sp)" and cap: "capture_register regs ?r ?cap = Inr regs'"
        using assms(1) Inr Some by (auto simp: lower_cut_def and_then_Inr and_then_def [of "Inr _"] split: option.splits)
      from cap obtain w: "check_register_bounds (sg_working regs) ?r ?cap = Inr ()" "write_register (sg_working regs) ?r ?cap = Inr (sg_working regs')"
        by (rule capture_cases)
      have "set ?cap \<subseteq> set lines" using c Some by (auto simp: span_lines_def intro!: line_or_empty_in)
      moreover have "bt_inv (reg_named (sg_working regs))" using assms(3) by (simp add: registers_ok_def)
      from values_after_write [OF this w(2)]
      have "set (register_rows regs') \<subseteq> set ?cap \<union> set (register_rows regs)" by (auto simp: register_rows_def)
      ultimately have "set (register_rows regs') \<subseteq> set (register_rows regs) \<union> set lines" by blast
      moreover have "list_all (edit_within (length lines)) es"
        using c Some unfolding es by (auto simp: list_all_iff edit_within_def span_lines_def)
      moreover have "op_addressed lines (Cut ad r k, oi, a) = span_lines sp" using c Some by auto
      moreover have "list_all (\<lambda>e. edit_op_index e = oi) es" unfolding es by (simp add: list_all_iff)
      ultimately show ?thesis
        using capture_bounds [OF assms(3) w] unfolding es
        by (simp add: edit_texts_inserts lowered_texts coalesce_no_replacements)
    qed
  qed (use assms(1) in \<open>simp add: lower_cut_def and_then_def\<close>)
  then show "edit_texts es = []" "deleted_lines es = op_addressed lines (Cut ad r k, oi, a)"
    "list_all (edit_within (length lines)) es" "list_all (\<lambda>e. edit_op_index e = oi) es" "coalesce_one_op es = es"
    "set (register_rows regs') \<subseteq> set (register_rows regs) \<union> set lines" "registers_ok (sg_working regs')" by blast+
qed

definition text_only :: "operation list \<Rightarrow> bool" where
  "text_only ops \<longleftrightarrow> list_all (\<lambda>oper. case oper of Put _ (Register _) _ \<Rightarrow> False | _ \<Rightarrow> True) ops"

text \<open>What the edits of the operations \<open>ops\<close> are made of, starting with the registers \<open>regs\<close> and ending with \<open>regs'\<close>.\<close>

definition lowered ::
    "rstr list \<Rightarrow> (operation \<times> resolved_operation) list \<Rightarrow> staged_registers \<Rightarrow> staged_registers \<Rightarrow> (nat \<times> line_edit list) list \<Rightarrow> bool" where
  "lowered lines ops regs regs' gs \<longleftrightarrow>
     map fst gs = map (\<lambda>x. fst (snd x)) ops
     \<and> list_all (\<lambda>(oi, g). list_all (\<lambda>e. edit_op_index e = oi) g \<and> coalesce_one_op g = g \<and> list_all (edit_within (length lines)) g) gs
     \<and> deleted_lines (concat (map snd gs)) = concat (map (op_addressed lines) ops)
     \<and> set (edit_texts (concat (map snd gs))) \<subseteq> set (text_rows (map fst ops)) \<union> set (register_rows regs) \<union> set lines
     \<and> (text_only (map fst ops) \<longrightarrow> edit_texts (concat (map snd gs)) = text_rows (map fst ops))
     \<and> registers_ok (sg_working regs')"

lemma try_then_Inr: "try_then r f = Some (Inr y) \<longleftrightarrow> (\<exists>x. r = Some (Inr x) \<and> f x = Some (Inr y))"
  by (auto simp: try_then_def split: option.splits sum.splits)

lemma lowered_Nil: "registers_ok (sg_working regs) \<Longrightarrow> lowered lines [] regs regs []"
  by (simp add: lowered_def text_rows_def)

lemma lowered_put:
  assumes "lowered lines ops regs regs' gs" "lower_put source a regs oi = Inr es" "address_within (length lines) a"
  shows "lowered lines ((Put ad source k, oi, a) # ops) regs regs' ((oi, es) # gs)"
proof -
  obtain body where es: "es = lower_put_body a body oi"
      and body: "case source of Text ls \<Rightarrow> body = ls | Register r \<Rightarrow> set body \<subseteq> set (register_rows regs)"
    using assms(2) by (auto simp: lower_put_def and_then_Inr and_then_def [of "Inr _"] dest: read_for_put_rows split: put_source.splits)
  note p = lower_put_body_spec [OF assms(3), of body oi, folded es]
  have "(case a of AtSpan sp \<Rightarrow> span_lines sp | _ \<Rightarrow> []) = op_addressed lines (Put ad source k, oi, a)" by (cases a) simp_all
  then show ?thesis
    using p assms(1) body unfolding lowered_def
    by (cases source) (auto simp: text_rows_def text_only_def)
qed

lemma lowered_cut:
  assumes "lowered lines ops regs1 regs' gs" "lower_cut r a lines regs oi = Inr (es, regs1)" "address_within (length lines) a"
    and "registers_ok (sg_working regs)"
  shows "lowered lines ((Cut ad r k, oi, a) # ops) regs regs' ((oi, es) # gs)"
proof -
  note c = lower_cut_spec [OF assms(2,3,4)]
  have "text_rows (map fst ((Cut ad r k, oi, a) # ops)) = text_rows (map fst ops)"
    "text_only (map fst ((Cut ad r k, oi, a) # ops)) = text_only (map fst ops)"
    by (simp_all add: text_rows_def text_only_def)
  then show ?thesis using assms(1) c(1,3-6) c(2) [of ad k] unfolding lowered_def by auto
qed

lemma lower_operations_spec:
  "lower_operations lines ops regs es0 = Some (Inr (es, regs')) \<Longrightarrow>
   list_all (\<lambda>(_, _, a). address_within (length lines) a) ops \<Longrightarrow> registers_ok (sg_working regs) \<Longrightarrow>
   \<exists>gs. es = es0 @ concat (map snd gs) \<and> lowered lines ops regs regs' gs"
proof (induction lines ops regs es0 rule: lower_operations.induct)
  case (1 lines regs es0)
  then show ?case by (intro exI [of _ "[]"]) (simp add: lowered_Nil)
next
  case (2 lines ad source k oi a ops regs es0)
  obtain es1 where es1: "lower_put source a regs oi = Inr es1" "lower_operations lines ops regs (es0 @ es1) = Some (Inr (es, regs'))"
    using 2(2) by (auto simp: try_then_Inr)
  obtain gs where gs: "es = (es0 @ es1) @ concat (map snd gs)" "lowered lines ops regs regs' gs"
    using 2(1) [OF es1(2)] 2(3,4) by auto
  then show ?case using lowered_put [OF gs(2) es1(1)] 2(3) by (intro exI [of _ "(oi, es1) # gs"]) simp
next
  case (3 lines ad r k oi a ops regs es0)
  obtain es1 regs1 where c: "lower_cut r a lines regs oi = Inr (es1, regs1)" "lower_operations lines ops regs1 (es0 @ es1) = Some (Inr (es, regs'))"
    using 3(2) by (auto simp: try_then_Inr)
  have w: "address_within (length lines) a" using 3(3) by simp
  obtain gs where gs: "es = (es0 @ es1) @ concat (map snd gs)" "lowered lines ops regs1 regs' gs"
    using 3(1) [OF c(2)] 3(3) lower_cut_spec(7) [OF c(1) w 3(4)] by auto
  then show ?case using lowered_cut [OF gs(2) c(1) w 3(4)] by (intro exI [of _ "(oi, es1) # gs"]) simp
qed simp_all

section \<open>One section\<close>

lemma lowered_groups: "lowered lines ops regs regs' gs \<Longrightarrow> distinct (map (\<lambda>x. fst (snd x)) ops) \<Longrightarrow> op_groups gs"
  by (auto simp: lowered_def op_groups_def list_all_iff)

lemma lowered_within: "lowered lines ops regs regs' gs \<Longrightarrow> e \<in> set (concat (map snd gs)) \<Longrightarrow> edit_within (length lines) e"
  by (fastforce simp: lowered_def list_all_iff)

lemma apply_section_ops_cases:
  assumes "apply_section_ops req can b ops resolved regs = Some (Inr (file, regs'))" "\<not> pf_remove_file file"
  obtains lines edits where "length ops = length resolved" "baseline_lines b = Inr lines"
    "lower_operations lines (zip ops resolved) regs [] = Some (Inr (edits, regs'))"
    "pf_final_bytes file = join_lines (materialize_edits lines (rp_edits (apply_repair_layers (coalesce_replacement_edits edits) lines)))
       (fst (terminator_policy (records (bl_snapshot b)))) (snd (terminator_policy (records (bl_snapshot b))))"
    "pf_warnings file = rp_warnings (apply_repair_layers (coalesce_replacement_edits edits) lines)"
    "pf_affected file = affected_from_line_diff lines (materialize_edits lines (rp_edits (apply_repair_layers (coalesce_replacement_edits edits) lines)))"
proof -
  have len: "length ops = length resolved" using assms(1) by (auto simp: apply_section_ops_def split: if_splits)
  have not_rem: "\<not> (ops \<noteq> [] \<and> is_rem (hd ops))"
    using assms len by (auto simp: apply_section_ops_def split: if_splits)
  have not_mv: "\<not> list_ex is_mv ops" using assms(1) len not_rem by (auto simp: apply_section_ops_def split: if_splits)
  obtain lines where lines: "baseline_lines b = Inr lines"
    using assms(1) len not_rem not_mv by (auto simp: apply_section_ops_def try_then_Inr split: if_splits)
  obtain edits regs1 where low: "lower_operations lines (zip ops resolved) regs [] = Some (Inr (edits, regs1))"
    using assms(1) len not_rem not_mv lines by (auto simp: apply_section_ops_def try_then_Inr split: if_splits)
  obtain d tr where p: "terminator_policy (records (bl_snapshot b)) = (d, tr)" by (metis surj_pair)
  show ?thesis
    using assms(1) len not_rem not_mv
    by (intro that [OF len lines]) (auto simp: apply_section_ops_def lines low p try_then_def Let_def split: if_splits)
qed

lemma section_rows:
  assumes "lower_operations lines (zip ops resolved) regs [] = Some (Inr (edits, regs'))" "length ops = length resolved"
    and "list_all (\<lambda>(_, a). address_within (length lines) a) resolved" "distinct (map fst resolved)" "registers_ok (sg_working regs)"
  defines "out \<equiv> apply_repair_layers (coalesce_replacement_edits edits) lines"
  shows "coalesce_replacement_edits edits = edits" "registers_ok (sg_working regs')"
    and "\<exists>ins. materialize_edits lines (rp_edits out) \<in> shuffles (kept_rows (concat (map (op_addressed lines) (zip ops resolved))) 0 lines) ins
      \<and> (\<forall>row \<in> set ins. \<exists>w t. row = w @ t \<and> blank w \<and> t \<in> set (text_rows ops) \<union> set (register_rows regs) \<union> set lines)
      \<and> (rp_warnings out = [] \<and> text_only ops \<longrightarrow> mset ins = mset (text_rows ops))"
proof -
  have ops: "map fst (zip ops resolved) = ops" "map (\<lambda>x. fst (snd x)) (zip ops resolved) = map fst resolved"
    using assms(2) by (simp, intro nth_equalityI) auto
  have w: "list_all (\<lambda>(_, _, a). address_within (length lines) a) (zip ops resolved)"
    using assms(3) by (auto simp: list_all_iff dest!: set_zip_rightD)
  obtain gs where gs: "edits = concat (map snd gs)" "lowered lines (zip ops resolved) regs regs' gs"
    using lower_operations_spec [OF assms(1) w assms(5)] by auto
  show id: "coalesce_replacement_edits edits = edits"
    unfolding gs(1) by (rule coalesce_groups_identity [OF lowered_groups [OF gs(2)]]) (simp add: ops assms(4))
  show "registers_ok (sg_working regs')" using gs(2) by (simp add: lowered_def)
  have l: "deleted_lines edits = concat (map (op_addressed lines) (zip ops resolved))"
    "set (edit_texts edits) \<subseteq> set (text_rows ops) \<union> set (register_rows regs) \<union> set lines"
    "text_only ops \<longrightarrow> edit_texts edits = text_rows ops"
    using gs by (auto simp: lowered_def ops)
  have out: "apply_repair_layers edits lines = out" by (simp add: out_def id)
  note spec = apply_repair_layers_spec [where edits = edits and fl = lines, unfolded out]
  have "\<forall>e \<in> set (rp_edits out). case edit_line e of Some k \<Rightarrow> 0 < k \<and> k \<le> length lines + 1 | None \<Rightarrow> True"
  proof
    fix e assume "e \<in> set (rp_edits out)"
    then obtain e' where "e' \<in> set edits" "edit_line e = edit_line e'" using spec(2) by blast
    then show "case edit_line e of Some k \<Rightarrow> 0 < k \<and> k \<le> length lines + 1 | None \<Rightarrow> True"
      using lowered_within [OF gs(2)] gs(1) by (simp add: edit_within_def)
  qed
  from materialize_edits_shuffle [OF this] obtain ins where ins:
    "materialize_edits lines (rp_edits out) \<in> shuffles (kept_rows (deleted_lines (rp_edits out)) 0 lines) ins"
    "mset ins = mset (edit_texts (rp_edits out))" by blast
  have "\<exists>w t. row = w @ t \<and> blank w \<and> t \<in> set (text_rows ops) \<union> set (register_rows regs) \<union> set lines" if "row \<in> set ins" for row
    using spec(3) [of row] l(2) that mset_eq_setD [OF ins(2)] by blast
  moreover have "mset ins = mset (text_rows ops)" if "rp_warnings out = []" "text_only ops"
    using ins(2) spec(4) [OF that(1)] l(3) that(2) by simp
  ultimately show "\<exists>ins. materialize_edits lines (rp_edits out) \<in> shuffles (kept_rows (concat (map (op_addressed lines) (zip ops resolved))) 0 lines) ins
      \<and> (\<forall>row \<in> set ins. \<exists>w t. row = w @ t \<and> blank w \<and> t \<in> set (text_rows ops) \<union> set (register_rows regs) \<union> set lines)
      \<and> (rp_warnings out = [] \<and> text_only ops \<longrightarrow> mset ins = mset (text_rows ops))"
    using ins(1) unfolding spec(1) l(1) by blast
qed


text \<open>A baseline of two rows, for the witnesses.\<close>

definition sample_baseline :: baseline where
  "sample_baseline = \<lparr>bl_bytes = [97, 10, 98, 10], bl_snapshot = (sample_snapshot 97)\<lparr>
     records := [(1, \<lparr>rl_content = [97], rl_terminator = Lf\<rparr>), (2, \<lparr>rl_content = [98], rl_terminator = Lf\<rparr>)], total_lines := 2\<rparr>\<rparr>"


end
