(* ===== verification/Hashline_Plan_Facts.thy ===== *)
theory Hashline_Plan_Facts
  imports Hashline_Plan
begin

text \<open>What holds of a whole plan (\<^verbatim>\<open>plan_apply\<close> of \<^verbatim>\<open>hashline/apply/mod.rs\<close>): planning returns, the staged registers are
  a fork of the session's, a plan has one file per path, rows that are joined are the rows that are read back, and what a
  section does on given files.\<close>

section \<open>Planning returns\<close>

text \<open>The composition rule for removals that every parsed section satisfies.\<close>

definition rem_alone :: "operation list \<Rightarrow> bool" where
  "rem_alone ops \<longleftrightarrow> (list_ex is_rem ops \<longrightarrow> length ops = 1)"

lemma try_then_returns: "r \<noteq> None \<Longrightarrow> (\<And>x. r = Some (Inr x) \<Longrightarrow> f x \<noteq> None) \<Longrightarrow> try_then r f \<noteq> None"
  by (auto simp: try_then_def split: option.splits sum.splits)

lemma lower_operations_returns:
  "list_all (\<lambda>(oper, _). \<not> is_rem oper \<and> \<not> is_mv oper) ops \<Longrightarrow> lower_operations lines ops regs edits \<noteq> None"
proof (induction lines ops regs edits rule: lower_operations.induct)
  case (2 lines ad source k oi a ops regs edits)
  show ?case unfolding lower_operations.simps by (intro try_then_returns) (use 2 in auto)
next
  case (3 lines ad r k oi a ops regs edits)
  show ?case unfolding lower_operations.simps by (intro try_then_returns) (use 3 in auto)
qed auto

lemma apply_section_ops_returns:
  assumes "rem_alone ops"
  shows "apply_section_ops req can b ops resolved regs \<noteq> None"
proof (cases "length ops \<noteq> length resolved \<or> (ops \<noteq> [] \<and> is_rem (hd ops)) \<or> list_ex is_mv ops")
  case True
  then show ?thesis by (auto simp: apply_section_ops_def)
next
  case False
  have "\<not> list_ex is_rem ops"
  proof
    assume "list_ex is_rem ops"
    then have "length ops = 1" "list_ex is_rem ops" using assms by (simp_all add: rem_alone_def)
    then show False using False by (cases ops) auto
  qed
  then have low: "list_all (\<lambda>(oper, _). \<not> is_rem oper \<and> \<not> is_mv oper) (zip ops resolved)"
    using False by (auto simp: list_all_iff list_ex_iff dest: set_zip_leftD)
  have c: "\<not> length ops \<noteq> length resolved" "\<not> (ops \<noteq> [] \<and> is_rem (hd ops))" "\<not> list_ex is_mv ops" using False by blast+
  show ?thesis
    unfolding apply_section_ops_def if_not_P [OF c(1)] if_not_P [OF c(2)] if_not_P [OF c(3)]
    by (intro try_then_returns lower_operations_returns [OF low]) (simp_all add: Let_def split_beta)
qed

lemma select_rows_bounds:
  "select_rows sp current i os = Inr is \<Longrightarrow> sorted_wrt (<) is \<and> (\<forall>k \<in> set is. i \<le> k \<and> k < i + length os)"
proof (induction sp current i os arbitrary: "is" rule: select_rows.induct)
  case (2 sp current i line os)
  then show ?case by (fastforce simp: and_then_Inr split: if_splits)
next
  case (3 sp current i source previous os)
  then show ?case by (fastforce simp: and_then_Inr split: if_splits)
next
  case (4 sp current i g os)
  then show ?case by fastforce
qed simp

lemma remap_span_bounds:
  assumes "remap_span st sp current = Inr sp'"
  shows "0 < sp_start sp' \<and> sp_start sp' \<le> sp_end sp' \<and> sp_end sp' \<le> length (cs_origins st)"
proof -
  obtain sel where sel: "select_rows sp current 1 (cs_origins st) = Inr sel" "sel \<noteq> []" "sp' = \<lparr>sp_start = hd sel, sp_end = last sel\<rparr>"
    using assms by (auto simp: remap_span_def and_then_Inr split: option.splits if_splits)
  note b = select_rows_bounds [OF sel(1)]
  have "hd sel \<le> last sel" using b sel(2) by (cases sel) (auto intro: less_imp_le)
  moreover have "0 < hd sel" "last sel \<le> length (cs_origins st)" using b sel(2) by (auto simp: Suc_le_eq less_Suc_eq_le)
  ultimately show ?thesis using sel(3) by simp
qed

lemma index_for_original_bound:
  "first_index_for_original os l = Some n \<Longrightarrow> 0 < n \<and> n \<le> length os"
  "last_index_for_original os l = Some n \<Longrightarrow> 0 < n \<and> n \<le> length os"
  by (auto simp: first_index_for_original_def last_index_for_original_def position_Some split: option.splits)

lemma remap_gap_bounds:
  assumes "remap_gap st g current = Inr g'" "rg_before g' = Some n"
  shows "0 < n \<and> n \<le> length (cs_origins st)"
proof -
  let ?ins = "filter (\<lambda>i. cs_origins st ! i = InsertedAt g) [0..<length (cs_origins st)]"
  have "last ?ins < length (cs_origins st)" if "?ins \<noteq> []" using last_in_set [OF that] by simp
  then show ?thesis
    using assms index_for_original_bound(2) [of "cs_origins st" "og_before g" n]
    by (auto simp: remap_gap_def Let_def split: option.splits if_splits)
qed

lemma update_origins_returns:
  assumes "remap_address st a current = Inr a'"
  shows "update_origins st oper a a' name n m \<noteq> None"
proof (cases a)
  case (AtSpan sp)
  then obtain sp' where sp': "a' = AtSpan sp'" "remap_span st sp current = Inr sp'" using assms by (auto simp: and_then_Inr)
  then have "sp_start sp' - 1 \<le> sp_end sp'" "sp_end sp' \<le> length (cs_origins st)" using remap_span_bounds [of st sp current sp'] by auto
  then show ?thesis using sp'(1) AtSpan by (cases oper) (auto simp: splice_range_def Let_def split: option.splits)
next
  case (AtGap g)
  then obtain g' where g': "a' = AtGap g'" "remap_gap st \<lparr>og_before = rg_before g, og_after = rg_after g\<rparr> current = Inr g'"
    using assms by (auto simp: and_then_Inr)
  then have "(case rg_before g' of Some n \<Rightarrow> n | None \<Rightarrow> 0) \<le> length (cs_origins st)"
    using remap_gap_bounds [OF g'(2)] by (auto split: option.splits)
  then show ?thesis using g'(1) AtGap by (cases oper) (auto simp: splice_range_def Let_def split: option.splits)
qed (cases oper; use assms in auto)+

lemma baseline_from_bytes_returns: "baseline_from_bytes bs \<noteq> None"
  using scan_bytes_rows [of bs] by (auto simp: baseline_from_bytes_def)

lemma apply_operation_returns: "apply_operation st oper r regs \<noteq> None"
proof (cases "cs_removed_by st")
  case None
  have alone: "rem_alone [oper]" by (simp add: rem_alone_def)
  show ?thesis
    unfolding apply_operation_def Let_def None option.case
  proof (intro try_then_returns)
    fix a' p
    assume a': "Some (remap_address st (snd r) (operation_label oper)) = Some (Inr a')"
      and p: "apply_section_ops (cs_requested_path st) (cs_canonical_path st) (cs_current st) [oper] [(fst r, a')] regs = Some (Inr p)"
    obtain after where "baseline_from_bytes (pf_final_bytes (fst p)) = Some after" using baseline_from_bytes_returns by auto
    moreover have "try_then (update_origins st oper (snd r) a' (operation_label oper) n m) (\<lambda>st. Some (f st)) \<noteq> None"
      for n m and f :: "composition_state \<Rightarrow> hashline_rejection + composition_state \<times> staged_registers"
      by (intro try_then_returns update_origins_returns) (use a' in auto)
    ultimately show "(case p of (planned, registers) \<Rightarrow>
        case baseline_from_bytes (pf_final_bytes planned) of None \<Rightarrow> None
        | Some after \<Rightarrow>
            try_then (update_origins st oper (snd r) a' (operation_label oper) (total_lines (bl_snapshot (cs_current st))) (total_lines (bl_snapshot after)))
              (\<lambda>st. Some (Inr (st\<lparr>cs_current := after, cs_remove_file := pf_remove_file planned,
                    cs_warnings := cs_warnings st @ pf_warnings planned,
                    cs_repair_layers := foldl (\<lambda>ls l. if l \<in> set ls then ls else ls @ [l]) (cs_repair_layers st) (pf_repair_layers planned)\<rparr>,
                    registers)))) \<noteq> None"
      unfolding split_beta by simp
  qed (use apply_section_ops_returns [OF alone] in auto)
qed (simp add: apply_operation_def Let_def)

lemma apply_operations_returns: "apply_operations st ops regs \<noteq> None"
proof (induction st ops regs rule: apply_operations.induct)
  case (2 st oper r ops regs)
  show ?case unfolding apply_operations.simps
    by (intro try_then_returns apply_operation_returns) (use 2 in auto)
qed simp

text \<open>A slot that a repeated path owns is still composing.\<close>

definition slots_ok :: "(rstr, nat) btree_map \<Rightarrow> apply_plan_slot list \<Rightarrow> (rstr, nat) btree_map \<Rightarrow> bool" where
  "slots_ok counts slots slot_by_path \<longleftrightarrow> bt_inv slot_by_path
     \<and> (\<forall>path k. bt_get slot_by_path path = Some k \<longrightarrow> k < length slots
          \<and> ((case bt_get counts path of Some n \<Rightarrow> n | None \<Rightarrow> 0) \<noteq> 1 \<longrightarrow> (\<exists>st. slots ! k = Composing st)))"

lemma slots_ok_push:
  assumes "slots_ok counts slots m" "(case bt_get counts path of Some n \<Rightarrow> n | None \<Rightarrow> 0) = 1 \<or> (\<exists>st. x = Composing st)"
  shows "slots_ok counts (slots @ [x]) (bt_insert path (length slots) m)"
  using assms by (auto simp: slots_ok_def bt_insert_inv bt_get_insert nth_append less_Suc_eq)

lemma plan_sections_returns:
  "list_all (\<lambda>i. rem_alone (in_operations i)) sections \<Longrightarrow> slots_ok counts slots slot_by_path
     \<Longrightarrow> plan_sections counts sections staged slots slot_by_path \<noteq> None"
proof (induction sections arbitrary: staged slots slot_by_path)
  case (Cons i rest)
  let ?path = "in_canonical_path i"
  let ?n = "case bt_get counts ?path of Some n \<Rightarrow> n | None \<Rightarrow> 0"
  have ok: "bt_inv slot_by_path" using Cons.prems(2) by (simp add: slots_ok_def)
  show ?case
  proof (cases "?n = 1")
    case True
    have "slots_ok counts (slots @ [Complete planned]) (bt_insert ?path (length slots) slot_by_path)" for planned
      by (rule slots_ok_push [OF Cons.prems(2)]) (use True in simp)
    then have next_ok: "plan_sections counts rest staged' (slots @ [Complete planned]) (bt_insert ?path (length slots) slot_by_path) \<noteq> None"
      for planned staged' using Cons.IH Cons.prems(1) by simp
    show ?thesis
      unfolding plan_sections.simps Let_def if_P [OF True]
      by (intro try_then_returns apply_section_ops_returns) (use Cons.prems(1) next_ok in \<open>auto simp: split_beta\<close>)
  next
    case False
    obtain slot slots' by_path' where s: "(case bt_get slot_by_path ?path of
        Some slot \<Rightarrow> (slot, slots, slot_by_path)
      | None \<Rightarrow> (length slots, slots @ [Composing (composition_new i)], bt_insert ?path (length slots) slot_by_path)) = (slot, slots', by_path')"
      by (metis surj_pair)
    then have ok': "slots_ok counts slots' by_path'" "bt_get by_path' ?path = Some slot"
      using Cons.prems(2) slots_ok_push [OF Cons.prems(2), of ?path "Composing (composition_new i)"] ok
      by (cases "bt_get slot_by_path ?path"; auto simp: bt_get_insert)+
    then obtain st where st: "slot < length slots'" "slots' ! slot = Composing st" using False by (fastforce simp: slots_ok_def)
    have "slots_ok counts (slots'[slot := Composing st']) by_path'" for st'
      using ok'(1) st(1) by (auto simp: slots_ok_def nth_list_update)
    then have next_ok: "plan_sections counts rest staged' (slots'[slot := Composing st']) by_path' \<noteq> None"
      for st' staged' using Cons.IH Cons.prems(1) by simp
    have at: "nth_opt slots' slot = Some (Composing st)" using st by (simp add: nth_opt_def)
    have "composition_apply_section st i staged \<noteq> None" using apply_operations_returns by (simp add: composition_apply_section_def)
    then have "try_then (composition_apply_section st i staged) (\<lambda>(st, staged).
        plan_sections counts rest staged (slots'[slot := Composing st]) by_path') \<noteq> None"
      by (intro try_then_returns) (use next_ok in \<open>auto simp: split_beta\<close>)
    then show ?thesis
      unfolding plan_sections.simps Let_def if_not_P [OF False] s prod.case at option.case apply_plan_slot.case .
  qed
qed simp



section \<open>Staged registers\<close>

text \<open>A fork of the session's registers: its base is the session's store, its log of writes replayed on the base gives the
  working store, and the working store is within the bounds.\<close>

definition fork_of :: "register_store \<Rightarrow> staged_registers \<Rightarrow> bool" where
  "fork_of st staged \<longleftrightarrow> sg_base staged = st \<and> registers_ok (sg_working staged)
     \<and> capture_all write_register st (map (\<lambda>w. (rw_register w, rw_lines w)) (sg_writes staged)) = Inr (sg_working staged)"

lemma capture_all_append: "capture_all c s (xs @ ys) = and_then (capture_all c s xs) (\<lambda>s. capture_all c s ys)"
proof (induction xs arbitrary: s)
  case (Cons x xs)
  then show ?case by (cases x) (auto simp: and_then_def split: sum.splits)
qed (simp add: and_then_def)

lemma fork_stage: "registers_ok st \<Longrightarrow> fork_of st (stage_registers st)"
  by (simp add: fork_of_def stage_registers_def)

lemma fork_capture:
  assumes "fork_of st staged" "capture_register staged r lines = Inr staged'"
  shows "fork_of st staged'"
proof -
  from assms(2) obtain c: "check_register_bounds (sg_working staged) r lines = Inr ()" "write_register (sg_working staged) r lines = Inr (sg_working staged')"
    "sg_base staged' = sg_base staged" "sg_writes staged' = sg_writes staged @ [\<lparr>rw_register = r, rw_lines = lines\<rparr>]"
    by (rule capture_cases)
  then show ?thesis using assms(1) capture_bounds [OF _ c(1,2)] by (simp add: fork_of_def capture_all_append and_then_def)
qed

lemma fork_lower_cut: "lower_cut r a lines staged oi = Inr (es, staged') \<Longrightarrow> fork_of st staged \<Longrightarrow> fork_of st staged'"
  using fork_capture by (auto simp: lower_cut_def and_then_Inr Let_def split: option.splits)

lemma fork_lower_operations:
  "lower_operations lines ops staged edits = Some (Inr (es, staged')) \<Longrightarrow> fork_of st staged \<Longrightarrow> fork_of st staged'"
proof (induction lines ops staged edits rule: lower_operations.induct)
  case (2 lines ad source k oi a ops regs edits)
  then show ?case by (auto simp: try_then_Inr)
next
  case (3 lines ad r k oi a ops regs edits)
  then show ?case using fork_lower_cut by (fastforce simp: try_then_Inr)
qed simp_all

lemma apply_section_ops_result:
  assumes "apply_section_ops req can b ops resolved staged = Some (Inr (file, staged'))"
  shows "pf_canonical_path file = can \<and> pf_baseline_bytes file = bl_bytes b" "fork_of st staged \<Longrightarrow> fork_of st staged'"
proof -
  have "pf_canonical_path file = can \<and> pf_baseline_bytes file = bl_bytes b \<and> (fork_of st staged \<longrightarrow> fork_of st staged')"
    using assms fork_lower_operations
    by (fastforce simp: apply_section_ops_def try_then_Inr Let_def split_beta split: if_splits)
  then show "pf_canonical_path file = can \<and> pf_baseline_bytes file = bl_bytes b" "fork_of st staged \<Longrightarrow> fork_of st staged'" by blast+
qed

lemma update_origins_frame:
  "update_origins cs oper a a' name n m = Some (Inr cs') \<Longrightarrow> cs_canonical_path cs' = cs_canonical_path cs \<and> cs_original cs' = cs_original cs"
  by (induction cs oper a a' name n m rule: update_origins.induct) (auto simp: Let_def split: option.splits)

lemma apply_operation_result:
  assumes "apply_operation cs oper r staged = Some (Inr (cs', staged'))"
  shows "cs_canonical_path cs' = cs_canonical_path cs \<and> cs_original cs' = cs_original cs" "fork_of st staged \<Longrightarrow> fork_of st staged'"
  using assms
  by (auto simp: apply_operation_def Let_def try_then_Inr split: option.splits dest!: update_origins_frame apply_section_ops_result(2))

lemma apply_operations_result:
  "apply_operations cs ops staged = Some (Inr (cs', staged')) \<Longrightarrow>
     cs_canonical_path cs' = cs_canonical_path cs \<and> cs_original cs' = cs_original cs \<and> (fork_of st staged \<longrightarrow> fork_of st staged')"
proof (induction cs ops staged rule: apply_operations.induct)
  case (2 cs oper r ops staged)
  obtain cs1 staged1 where s: "apply_operation cs oper r staged = Some (Inr (cs1, staged1))" "apply_operations cs1 ops staged1 = Some (Inr (cs', staged'))"
    using 2(2) by (auto simp: try_then_Inr)
  then show ?case using 2(1) [OF s(2)] apply_operation_result [OF s(1)] by auto
qed simp

section \<open>The slots of a plan\<close>

fun slot_path :: "apply_plan_slot \<Rightarrow> rstr" where
  "slot_path (Complete file) = pf_canonical_path file"
| "slot_path (Composing cs) = cs_canonical_path cs"

fun slot_bytes :: "apply_plan_slot \<Rightarrow> byte list" where
  "slot_bytes (Complete file) = pf_baseline_bytes file"
| "slot_bytes (Composing cs) = bl_bytes (cs_original cs)"

text \<open>After the sections \<open>ds\<close>: one slot per path, in the order of their first sections, found under its path, and for
  the baseline bytes of its sections.\<close>

definition slots_for :: "section_plan_input list \<Rightarrow> apply_plan_slot list \<Rightarrow> (rstr, nat) btree_map \<Rightarrow> bool" where
  "slots_for ds slots m \<longleftrightarrow> map slot_path slots = in_first_order (map in_canonical_path ds) \<and> bt_inv m
     \<and> (\<forall>path k. bt_get m path = Some k \<longleftrightarrow> k < length slots \<and> slot_path (slots ! k) = path)
     \<and> (\<forall>slot \<in> set slots. \<exists>i \<in> set ds. in_canonical_path i = slot_path slot \<and> bl_bytes (in_baseline i) = slot_bytes slot)"

lemma slots_for_push:
  assumes "slots_for ds slots m" "in_canonical_path i \<notin> set (map in_canonical_path ds)"
    and "slot_path slot = in_canonical_path i" "slot_bytes slot = bl_bytes (in_baseline i)"
  shows "slots_for (ds @ [i]) (slots @ [slot]) (bt_insert (in_canonical_path i) (length slots) m)"
proof -
  let ?p = "in_canonical_path i"
  have order: "map slot_path slots = in_first_order (map in_canonical_path ds)" "bt_inv m"
    and get: "\<And>path k. bt_get m path = Some k \<longleftrightarrow> k < length slots \<and> slot_path (slots ! k) = path"
    and bytes: "\<forall>slot \<in> set slots. \<exists>i \<in> set ds. in_canonical_path i = slot_path slot \<and> bl_bytes (in_baseline i) = slot_bytes slot"
    using assms(1) by (auto simp: slots_for_def)
  have fresh: "?p \<notin> set (map slot_path slots)" using assms(2) unfolding order(1) by simp
  then have fresh_nth: "slot_path (slots ! k) \<noteq> ?p" if "k < length slots" for k using that by (metis length_map nth_map nth_mem)
  have "map slot_path (slots @ [slot]) = in_first_order (map in_canonical_path (ds @ [i]))"
    using order(1) fresh assms(3) by (simp add: in_first_order_snoc)
  moreover have "bt_get (bt_insert ?p (length slots) m) path = Some k \<longleftrightarrow> k < length (slots @ [slot]) \<and> slot_path ((slots @ [slot]) ! k) = path" for path k
    using get [of path k] fresh_nth assms(3) order(2) by (auto simp: bt_get_insert nth_append less_Suc_eq)
  moreover have "\<forall>slot' \<in> set (slots @ [slot]). \<exists>i' \<in> set (ds @ [i]). in_canonical_path i' = slot_path slot' \<and> bl_bytes (in_baseline i') = slot_bytes slot'"
    using bytes assms(3,4) by fastforce
  ultimately show ?thesis using bt_insert_inv [OF order(2)] unfolding slots_for_def by blast
qed

lemma slots_for_update:
  assumes "slots_for ds slots m" "bt_get m (in_canonical_path i) = Some k" "slot_path slot = slot_path (slots ! k)" "slot_bytes slot = slot_bytes (slots ! k)"
  shows "slots_for (ds @ [i]) (slots[k := slot]) m"
proof -
  have order: "map slot_path slots = in_first_order (map in_canonical_path ds)" "bt_inv m"
    and get: "\<And>path k. bt_get m path = Some k \<longleftrightarrow> k < length slots \<and> slot_path (slots ! k) = path"
    and bytes: "\<forall>slot \<in> set slots. \<exists>i \<in> set ds. in_canonical_path i = slot_path slot \<and> bl_bytes (in_baseline i) = slot_bytes slot"
    using assms(1) by (auto simp: slots_for_def)
  have k: "k < length slots" "slot_path (slots ! k) = in_canonical_path i" using get assms(2) by auto
  have paths: "map slot_path (slots[k := slot]) = map slot_path slots"
    using assms(3) k(1) by (intro nth_equalityI) (auto simp: nth_list_update)
  have nth: "slot_path (slots[k := slot] ! j) = slot_path (slots ! j)" if "j < length slots" for j
    using assms(3) k(1) that by (auto simp: nth_list_update)
  have "in_canonical_path i \<in> set (map slot_path slots)" using k by (metis length_map nth_map nth_mem)
  then have "in_first_order (map in_canonical_path (ds @ [i])) = in_first_order (map in_canonical_path ds)"
    using order(1) by (simp add: in_first_order_snoc)
  moreover have "\<forall>slot' \<in> set (slots[k := slot]). \<exists>i' \<in> set (ds @ [i]). in_canonical_path i' = slot_path slot' \<and> bl_bytes (in_baseline i') = slot_bytes slot'"
  proof
    fix slot' assume "slot' \<in> set (slots[k := slot])"
    then have "slot' \<in> set slots \<or> slot' = slot" using set_update_subset_insert by fastforce
    moreover obtain i' where "i' \<in> set ds" "in_canonical_path i' = slot_path slot" "bl_bytes (in_baseline i') = slot_bytes slot"
      using bytes k(1) assms(3,4) by (metis nth_mem)
    ultimately show "\<exists>i' \<in> set (ds @ [i]). in_canonical_path i' = slot_path slot' \<and> bl_bytes (in_baseline i') = slot_bytes slot'"
      using bytes by auto
  qed
  moreover have "bt_get m path = Some j \<longleftrightarrow> j < length (slots[k := slot]) \<and> slot_path (slots[k := slot] ! j) = path" for path j
    using get [of path j] nth [of j] by (cases "j < length slots") auto
  ultimately show ?thesis unfolding slots_for_def paths using order by metis
qed

definition count_of :: "(rstr, nat) btree_map \<Rightarrow> rstr \<Rightarrow> nat" where
  "count_of counts path = (case bt_get counts path of Some n \<Rightarrow> n | None \<Rightarrow> 0)"

definition sections_at :: "rstr \<Rightarrow> section_plan_input list \<Rightarrow> nat" where
  "sections_at path ds = length (filter (\<lambda>i. in_canonical_path i = path) ds)"

lemma plan_sections_slots:
  "plan_sections counts rest staged slots m = Some (Inr (slots', staged')) \<Longrightarrow> slots_for ds slots m \<Longrightarrow>
     (\<And>path. count_of counts path = sections_at path (ds @ rest)) \<Longrightarrow>
     (\<exists>m'. slots_for (ds @ rest) slots' m') \<and> (fork_of st staged \<longrightarrow> fork_of st staged')"
proof (induction rest arbitrary: staged slots m ds)
  case (Cons i rest)
  let ?path = "in_canonical_path i"
  have counts: "count_of counts path = sections_at path ((ds @ [i]) @ rest)" for path using Cons.prems(3) by simp
  show ?case
  proof (cases "count_of counts ?path = 1")
    case True
    obtain planned staged1 where p: "apply_section_ops (in_requested_path i) ?path (in_baseline i) (in_operations i) (in_resolved i) staged = Some (Inr (planned, staged1))"
        "plan_sections counts rest staged1 (slots @ [Complete planned]) (bt_insert ?path (length slots) m) = Some (Inr (slots', staged'))"
      using Cons.prems(1) True by (auto simp: count_of_def try_then_Inr Let_def)
    have "sections_at ?path ds = 0" using True counts [of ?path] by (simp add: sections_at_def)
    then have "?path \<notin> set (map in_canonical_path ds)" by (auto simp: sections_at_def filter_empty_conv)
    then have "slots_for (ds @ [i]) (slots @ [Complete planned]) (bt_insert ?path (length slots) m)"
      using slots_for_push [OF Cons.prems(2)] apply_section_ops_result(1) [OF p(1)] by simp
    then show ?thesis using Cons.IH [OF p(2) _ counts] apply_section_ops_result(2) [OF p(1)] by auto
  next
    case False
    obtain slot slots1 m1 where s: "(case bt_get m ?path of
        Some slot \<Rightarrow> (slot, slots, m)
      | None \<Rightarrow> (length slots, slots @ [Composing (composition_new i)], bt_insert ?path (length slots) m)) = (slot, slots1, m1)"
      by (metis surj_pair)
    obtain cs cs' staged1 where p: "nth_opt slots1 slot = Some (Composing cs)" "composition_apply_section cs i staged = Some (Inr (cs', staged1))"
        "plan_sections counts rest staged1 (slots1[slot := Composing cs']) m1 = Some (Inr (slots', staged'))"
      using Cons.prems(1) False s by (auto simp: count_of_def Let_def try_then_Inr split: option.splits apply_plan_slot.splits)
    have frame: "cs_canonical_path cs' = cs_canonical_path cs" "cs_original cs' = cs_original cs" "fork_of st staged \<longrightarrow> fork_of st staged1"
      using p(2) apply_operations_result [of cs "zip (in_operations i) (in_resolved i)" staged cs' staged1]
      by (auto simp: composition_apply_section_def split: if_splits)
    have at: "slots1 ! slot = Composing cs" using p(1) by (simp add: nth_opt_def split: if_splits)
    have "slots_for (ds @ [i]) (slots1[slot := Composing cs']) m1"
    proof (cases "bt_get m ?path")
      case None
      then have new: "slot = length slots" "slots1 = slots @ [Composing (composition_new i)]" "m1 = bt_insert ?path (length slots) m" using s by auto
      have "?path \<notin> set (map slot_path slots)"
      proof
        assume "?path \<in> set (map slot_path slots)"
        then obtain k where "k < length slots" "slot_path (slots ! k) = ?path" by (metis in_set_conv_nth length_map nth_map)
        then have "bt_get m ?path = Some k" using Cons.prems(2) unfolding slots_for_def by blast
        then show False using None by simp
      qed
      moreover have "map slot_path slots = in_first_order (map in_canonical_path ds)" using Cons.prems(2) by (simp add: slots_for_def)
      ultimately have fresh: "?path \<notin> set (map in_canonical_path ds)" by (metis set_in_first_order)
      have "cs = composition_new i" using at new by simp
      then have "slots_for (ds @ [i]) (slots @ [Composing cs']) m1"
        using slots_for_push [OF Cons.prems(2) fresh, of "Composing cs'"] frame new(3) by (simp add: composition_new_def)
      then show ?thesis using new by simp
    next
      case (Some k)
      then show ?thesis using slots_for_update [OF Cons.prems(2) Some, of "Composing cs'"] s at frame by auto
    qed
    then show ?thesis using Cons.IH [OF p(3) _ counts] frame(3) by auto
  qed
qed auto

lemma verify_operations_exact: "verify_operations s b ops msg = Inr () \<Longrightarrow> (oi, a) \<in> set ops \<Longrightarrow> verify_exact s b a = Exact"
  by (induction s b ops msg rule: verify_operations.induct) (auto split: verification_outcome.splits)

lemma verify_plan_sections_spec:
  assumes "verify_plan_sections counts baselines sections = Inr counts'" "bt_inv counts" "bt_inv baselines"
  shows "\<forall>path. count_of counts' path = count_of counts path + sections_at path sections"
    and "\<forall>i \<in> set sections. verify_section_against_pre_request_baseline i = Inr ()
      \<and> (\<forall>bs. bt_get baselines (in_canonical_path i) = Some bs \<longrightarrow> bs = bl_bytes (in_baseline i))"
    and "\<forall>i \<in> set sections. \<forall>j \<in> set sections. in_canonical_path i = in_canonical_path j \<longrightarrow> bl_bytes (in_baseline i) = bl_bytes (in_baseline j)"
proof -
  have "(\<forall>path. count_of counts' path = count_of counts path + sections_at path sections)
    \<and> (\<forall>i \<in> set sections. verify_section_against_pre_request_baseline i = Inr ()
      \<and> (\<forall>bs. bt_get baselines (in_canonical_path i) = Some bs \<longrightarrow> bs = bl_bytes (in_baseline i)))
    \<and> (\<forall>i \<in> set sections. \<forall>j \<in> set sections. in_canonical_path i = in_canonical_path j \<longrightarrow> bl_bytes (in_baseline i) = bl_bytes (in_baseline j))"
    using assms
  proof (induction sections arbitrary: counts baselines)
    case Nil
    then show ?case by (simp add: sections_at_def)
  next
    case (Cons i rest)
    let ?p = "in_canonical_path i"
    let ?counts = "bt_insert ?p ((case bt_get counts ?p of Some n \<Rightarrow> n | None \<Rightarrow> 0) + 1) counts"
    obtain bl where bl: "verify_section_against_pre_request_baseline i = Inr ()" "verify_plan_sections ?counts bl rest = Inr counts'"
        "bt_get bl ?p = Some (bl_bytes (in_baseline i))" "bt_inv bl"
        "\<forall>q. q \<noteq> ?p \<longrightarrow> bt_get bl q = bt_get baselines q" "\<forall>bs. bt_get baselines ?p = Some bs \<longrightarrow> bs = bl_bytes (in_baseline i)"
      using Cons.prems by (auto simp: Let_def and_then_Inr bt_get_insert bt_insert_inv split: option.splits if_splits)
    have IH: "count_of counts' path = count_of ?counts path + sections_at path rest"
        "\<forall>j \<in> set rest. verify_section_against_pre_request_baseline j = Inr () \<and> (\<forall>bs. bt_get bl (in_canonical_path j) = Some bs \<longrightarrow> bs = bl_bytes (in_baseline j))"
        "\<forall>j \<in> set rest. \<forall>k \<in> set rest. in_canonical_path j = in_canonical_path k \<longrightarrow> bl_bytes (in_baseline j) = bl_bytes (in_baseline k)" for path
      using Cons.IH [OF bl(2) bt_insert_inv [OF Cons.prems(2)] bl(4)] by blast+
    have counts: "\<forall>path. count_of counts' path = count_of counts path + sections_at path (i # rest)"
      using IH(1) Cons.prems(2) by (auto simp: count_of_def sections_at_def bt_get_insert)
    have same: "bl_bytes (in_baseline j) = bl_bytes (in_baseline i)" if "j \<in> set rest" "in_canonical_path j = ?p" for j
      using IH(2) that bl(3) by force
    have old: "\<forall>bs. bt_get baselines (in_canonical_path j) = Some bs \<longrightarrow> bs = bl_bytes (in_baseline j)" if "j \<in> set rest" for j
      using IH(2) that bl(5,6) same [OF that] by (cases "in_canonical_path j = ?p") auto
    have all_old: "\<forall>j \<in> set (i # rest). verify_section_against_pre_request_baseline j = Inr ()
        \<and> (\<forall>bs. bt_get baselines (in_canonical_path j) = Some bs \<longrightarrow> bs = bl_bytes (in_baseline j))"
      using bl(1,6) IH(2) old by (metis set_ConsD)
    have "bl_bytes (in_baseline j) = bl_bytes (in_baseline k)"
      if "j \<in> set (i # rest)" "k \<in> set (i # rest)" "in_canonical_path j = in_canonical_path k" for j k
      using that same [of j] same [of k] IH(3) by (metis set_ConsD)
    then show ?case using counts all_old by blast
  qed
  then show "\<forall>path. count_of counts' path = count_of counts path + sections_at path sections"
    "\<forall>i \<in> set sections. verify_section_against_pre_request_baseline i = Inr ()
      \<and> (\<forall>bs. bt_get baselines (in_canonical_path i) = Some bs \<longrightarrow> bs = bl_bytes (in_baseline i))"
    "\<forall>i \<in> set sections. \<forall>j \<in> set sections. in_canonical_path i = in_canonical_path j \<longrightarrow> bl_bytes (in_baseline i) = bl_bytes (in_baseline j)" by blast+
qed

lemma composition_finish_result:
  "composition_finish cs = Inr planned \<Longrightarrow> pf_canonical_path planned = cs_canonical_path cs \<and> pf_baseline_bytes planned = bl_bytes (cs_original cs)"
  by (auto simp: composition_finish_def and_then_Inr)

lemma finish_slots_result:
  "finish_slots slots = Inr files \<Longrightarrow> map pf_canonical_path files = map slot_path slots \<and> map pf_baseline_bytes files = map slot_bytes slots"
proof (induction slots arbitrary: files)
  case (Cons slot slots)
  then show ?case by (cases slot) (auto simp: and_then_Inr dest!: composition_finish_result)
qed simp

lemma plan_apply_cases:
  assumes "plan_apply sections registers = Some (Inr plan)"
  obtains counts slots m where "verify_plan_sections [] [] sections = Inr counts"
    "plan_sections counts sections (stage_registers registers) [] [] = Some (Inr (slots, ap_staged_registers plan))"
    "finish_slots slots = Inr (ap_files plan)" "slots_for sections slots m"
    "registers_ok registers \<longrightarrow> fork_of registers (ap_staged_registers plan)"
proof -
  obtain counts slots where c: "verify_plan_sections [] [] sections = Inr counts"
    "plan_sections counts sections (stage_registers registers) [] [] = Some (Inr (slots, ap_staged_registers plan))"
    "finish_slots slots = Inr (ap_files plan)"
    using assms by (auto simp: plan_apply_def try_then_Inr)
  have inv: "bt_inv ([] :: (rstr, 'a) btree_map)" by (simp add: bt_inv_def)
  have "count_of counts path = sections_at path ([] @ sections)" for path
    using verify_plan_sections_spec(1) [OF c(1) inv inv] by (simp add: count_of_def bt_get_def)
  moreover have "slots_for [] [] []" by (simp add: slots_for_def bt_inv_def bt_get_def in_first_order_def)
  ultimately have "(\<exists>m. slots_for ([] @ sections) slots m) \<and> (fork_of registers (stage_registers registers) \<longrightarrow> fork_of registers (ap_staged_registers plan))"
    by (intro plan_sections_slots [OF c(2)])
  then show ?thesis using that [OF c] fork_stage by auto
qed

section \<open>The rows of a baseline\<close>

lemma retained_of_records: "map (\<lambda>(n, r). (n, rt_record r)) (retained_of (\<lambda>_. True) n off rs) = zip [n..<n + length rs] rs"
proof (induction rs arbitrary: n off)
  case (Cons r rs)
  then show ?case using upt_step [of n "length rs"] by (simp del: upt_Suc)
qed simp

lemma baseline_from_bytes_total: obtains b where "baseline_from_bytes bs = Some b"
proof -
  obtain s where "scan_bytes bs = Some s" by (rule scan_bytes_rows)
  then show ?thesis using that by (simp add: baseline_from_bytes_def)
qed

lemma baseline_rows:
  assumes "baseline_from_bytes bs = Some b"
  shows "records (bl_snapshot b) = zip [1..<Suc (length (line_records bs))] (line_records bs)"
    and "total_lines (bl_snapshot b) = length (line_records bs)" "bl_bytes b = bs"
    and "baseline_raw_record b = (\<lambda>n. if 0 < n \<and> n \<le> length (line_records bs) then Some (line_records bs ! (n - 1)) else None)"
proof -
  obtain s where s: "scan_bytes_with_coverage bs coverage_whole_file = Some s" "total_lines s = length (line_records bs)"
    "sn_retained_lines s = retained_of (retains coverage_whole_file) 1 0 (line_records bs)"
    "records s = map (\<lambda>(n, r). (n, rt_record r)) (sn_retained_lines s)"
    by (rule scan_bytes_with_coverage_spec)
  have b: "bl_snapshot b = s" "bl_bytes b = bs" using assms s(1) by (auto simp: baseline_from_bytes_def scan_bytes_whole)
  have ret: "sn_retained_lines s = retained_of (\<lambda>_. True) 1 0 (line_records bs)" using s(3) by (simp only: retains_whole)
  show "records (bl_snapshot b) = zip [1..<Suc (length (line_records bs))] (line_records bs)"
    using retained_of_records [of 1 0 "line_records bs"] by (simp add: b s(4) ret del: upt_Suc)
  show "total_lines (bl_snapshot b) = length (line_records bs)" "bl_bytes b = bs" by (simp_all add: b s(2))
  obtain s' where "scan_bytes bs = Some s'"
    "raw_record s' = (\<lambda>n. if 0 < n \<and> n \<le> length (line_records bs) then Some (line_records bs ! (n - 1)) else None)"
    by (rule scan_bytes_rows)
  then show "baseline_raw_record b = (\<lambda>n. if 0 < n \<and> n \<le> length (line_records bs) then Some (line_records bs ! (n - 1)) else None)"
    using s(1) by (intro ext) (simp add: b baseline_raw_record_def scan_bytes_whole)
qed

lemma lines_from_bytes:
  "lines_from b ns = Inr ls \<Longrightarrow> map as_bytes ls = map (\<lambda>n. rl_content (the (baseline_raw_record b n))) ns"
  by (induction ns arbitrary: ls)
    (auto simp: and_then_Inr line_content_utf8_def split: option.splits dest: from_utf8_Some)

lemma baseline_lines_bytes:
  assumes "baseline_from_bytes bs = Some b" "baseline_lines b = Inr lines"
  shows "map as_bytes lines = map rl_content (line_records bs)"
proof -
  have "map as_bytes lines = map (\<lambda>n. rl_content (the (baseline_raw_record b n))) [1..<Suc (length (line_records bs))]"
    using lines_from_bytes assms(2) by (simp add: baseline_lines_def baseline_rows(2) [OF assms(1)])
  also have "\<dots> = map rl_content (line_records bs)"
    by (intro nth_equalityI) (auto simp: baseline_rows(4) [OF assms(1)] simp del: upt_Suc)
  finally show ?thesis .
qed

section \<open>Joining rows\<close>

text \<open>The records of a file that is written from rows.\<close>

fun joined_records :: "terminator_kind \<Rightarrow> bool \<Rightarrow> rstr list \<Rightarrow> raw_line_record list" where
  "joined_records t trailing [] = []"
| "joined_records t trailing (l # ls) =
     \<lparr>rl_content = as_bytes l, rl_terminator = (if ls = [] \<and> \<not> trailing then NoTerm else t)\<rparr> # joined_records t trailing ls"

lemma join_lines_joined:
  assumes "t \<noteq> NoTerm"
  shows "join_lines ls t trailing = concat (map to_bytes (joined_records t trailing ls))"
proof -
  have "m = n + length ls \<Longrightarrow> concat (map (\<lambda>(index, line). as_bytes line
       @ (let is_last = (index + 1 = m);
              term = (if is_last \<and> \<not> trailing then NoTerm else if t = NoTerm then Lf else t)
          in case term of Lf \<Rightarrow> [10] | CrLf \<Rightarrow> [13, 10] | NoTerm \<Rightarrow> [])) (List.enumerate n ls))
    = concat (map to_bytes (joined_records t trailing ls))" for m n
  proof (induction ls arbitrary: n)
    case (Cons l ls)
    then show ?case using Cons.IH [of "Suc n"] assms by (cases t) (auto simp: to_bytes_def Let_def)
  qed simp
  from this [of "length ls" 0] show ?thesis by (simp add: join_lines_def)
qed

lemma joined_of_records:
  "map as_bytes ls = map rl_content rs \<Longrightarrow> list_all (\<lambda>r. rl_terminator r = t) (butlast rs) \<Longrightarrow>
     (rs \<noteq> [] \<Longrightarrow> rl_terminator (last rs) = (if trailing then t else NoTerm)) \<Longrightarrow> joined_records t trailing ls = rs"
proof (induction ls arbitrary: rs)
  case (Cons l ls)
  then obtain r rs' where rs: "rs = r # rs'" "as_bytes l = rl_content r" "map as_bytes ls = map rl_content rs'" by (cases rs) auto
  have "ls = [] \<longleftrightarrow> rs' = []" using rs(3) by (metis map_is_Nil_conv)
  then show ?case using Cons.IH [OF rs(3)] Cons.prems(2,3) rs by (cases r) (auto split: if_splits)
qed simp


lemma policy_uniform:
  assumes "list_all (\<lambda>r. rl_terminator r = t \<or> rl_terminator r = NoTerm) rs" "t \<noteq> NoTerm" "wf_records rs" "length ns = length rs"
  shows "list_all (\<lambda>r. rl_terminator r = fst (terminator_policy (zip ns rs))) (butlast rs)"
    and "rs \<noteq> [] \<Longrightarrow> rl_terminator (last rs) = (if snd (terminator_policy (zip ns rs)) then fst (terminator_policy (zip ns rs)) else NoTerm)"
    and "fst (terminator_policy (zip ns rs)) \<noteq> NoTerm"
proof -
  have count: "length (filter (\<lambda>(_, r). rl_terminator r = x) (zip ns rs)) = length (filter (\<lambda>r. rl_terminator r = x) rs)" for x
    using assms(4) by (induction ns rs rule: list_induct2) auto
  have default: "fst (terminator_policy (zip ns rs)) = t" if "\<exists>r \<in> set rs. rl_terminator r = t"
  proof -
    have "filter (\<lambda>r. rl_terminator r = (if t = Lf then CrLf else Lf)) rs = []" using assms(1,2) by (auto simp: filter_empty_conv list_all_iff)
    moreover have "filter (\<lambda>r. rl_terminator r = t) rs \<noteq> []" using that by (auto simp: filter_empty_conv)
    ultimately show ?thesis using assms(2) by (cases t) (auto simp: terminator_policy_def Let_def count)
  qed
  have last: "snd (terminator_policy (zip ns rs)) \<longleftrightarrow> rl_terminator (last rs) \<noteq> NoTerm" if "rs \<noteq> []"
    using that assms(4) last_zip [of ns rs] by (auto simp: terminator_policy_def Let_def zip_eq_Nil_iff)
  show "list_all (\<lambda>r. rl_terminator r = fst (terminator_policy (zip ns rs))) (butlast rs)"
  proof -
    have "rl_terminator r = t" if "r \<in> set (butlast rs)" for r
      using assms(1,3) that by (auto simp: list_all_iff wf_records_def dest: in_set_butlastD)
    then show ?thesis using default by (auto simp: list_all_iff dest: in_set_butlastD)
  qed
  show "rl_terminator (last rs) = (if snd (terminator_policy (zip ns rs)) then fst (terminator_policy (zip ns rs)) else NoTerm)" if "rs \<noteq> []"
    using default last [OF that] assms(1) last_in_set [OF that] by (auto simp: list_all_iff)
  show "fst (terminator_policy (zip ns rs)) \<noteq> NoTerm" by (simp add: terminator_policy_def Let_def)
qed

text \<open>C34. Rows that no operation touches are written back byte for byte: the rows of a file, joined under the terminator policy
  read off its records, are the bytes of the file, for every UTF-8 file whose terminated rows all end the same way, with or without
  a terminator on its last row.\<close>

theorem join_lines_unedited:
  assumes "baseline_from_bytes bs = Some b" "baseline_lines b = Inr lines"
    and "list_all (\<lambda>r. rl_terminator r = t \<or> rl_terminator r = NoTerm) (line_records bs)" "t \<noteq> NoTerm"
  shows "join_lines lines (fst (terminator_policy (records (bl_snapshot b)))) (snd (terminator_policy (records (bl_snapshot b)))) = bs"
proof -
  let ?rs = "line_records bs" and ?recs = "zip [1..<Suc (length (line_records bs))] (line_records bs)"
  have len: "length [1..<Suc (length ?rs)] = length ?rs" by (simp del: upt_Suc)
  note policy = policy_uniform [OF assms(3,4) line_records_wf len]
  have "joined_records (fst (terminator_policy ?recs)) (snd (terminator_policy ?recs)) lines = ?rs"
    by (rule joined_of_records [OF baseline_lines_bytes [OF assms(1,2)] policy(1,2)])
  then show ?thesis using policy(3) by (simp add: join_lines_joined line_records_bytes baseline_rows(1) [OF assms(1)] del: upt_Suc)
qed

theorem join_lines_unedited_witness:
  "\<exists>b. baseline_from_bytes [97, 13, 10, 13, 10, 98] = Some b
     \<and> join_lines [lit ''a'', [], lit ''b''] (fst (terminator_policy (records (bl_snapshot b)))) (snd (terminator_policy (records (bl_snapshot b))))
         = [97, 13, 10, 13, 10, 98]"
proof -
  have l: "line_records [97, 13, 10, 13, 10, 98] =
    [\<lparr>rl_content = [97], rl_terminator = CrLf\<rparr>, \<lparr>rl_content = [], rl_terminator = CrLf\<rparr>, \<lparr>rl_content = [98], rl_terminator = NoTerm\<rparr>]"
    by code_simp
  obtain b where b: "baseline_from_bytes [97, 13, 10, 13, 10, 98] = Some b" by (rule baseline_from_bytes_total)
  have u: "lit ''a'' = [97]" "lit ''b'' = [98]" by code_simp+
  have "baseline_lines b = Inr [lit ''a'', [], lit ''b'']"
    by (simp add: baseline_lines_def baseline_rows [OF b] l upt_rec line_content_utf8_def u and_then_def)
  from join_lines_unedited [OF b this, of CrLf] b show ?thesis by (auto simp: l)
qed



section \<open>Sections on given files\<close>

text \<open>A section reads of its baseline only the rows, the records and the bytes.\<close>

lemma apply_section_ops_cong:
  "baseline_lines b = baseline_lines b' \<Longrightarrow> records (bl_snapshot b) = records (bl_snapshot b') \<Longrightarrow> bl_bytes b = bl_bytes b' \<Longrightarrow>
     apply_section_ops req can b ops resolved regs = apply_section_ops req can b' ops resolved regs"
  by (simp add: apply_section_ops_def)

lemma map_sum_Inr: "map_sum f g r = Inr y \<longleftrightarrow> (\<exists>x. r = Inr x \<and> y = g x)"
  by (cases r) auto

text \<open>The baseline of a file, without its tag.\<close>

definition rows_baseline :: "byte list \<Rightarrow> baseline" where
  "rows_baseline bs = \<lparr>bl_bytes = bs, bl_snapshot = (sample_snapshot 97)\<lparr>
     records := zip [1..<Suc (length (line_records bs))] (line_records bs), total_lines := length (line_records bs),
     coverage := (coverage (sample_snapshot 97))\<lparr>sc_seen_lines := [1..<Suc (length (line_records bs))]\<rparr>\<rparr>\<rparr>"

lemma zip_upt_get: "n \<in> {i..<i + length rs} \<Longrightarrow> bt_get (zip [i..<i + length rs] rs) n = Some (rs ! (n - i))"
proof (induction rs arbitrary: i)
  case (Cons r rs)
  then show ?case using Cons.IH [of "i + 1"] upt_step [of i "length rs"]
    by (cases "n = i") (auto simp: bt_get_def nth_Cons' simp del: upt_Suc)
qed simp

lemma lines_from_cong: "\<forall>n \<in> set ns. baseline_raw_record b n = baseline_raw_record b' n \<Longrightarrow> lines_from b ns = lines_from b' ns"
  by (induction ns) simp_all

lemma apply_section_ops_rows:
  assumes "baseline_from_bytes bs = Some b"
  shows "apply_section_ops req can b ops resolved regs = apply_section_ops req can (rows_baseline bs) ops resolved regs"
proof (rule apply_section_ops_cong)
  have "baseline_raw_record (rows_baseline bs) n = baseline_raw_record b n" if "n \<in> set [1..<Suc (length (line_records bs))]" for n
    using that zip_upt_get [of n 1 "line_records bs"]
    by (simp add: baseline_rows(4) [OF assms] rows_baseline_def baseline_raw_record_def raw_record_def del: upt_Suc)
  then show "baseline_lines b = baseline_lines (rows_baseline bs)"
    by (simp add: baseline_lines_def baseline_rows(2) [OF assms] rows_baseline_def lines_from_cong del: upt_Suc)
qed (simp_all add: baseline_rows [OF assms] rows_baseline_def)



section \<open>One file per path\<close>

text \<open>C4. A plan has one file for each path of the patch, in the order in which the sections name them; every address
  it was made from matched the baseline of its section row by row; and each file's baseline bytes, against which the file is
  checked again before it is written, are those of every section of its path.\<close>

theorem plan_apply_one_file_per_path:
  assumes "plan_apply sections registers = Some (Inr plan)"
  shows "map pf_canonical_path (ap_files plan) = in_first_order (map in_canonical_path sections)
    \<and> distinct (map pf_canonical_path (ap_files plan))
    \<and> (\<forall>i \<in> set sections. \<forall>(oi, a) \<in> set (in_resolved i). verify_exact (in_snapshot i) (in_baseline i) a = Exact)
    \<and> (\<forall>i \<in> set sections. \<forall>file \<in> set (ap_files plan). pf_canonical_path file = in_canonical_path i \<longrightarrow>
           pf_baseline_bytes file = bl_bytes (in_baseline i))"
proof -
  obtain counts slots m where c: "verify_plan_sections [] [] sections = Inr counts" "finish_slots slots = Inr (ap_files plan)"
    "slots_for sections slots m" by (rule plan_apply_cases [OF assms])
  note files = finish_slots_result [OF c(2)]
  have inv: "bt_inv ([] :: (rstr, 'a) btree_map)" by (simp add: bt_inv_def)
  note v = verify_plan_sections_spec(2,3) [OF c(1) inv inv]
  have paths: "map pf_canonical_path (ap_files plan) = in_first_order (map in_canonical_path sections)"
    using files c(3) by (simp add: slots_for_def)
  moreover have "distinct (map pf_canonical_path (ap_files plan))" unfolding paths by (rule distinct_in_first_order)
  moreover have "\<forall>i \<in> set sections. \<forall>(oi, a) \<in> set (in_resolved i). verify_exact (in_snapshot i) (in_baseline i) a = Exact"
    using v(1) by (auto simp: verify_section_against_pre_request_baseline_def dest: verify_operations_exact)
  moreover have "\<forall>i \<in> set sections. \<forall>file \<in> set (ap_files plan). pf_canonical_path file = in_canonical_path i \<longrightarrow>
           pf_baseline_bytes file = bl_bytes (in_baseline i)"
  proof (intro ballI impI)
    fix i f assume i: "i \<in> set sections" "f \<in> set (ap_files plan)" "pf_canonical_path f = in_canonical_path i"
    then obtain k where k: "k < length (ap_files plan)" "f = ap_files plan ! k" by (auto simp: in_set_conv_nth)
    have len: "length slots = length (ap_files plan)" using files by (metis length_map)
    then have "slot_path (slots ! k) = pf_canonical_path f" "slot_bytes (slots ! k) = pf_baseline_bytes f" "slots ! k \<in> set slots"
      using files k by (metis nth_map, metis nth_map, simp)
    then obtain j where "j \<in> set sections" "in_canonical_path j = in_canonical_path i" "bl_bytes (in_baseline j) = pf_baseline_bytes f"
      using c(3) i(3) by (force simp: slots_for_def)
    then show "pf_baseline_bytes f = bl_bytes (in_baseline i)" using v(2) i(1) by metis
  qed
  ultimately show ?thesis by blast
qed

theorem plan_apply_one_file_per_path_witness:
  "\<exists>plan. plan_apply
     [\<lparr>in_canonical_path = lit ''f'', in_requested_path = lit ''f'', in_baseline = rows_baseline [97, 10, 98, 10],
       in_snapshot = bl_snapshot (rows_baseline [97, 10, 98, 10]),
       in_operations = [Put (Line (Absolute 1)) (Text [lit ''x'']) 1], in_resolved = [(0, AtSpan \<lparr>sp_start = 1, sp_end = 1\<rparr>)]\<rparr>,
      \<lparr>in_canonical_path = lit ''f'', in_requested_path = lit ''f'', in_baseline = rows_baseline [97, 10, 98, 10],
       in_snapshot = bl_snapshot (rows_baseline [97, 10, 98, 10]),
       in_operations = [Cut (Line (Absolute 2)) None 1], in_resolved = [(0, AtSpan \<lparr>sp_start = 2, sp_end = 2\<rparr>)]\<rparr>] register_store_new
       = Some (Inr plan)
     \<and> map pf_canonical_path (ap_files plan) = [lit ''f''] \<and> map pf_final_bytes (ap_files plan) = [[120, 10]]"
proof -
  let ?sections = "[\<lparr>in_canonical_path = lit ''f'', in_requested_path = lit ''f'', in_baseline = rows_baseline [97, 10, 98, 10],
       in_snapshot = bl_snapshot (rows_baseline [97, 10, 98, 10]),
       in_operations = [Put (Line (Absolute 1)) (Text [lit ''x'']) 1], in_resolved = [(0, AtSpan \<lparr>sp_start = 1, sp_end = 1\<rparr>)]\<rparr>,
      \<lparr>in_canonical_path = lit ''f'', in_requested_path = lit ''f'', in_baseline = rows_baseline [97, 10, 98, 10],
       in_snapshot = bl_snapshot (rows_baseline [97, 10, 98, 10]),
       in_operations = [Cut (Line (Absolute 2)) None 1], in_resolved = [(0, AtSpan \<lparr>sp_start = 2, sp_end = 2\<rparr>)]\<rparr>]"
  have "map_option (map_sum id (\<lambda>plan. map pf_final_bytes (ap_files plan))) (plan_apply ?sections register_store_new) = Some (Inr [[120, 10]])"
    by code_simp
  then obtain plan where p: "plan_apply ?sections register_store_new = Some (Inr plan)" "map pf_final_bytes (ap_files plan) = [[120, 10]]"
    by (auto simp: map_sum_Inr)
  moreover have "in_first_order (map in_canonical_path ?sections) = [lit ''f'']" by code_simp
  ultimately show ?thesis using plan_apply_one_file_per_path [OF p(1)] by auto
qed

end
