(* ===== verification/Hashline_Read.thy ===== *)
theory Hashline_Read
  imports Hashline_Syntax
begin

text \<open>Reads and edit responses of \<^verbatim>\<open>hashline/snapshot/mod.rs\<close>: read selections, the tagged and tagless renderings with their
  output budget, the capture of a read with its refusals, and the snapshot that is published after an edit. Whether bytes are binary
  is decided by the crate \<^verbatim>\<open>content_inspector\<close>, a parameter; what the file system answers is an argument.\<close>

unbundle bit_operations_syntax

section \<open>Selections\<close>

definition MAX_RENDER_BYTES :: nat where "MAX_RENDER_BYTES = 50 * 1024"
definition MAX_RENDER_LINE_LENGTH :: nat where "MAX_RENDER_LINE_LENGTH = 2000"

datatype read_selection = SelectWholeFile | SelectRange nat nat | SelectLines "nat list" | SelectHead nat | SelectTail nat

text \<open>\<^verbatim>\<open>ScanRequest::new\<close> has no provenance.\<close>

definition request_new :: "coverage_input \<Rightarrow> scan_request" where
  "request_new c = \<lparr>rq_coverage = c, rq_provenance = default_provenance\<rparr>"

fun selection_scan_request :: "read_selection \<Rightarrow> scan_request" where
  "selection_scan_request SelectWholeFile = request_whole_file"
| "selection_scan_request (SelectTail _) = request_whole_file"
| "selection_scan_request (SelectRange first to) = request_new (coverage_range first to)"
| "selection_scan_request (SelectLines lines) = request_new (coverage_lines lines)"
| "selection_scan_request (SelectHead lines) = request_new (coverage_range 1 lines)"

fun selected_lines :: "read_selection \<Rightarrow> nat \<Rightarrow> nat list" where
  "selected_lines SelectWholeFile total_count = [1..<Suc total_count]"
| "selected_lines (SelectRange first to) total_count = (if first > to \<or> first = 0 then [] else [first..<Suc (min to total_count)])"
| "selected_lines (SelectLines lines) total_count = collect_set (filter (\<lambda>line. line > 0 \<and> line \<le> total_count) lines)"
| "selected_lines (SelectHead lines) total_count = [1..<Suc (min lines total_count)]"
| "selected_lines (SelectTail lines) total_count =
     (let first = saturating_add (total_count - lines) 1 in if lines = 0 \<or> first > total_count then [] else [first..<Suc total_count])"

fun is_explicitly_empty :: "read_selection \<Rightarrow> bool" where
  "is_explicitly_empty (SelectRange first to) \<longleftrightarrow> first = 0 \<or> first > to"
| "is_explicitly_empty (SelectHead lines) \<longleftrightarrow> lines = 0"
| "is_explicitly_empty (SelectTail lines) \<longleftrightarrow> lines = 0"
| "is_explicitly_empty (SelectLines lines) \<longleftrightarrow> lines = []"
| "is_explicitly_empty SelectWholeFile \<longleftrightarrow> False"

datatype bash_read_kind = Cat | Head nat | Tail nat

fun bash_selection :: "bash_read_kind \<Rightarrow> read_selection" where
  "bash_selection Cat = SelectWholeFile"
| "bash_selection (Head lines) = SelectHead lines"
| "bash_selection (Tail lines) = SelectTail lines"

section \<open>Renderings\<close>

record tagged_rendering =
  rd_text :: rstr
  rd_requested_path :: rstr
  rd_tag :: rstr
  rd_seen_lines :: "nat list"
  rd_rendered_lines :: "nat list"
  rd_elided_range :: "line_range option"
  rd_display_truncated_lines :: "nat list"

record tagless_rendering =
  tl_text :: rstr
  tl_requested_path :: rstr
  tl_rendered_lines :: "nat list"
  tl_elided_range :: "line_range option"

definition is_empty_body :: "tagged_rendering \<Rightarrow> bool" where
  "is_empty_body r \<longleftrightarrow> rd_rendered_lines r = []"

datatype untaggable_reason =
  NotRegularFile | ReadOnly | VirtualPath | Binary | InvalidUtf8 | OversizeRead nat nat | EmptyRange | BeyondEof | ReadIo rstr

fun reason_display :: "untaggable_reason \<Rightarrow> rstr" where
  "reason_display NotRegularFile = lit ''path is not a regular file''"
| "reason_display ReadOnly = lit ''path is not write-eligible''"
| "reason_display VirtualPath = lit ''virtual paths cannot carry snapshots''"
| "reason_display Binary = lit ''binary files cannot carry snapshots''"
| "reason_display InvalidUtf8 = lit ''file is not valid UTF-8''"
| "reason_display (OversizeRead bytes limit) =
     lit ''file is too large for a snapshot ('' @ show_nat bytes @ lit '' > '' @ show_nat limit @ lit '' bytes)''"
| "reason_display EmptyRange = lit ''requested range is empty''"
| "reason_display BeyondEof = lit ''requested range is beyond EOF''"
| "reason_display (ReadIo reason) = lit ''read failed: '' @ reason"

datatype read_publication = Tagged snapshot tagged_rendering | Tagless tagless_rendering untaggable_reason

fun publication_snapshot :: "read_publication \<Rightarrow> snapshot option" where
  "publication_snapshot (Tagged s _) = Some s"
| "publication_snapshot (Tagless _ _) = None"

fun publication_rendering :: "read_publication \<Rightarrow> tagged_rendering option" where
  "publication_rendering (Tagged _ r) = Some r"
| "publication_rendering (Tagless _ _) = None"

fun publication_text :: "read_publication \<Rightarrow> rstr" where
  "publication_text (Tagged _ r) = rd_text r"
| "publication_text (Tagless r _) = tl_text r"

record render_options =
  max_output_bytes :: nat
  max_line_length :: nat
  reserved_bytes :: nat

definition render_options_default :: render_options where
  "render_options_default = \<lparr>max_output_bytes = MAX_RENDER_BYTES, max_line_length = MAX_RENDER_LINE_LENGTH, reserved_bytes = 0\<rparr>"

text \<open>\<^verbatim>\<open>String::from_utf8_lossy\<close>: each maximal prefix of a sequence that cannot be completed becomes one U+FFFD.\<close>

definition second_of_three :: "nat \<Rightarrow> byte \<Rightarrow> nat option" where
  "second_of_three x b = (case cont_bits b of None \<Rightarrow> None
     | Some y \<Rightarrow> if (x = 0xE0 \<and> y < 0x20) \<or> (x = 0xED \<and> y \<ge> 0x20) then None else Some y)"

definition second_of_four :: "nat \<Rightarrow> byte \<Rightarrow> nat option" where
  "second_of_four x b = (case cont_bits b of None \<Rightarrow> None
     | Some y \<Rightarrow> if (x = 0xF0 \<and> y < 0x10) \<or> (x = 0xF4 \<and> y \<ge> 0x10) then None else Some y)"

fun from_utf8_lossy :: "byte list \<Rightarrow> rstr" where
  "from_utf8_lossy [] = []"
| "from_utf8_lossy (a # r) =
     (let x = unat a in
      if x < 128 then x # from_utf8_lossy r
      else if x < 194 then 0xFFFD # from_utf8_lossy r
      else if x < 224 then
        (case r of [] \<Rightarrow> [0xFFFD]
         | b # r' \<Rightarrow> (case cont_bits b of None \<Rightarrow> 0xFFFD # from_utf8_lossy r | Some y \<Rightarrow> ((x - 192) * 64 + y) # from_utf8_lossy r'))
      else if x < 240 then
        (case r of [] \<Rightarrow> [0xFFFD]
         | b # r' \<Rightarrow> (case second_of_three x b of None \<Rightarrow> 0xFFFD # from_utf8_lossy r
             | Some y \<Rightarrow> (case r' of [] \<Rightarrow> [0xFFFD]
                 | c # r'' \<Rightarrow> (case cont_bits c of None \<Rightarrow> 0xFFFD # from_utf8_lossy r'
                     | Some z \<Rightarrow> ((x - 224) * 4096 + y * 64 + z) # from_utf8_lossy r''))))
      else if x < 245 then
        (case r of [] \<Rightarrow> [0xFFFD]
         | b # r' \<Rightarrow> (case second_of_four x b of None \<Rightarrow> 0xFFFD # from_utf8_lossy r
             | Some y \<Rightarrow> (case r' of [] \<Rightarrow> [0xFFFD]
                 | c # r'' \<Rightarrow> (case cont_bits c of None \<Rightarrow> 0xFFFD # from_utf8_lossy r'
                     | Some z \<Rightarrow> (case r'' of [] \<Rightarrow> [0xFFFD]
                         | d # r3 \<Rightarrow> (case cont_bits d of None \<Rightarrow> 0xFFFD # from_utf8_lossy r''
                             | Some w \<Rightarrow> ((x - 240) * 262144 + y * 4096 + z * 64 + w) # from_utf8_lossy r3))))))
      else 0xFFFD # from_utf8_lossy r)"

definition truncate_display_line :: "rstr \<Rightarrow> nat \<Rightarrow> rstr \<times> bool" where
  "truncate_display_line content max_length =
     (if length content \<le> max_length then (content, False)
      else (take max_length content @ lit ''... (truncated)'', True))"

definition elision_notice :: "nat \<Rightarrow> nat \<Rightarrow> nat \<Rightarrow> rstr" where
  "elision_notice limit first to =
     lit ''... (output truncated at '' @ show_nat (limit div 1024)
     @ lit ''KB, use start_line/end_line to read sections; lines '' @ show_nat first @ lit ''-'' @ show_nat to
     @ lit '' are not addressable)'' @ [LF]"

definition read_body_limit :: "render_options \<Rightarrow> nat \<Rightarrow> nat \<Rightarrow> nat" where
  "read_body_limit options header_bytes total_count =
     (if reserved_bytes options = 0 then max_output_bytes options
      else max_output_bytes options
             - (reserved_bytes options + header_bytes + str_len (elision_notice (max_output_bytes options) total_count total_count)))"

text \<open>The loop of both renderings; \<open>row\<close> is the text of a row and whether its display was cut. The records are visited in
  ascending order, so the sets grow at their end.\<close>

record render_state =
  rn_text :: rstr
  rn_body_bytes :: nat
  rn_rendered :: "nat list"
  rn_truncated :: "nat list"
  rn_first_elided :: "nat option"
  rn_last_elided :: "nat option"

definition render_row :: "(nat \<Rightarrow> raw_line_record \<Rightarrow> rstr \<times> bool) \<Rightarrow> nat \<Rightarrow> render_state \<Rightarrow> nat \<times> raw_line_record \<Rightarrow> render_state" where
  "render_row row body_limit st = (\<lambda>(number, r).
     let (line, was_truncated) = row number r in
     if saturating_add (rn_body_bytes st) (str_len line) > body_limit
     then st\<lparr>rn_first_elided := (case rn_first_elided st of None \<Rightarrow> Some number | s \<Rightarrow> s), rn_last_elided := Some number\<rparr>
     else st\<lparr>rn_body_bytes := saturating_add (rn_body_bytes st) (str_len line), rn_text := rn_text st @ line,
             rn_rendered := rn_rendered st @ [number],
             rn_truncated := rn_truncated st @ (if was_truncated then [number] else [])\<rparr>)"

definition render_rows :: "(nat \<Rightarrow> raw_line_record \<Rightarrow> rstr \<times> bool) \<Rightarrow> nat \<Rightarrow> rstr \<Rightarrow> (nat \<times> raw_line_record) list \<Rightarrow> render_state" where
  "render_rows row body_limit header rs =
     foldl (render_row row body_limit)
       \<lparr>rn_text = header, rn_body_bytes = 0, rn_rendered = [], rn_truncated = [], rn_first_elided = None, rn_last_elided = None\<rparr> rs"

definition elided_range_of :: "render_state \<Rightarrow> line_range option" where
  "elided_range_of st = map_option (\<lambda>first.
     \<lparr>lr_start = first, lr_end = (case rn_last_elided st of Some n \<Rightarrow> n | None \<Rightarrow> first)\<rparr>) (rn_first_elided st)"

definition with_notice :: "render_options \<Rightarrow> render_state \<Rightarrow> rstr" where
  "with_notice options st = rn_text st @ (case elided_range_of st of None \<Rightarrow> []
     | Some r \<Rightarrow> elision_notice (max_output_bytes options) (lr_start r) (lr_end r))"

definition tagged_header :: "rstr \<Rightarrow> rstr \<Rightarrow> rstr" where
  "tagged_header requested_path tag = lit ''['' @ requested_path @ lit ''#'' @ to_ascii_uppercase tag @ lit '']'' @ [LF]"

definition tagged_row :: "render_options \<Rightarrow> nat \<Rightarrow> raw_line_record \<Rightarrow> rstr \<times> bool" where
  "tagged_row options number r =
     (let (display, was_truncated) = truncate_display_line (from_utf8_lossy (rl_content r)) (max_line_length options)
      in (show_nat number @ lit '':'' @ display @ [LF], was_truncated))"

definition render_tagged_snapshot_with_options :: "snapshot \<Rightarrow> rstr \<Rightarrow> render_options \<Rightarrow> tagged_rendering" where
  "render_tagged_snapshot_with_options s requested_path options =
     (let header = tagged_header requested_path (sn_tag s);
          body_limit = read_body_limit options (str_len header) (total_lines s);
          st = render_rows (tagged_row options) body_limit header (records s)
      in \<lparr>rd_text = with_notice options st, rd_requested_path = requested_path, rd_tag = to_ascii_uppercase (sn_tag s),
          rd_seen_lines = rn_rendered st, rd_rendered_lines = rn_rendered st, rd_elided_range = elided_range_of st,
          rd_display_truncated_lines = rn_truncated st\<rparr>)"

definition render_tagged_snapshot :: "snapshot \<Rightarrow> rstr \<Rightarrow> tagged_rendering" where
  "render_tagged_snapshot s requested_path = render_tagged_snapshot_with_options s requested_path render_options_default"

definition tagless_row :: "nat \<Rightarrow> raw_line_record \<Rightarrow> rstr \<times> bool" where
  "tagless_row number r = (show_nat number @ lit '': '' @ from_utf8_lossy (rl_content r) @ [LF], False)"

definition render_tagless_snapshot_with_options :: "snapshot \<Rightarrow> rstr \<Rightarrow> render_options \<Rightarrow> tagless_rendering" where
  "render_tagless_snapshot_with_options s requested_path options =
     (let st = render_rows tagless_row (read_body_limit options 0 (total_lines s)) [] (records s)
      in \<lparr>tl_text = with_notice options st, tl_requested_path = requested_path, tl_rendered_lines = rn_rendered st,
          tl_elided_range = elided_range_of st\<rparr>)"

definition render_tagless_snapshot :: "snapshot \<Rightarrow> rstr \<Rightarrow> tagless_rendering" where
  "render_tagless_snapshot s requested_path = render_tagless_snapshot_with_options s requested_path render_options_default"

section \<open>Captures\<close>

text \<open>What \<^verbatim>\<open>fs::Metadata\<close> reports on Unix, as far as reads look at it.\<close>

record file_metadata =
  fm_is_file :: bool
  fm_len :: nat
  fm_dev :: nat
  fm_ino :: nat
  fm_mode :: "32 word"
  fm_modified :: "int option"
  fm_readonly :: bool

record read_source =
  src_bytes :: "byte list"
  src_metadata :: file_metadata

definition has_complete_bytes :: "read_source \<Rightarrow> bool" where
  "has_complete_bytes src \<longleftrightarrow> fm_is_file (src_metadata src) \<and> fm_len (src_metadata src) \<le> MAX_FILE_READ_BYTES
     \<and> length (src_bytes src) = fm_len (src_metadata src)"

definition same_read_identity :: "file_metadata \<Rightarrow> file_metadata \<Rightarrow> bool" where
  "same_read_identity before after \<longleftrightarrow>
     (if fm_dev before \<noteq> fm_dev after \<or> fm_ino before \<noteq> fm_ino after \<or> fm_mode before \<noteq> fm_mode after then False
      else fm_len before = fm_len after \<and> fm_modified before = fm_modified after \<and> fm_readonly before = fm_readonly after)"

text \<open>What the calls of one read answer, in the order in which they are made: opening the file, the metadata of the path when opening
  fails, the metadata of the open file, its bytes, and its metadata after the read.\<close>

record read_io =
  io_open :: "rstr + unit"
  io_path_metadata :: "rstr + file_metadata"
  io_metadata :: "rstr + file_metadata"
  io_read_to_end :: "rstr + byte list"
  io_after :: "rstr + file_metadata"

definition read_source_unbounded :: "read_io \<Rightarrow> rstr + read_source" where
  "read_source_unbounded io =
     (case io_open io of
        Inl error \<Rightarrow>
          and_then (io_path_metadata io) (\<lambda>md.
            if \<not> fm_is_file md then Inr \<lparr>src_bytes = [], src_metadata = md\<rparr> else Inl error)
      | Inr _ \<Rightarrow>
          and_then (io_metadata io) (\<lambda>md.
            if fm_is_file md \<and> fm_len md \<le> MAX_FILE_READ_BYTES then
              and_then (io_read_to_end io) (\<lambda>bytes.
                and_then (io_after io) (\<lambda>after.
                  if \<not> same_read_identity md after \<or> length bytes \<noteq> fm_len md
                  then Inl (lit ''file changed during hashline read'')
                  else Inr \<lparr>src_bytes = bytes, src_metadata = md\<rparr>))
            else Inr \<lparr>src_bytes = [], src_metadata = md\<rparr>))"

definition is_binary :: "(byte list \<Rightarrow> bool) \<Rightarrow> byte list \<Rightarrow> bool" where
  "is_binary inspect bytes \<longleftrightarrow> bytes \<noteq> [] \<and> inspect bytes"

definition is_write_eligible :: "file_metadata \<Rightarrow> bool" where
  "is_write_eligible md \<longleftrightarrow> (if fm_readonly md then False else fm_mode md AND 0x92 \<noteq> 0)"

definition snapshot_for_lines :: "snapshot \<Rightarrow> nat list \<Rightarrow> snapshot" where
  "snapshot_for_lines s lines =
     s\<lparr>records := filter (\<lambda>(line, _). line \<in> set lines) (records s),
       sn_retained_lines := filter (\<lambda>(line, _). line \<in> set lines) (sn_retained_lines s),
       coverage := (coverage s)\<lparr>sc_retained_lines := lines, sc_seen_lines := lines\<rparr>,
       boundary := (boundary s)\<lparr>first_seen := (case lines of [] \<Rightarrow> None | k # _ \<Rightarrow> Some k),
         last_seen := (case rev lines of [] \<Rightarrow> None | k # _ \<Rightarrow> Some k)\<rparr>\<rparr>"

definition untagged :: "rstr \<Rightarrow> untaggable_reason \<Rightarrow> read_publication" where
  "untagged requested_path reason =
     Tagless \<lparr>tl_text = [], tl_requested_path = requested_path, tl_rendered_lines = [], tl_elided_range = None\<rparr> reason"

text \<open>The answer with the store afterwards; None stands for a failed \<^verbatim>\<open>expect\<close>.\<close>

definition capture_taggable_source_with_options ::
    "store_env \<Rightarrow> (byte list \<Rightarrow> bool) \<Rightarrow> snapshot_store \<Rightarrow> rstr \<Rightarrow> rstr \<Rightarrow> read_selection \<Rightarrow> render_options \<Rightarrow> read_source
      \<Rightarrow> (read_publication \<times> snapshot_store) option" where
  "capture_taggable_source_with_options env inspect st canonical_path requested_path selection options src =
     (let md = src_metadata src; bytes = src_bytes src in
      if \<not> fm_is_file md then Some (untagged requested_path NotRegularFile, st)
      else if fm_len md > MAX_FILE_READ_BYTES
      then Some (untagged requested_path (OversizeRead (fm_len md) MAX_FILE_READ_BYTES), st)
      else if is_binary inspect bytes then Some (untagged requested_path Binary, st)
      else if from_utf8 bytes = None then Some (untagged requested_path InvalidUtf8, st)
      else
        (case Option.bind (scan_bytes_with_request bytes (selection_scan_request selection)) sr_snapshot of
           None \<Rightarrow> None
         | Some source_snapshot \<Rightarrow>
             (let selected = selected_lines selection (total_lines source_snapshot) in
              if \<not> is_write_eligible md
              then Some (Tagless (render_tagless_snapshot_with_options (snapshot_for_lines source_snapshot selected) requested_path options)
                     ReadOnly, st)
              else if is_explicitly_empty selection \<or> (selected = [] \<and> selection \<noteq> SelectWholeFile)
              then Some (Tagless (render_tagless_snapshot_with_options (snapshot_for_lines source_snapshot selected) requested_path options)
                     (if bytes = [] then EmptyRange else BeyondEof), st)
              else
                (let selected_snapshot = snapshot_for_lines source_snapshot selected;
                     candidate = render_tagged_snapshot_with_options selected_snapshot requested_path options;
                     published_snapshot = snapshot_for_lines selected_snapshot (rd_rendered_lines candidate)
                 in case publish env st canonical_path published_snapshot of
                      None \<Rightarrow> None
                    | Some (st, outcome) \<Rightarrow>
                        (case po_status outcome of
                           Oversize retained limit \<Rightarrow>
                             Some (Tagless (render_tagless_snapshot_with_options selected_snapshot requested_path options)
                               (OversizeRead retained limit), st)
                         | Stored \<Rightarrow>
                             (case po_snapshot outcome of
                                None \<Rightarrow> None
                              | Some published_snapshot \<Rightarrow> Some (Tagged published_snapshot candidate, st)))))))"

definition capture_taggable_read_with_options ::
    "store_env \<Rightarrow> (byte list \<Rightarrow> bool) \<Rightarrow> snapshot_store \<Rightarrow> rstr \<Rightarrow> rstr \<Rightarrow> read_selection \<Rightarrow> render_options \<Rightarrow> rstr + read_source
      \<Rightarrow> ((rstr + read_publication) \<times> snapshot_store) option" where
  "capture_taggable_read_with_options env inspect st canonical_path requested_path selection options read =
     (case read of
        Inl error \<Rightarrow> Some (Inl error, st)
      | Inr src \<Rightarrow> map_option (\<lambda>(p, st). (Inr p, st))
          (capture_taggable_source_with_options env inspect st canonical_path requested_path selection options src))"

definition capture_taggable_read ::
    "store_env \<Rightarrow> (byte list \<Rightarrow> bool) \<Rightarrow> snapshot_store \<Rightarrow> rstr \<Rightarrow> rstr \<Rightarrow> read_selection \<Rightarrow> rstr + read_source
      \<Rightarrow> ((rstr + read_publication) \<times> snapshot_store) option" where
  "capture_taggable_read env inspect st canonical_path requested_path selection read =
     capture_taggable_read_with_options env inspect st canonical_path requested_path selection render_options_default read"

definition capture_tagless_read_with_options ::
    "rstr \<Rightarrow> read_selection \<Rightarrow> render_options \<Rightarrow> rstr + byte list \<Rightarrow> (rstr + read_publication) option" where
  "capture_tagless_read_with_options requested_path selection options read =
     (case read of
        Inl error \<Rightarrow> Some (Inl error)
      | Inr bytes \<Rightarrow>
          map_option (\<lambda>s. Inr (Tagless
              (render_tagless_snapshot_with_options (snapshot_for_lines s (selected_lines selection (total_lines s))) requested_path options)
              VirtualPath))
            (Option.bind (scan_bytes_with_request bytes (selection_scan_request selection)) sr_snapshot))"

definition capture_tagless_read :: "rstr \<Rightarrow> read_selection \<Rightarrow> rstr + byte list \<Rightarrow> (rstr + read_publication) option" where
  "capture_tagless_read requested_path selection read =
     capture_tagless_read_with_options requested_path selection render_options_default read"

definition capture_bash_rewrite_read_with_options ::
    "store_env \<Rightarrow> (byte list \<Rightarrow> bool) \<Rightarrow> snapshot_store \<Rightarrow> rstr \<Rightarrow> rstr \<Rightarrow> bash_read_kind \<Rightarrow> bool \<Rightarrow> bool \<Rightarrow> bool \<Rightarrow> render_options
      \<Rightarrow> rstr + read_source \<Rightarrow> rstr + byte list \<Rightarrow> ((rstr + read_publication) \<times> snapshot_store) option" where
  "capture_bash_rewrite_read_with_options env inspect st canonical_path requested_path kind experimental_bash_rewrite funnel_accepted
       effective_hashline options read plain_read =
     (if \<not> (experimental_bash_rewrite \<and> funnel_accepted \<and> effective_hashline)
      then map_option (\<lambda>r. (r, st)) (capture_tagless_read_with_options requested_path (bash_selection kind) options plain_read)
      else capture_taggable_read_with_options env inspect st canonical_path requested_path (bash_selection kind) options read)"

definition capture_bash_rewrite_read ::
    "store_env \<Rightarrow> (byte list \<Rightarrow> bool) \<Rightarrow> snapshot_store \<Rightarrow> rstr \<Rightarrow> rstr \<Rightarrow> bash_read_kind \<Rightarrow> bool \<Rightarrow> bool \<Rightarrow> bool
      \<Rightarrow> rstr + read_source \<Rightarrow> rstr + byte list \<Rightarrow> ((rstr + read_publication) \<times> snapshot_store) option" where
  "capture_bash_rewrite_read env inspect st canonical_path requested_path kind experimental_bash_rewrite funnel_accepted effective_hashline
       read plain_read =
     capture_bash_rewrite_read_with_options env inspect st canonical_path requested_path kind experimental_bash_rewrite funnel_accepted
       effective_hashline render_options_default read plain_read"

section \<open>Edit responses\<close>

record edit_response_snapshot =
  es_snapshot :: "snapshot option"
  es_rendering :: "tagged_rendering option"
  es_requested_path :: rstr
  es_notice :: "rstr option"

definition edit_response_unavailable :: "rstr \<Rightarrow> rstr \<Rightarrow> edit_response_snapshot" where
  "edit_response_unavailable requested_path reason =
     \<lparr>es_snapshot = None, es_rendering = None, es_requested_path = requested_path,
      es_notice = Some (lit ''No hashline tag is available for the final file; re-read before chaining ('' @ reason @ lit '').'')\<rparr>"

definition edit_response_tag :: "edit_response_snapshot \<Rightarrow> rstr option" where
  "edit_response_tag es = map_option rd_tag (es_rendering es)"

definition output_lines_of :: "nat \<Rightarrow> line_range \<Rightarrow> nat list" where
  "output_lines_of total_count r =
     (let first = max (lr_start r) 1; to = min (lr_end r) total_count
      in (if first \<le> to then [first..<Suc to] else [])
         @ (if first > 1 then [first - 1] else [])
         @ (if to < total_count then [saturating_add to 1] else []))"

definition affected_output_lines :: "snapshot \<Rightarrow> affected_region \<Rightarrow> nat list" where
  "affected_output_lines s affected =
     (let total_count = total_lines s in
      if total_count = 0 then []
      else filter (\<lambda>line. bt_get (records s) line \<noteq> None)
             (collect_set (concat (map (output_lines_of total_count) (coalesce_ranges (ranges affected))))))"

definition publish_edit_response_snapshot ::
    "store_env \<Rightarrow> (byte list \<Rightarrow> bool) \<Rightarrow> snapshot_store \<Rightarrow> rstr \<Rightarrow> rstr \<Rightarrow> byte list \<Rightarrow> affected_region
      \<Rightarrow> (edit_response_snapshot \<times> snapshot_store) option" where
  "publish_edit_response_snapshot env inspect st canonical_path requested_path final_bytes affected =
     (if length final_bytes > MAX_FILE_READ_BYTES \<or> is_binary inspect final_bytes
      then Some (edit_response_unavailable requested_path (lit ''final bytes are not a readable, taggable text file''), st)
      else if from_utf8 final_bytes = None
      then Some (edit_response_unavailable requested_path (lit ''final bytes are not valid UTF-8''), st)
      else
        (case Option.bind (scan_bytes_with_request final_bytes request_whole_file) sr_snapshot of
           None \<Rightarrow> None
         | Some whole \<Rightarrow>
             (case publish env st canonical_path (snapshot_for_lines whole (affected_output_lines whole affected)) of
                None \<Rightarrow> None
              | Some (st, outcome) \<Rightarrow>
                  (case po_status outcome of
                     Oversize _ _ \<Rightarrow>
                       Some (edit_response_unavailable requested_path (lit ''affected snapshot exceeds the session residency budget''), st)
                   | Stored \<Rightarrow>
                       (case po_snapshot outcome of
                          None \<Rightarrow> None
                        | Some s \<Rightarrow>
                            Some (\<lparr>es_snapshot = Some s, es_rendering = Some (render_tagged_snapshot s requested_path),
                                   es_requested_path = requested_path, es_notice = None\<rparr>, st))))))"

definition invalidate_removed_source :: "store_env \<Rightarrow> snapshot_store \<Rightarrow> rstr \<Rightarrow> bool \<times> snapshot_store" where
  "invalidate_removed_source env st source = invalidate_path env st source"

section \<open>What a rendering shows\<close>

text \<open>The rows that fit the budget, and the rows that do not.\<close>

fun kept_of :: "(nat \<Rightarrow> raw_line_record \<Rightarrow> rstr \<times> bool) \<Rightarrow> nat \<Rightarrow> nat \<Rightarrow> (nat \<times> raw_line_record) list \<Rightarrow> (nat \<times> raw_line_record) list" where
  "kept_of row lim b [] = []"
| "kept_of row lim b ((n, r) # rs) =
     (let b' = saturating_add b (str_len (fst (row n r))) in
      if b' > lim then kept_of row lim b rs else (n, r) # kept_of row lim b' rs)"

fun elided_of :: "(nat \<Rightarrow> raw_line_record \<Rightarrow> rstr \<times> bool) \<Rightarrow> nat \<Rightarrow> nat \<Rightarrow> (nat \<times> raw_line_record) list \<Rightarrow> nat list" where
  "elided_of row lim b [] = []"
| "elided_of row lim b ((n, r) # rs) =
     (let b' = saturating_add b (str_len (fst (row n r))) in
      if b' > lim then n # elided_of row lim b rs else elided_of row lim b' rs)"

lemma render_rows_from:
  defines "first \<equiv> \<lambda>old es. case old of Some k \<Rightarrow> Some k | None \<Rightarrow> (case es of [] \<Rightarrow> None | k # _ \<Rightarrow> Some k)"
    and "final \<equiv> \<lambda>old es. case rev es of [] \<Rightarrow> old | k # _ \<Rightarrow> Some k"
  shows "rn_text (foldl (render_row row lim) st rs)
      = rn_text st @ concat (map (\<lambda>(n, r). fst (row n r)) (kept_of row lim (rn_body_bytes st) rs))
    \<and> rn_rendered (foldl (render_row row lim) st rs) = rn_rendered st @ map fst (kept_of row lim (rn_body_bytes st) rs)
    \<and> rn_first_elided (foldl (render_row row lim) st rs) = first (rn_first_elided st) (elided_of row lim (rn_body_bytes st) rs)
    \<and> rn_last_elided (foldl (render_row row lim) st rs) = final (rn_last_elided st) (elided_of row lim (rn_body_bytes st) rs)"
proof (induction rs arbitrary: st)
  case (Cons x rs)
  obtain n r where x: "x = (n, r)" by (cases x)
  show ?case
  proof (cases "saturating_add (rn_body_bytes st) (str_len (fst (row n r))) > lim")
    case True
    then have "render_row row lim st x = st\<lparr>rn_first_elided := (case rn_first_elided st of None \<Rightarrow> Some n | s \<Rightarrow> s), rn_last_elided := Some n\<rparr>"
      by (cases "row n r") (simp add: x render_row_def)
    then show ?thesis
      using Cons [of "render_row row lim st x"] True
      by (auto simp: x Let_def first_def final_def split: option.splits list.splits)
  next
    case False
    then have "rn_text (render_row row lim st x) = rn_text st @ fst (row n r)" "rn_rendered (render_row row lim st x) = rn_rendered st @ [n]"
      "rn_body_bytes (render_row row lim st x) = saturating_add (rn_body_bytes st) (str_len (fst (row n r)))"
      "rn_first_elided (render_row row lim st x) = rn_first_elided st" "rn_last_elided (render_row row lim st x) = rn_last_elided st"
      by (cases "row n r"; simp add: x render_row_def)+
    then show ?thesis using Cons [of "render_row row lim st x"] False by (simp add: x Let_def)
  qed
qed (simp add: first_def final_def split: option.splits)

lemma render_rows_spec:
  "rn_text (render_rows row lim header rs) = header @ concat (map (\<lambda>(n, r). fst (row n r)) (kept_of row lim 0 rs))"
  "rn_rendered (render_rows row lim header rs) = map fst (kept_of row lim 0 rs)"
  "elided_range_of (render_rows row lim header rs)
     = (if elided_of row lim 0 rs = [] then None else Some \<lparr>lr_start = hd (elided_of row lim 0 rs), lr_end = last (elided_of row lim 0 rs)\<rparr>)"
proof -
  note s = render_rows_from [of row lim "\<lparr>rn_text = header, rn_body_bytes = 0, rn_rendered = [], rn_truncated = [],
    rn_first_elided = None, rn_last_elided = None\<rparr>" rs]
  show "rn_text (render_rows row lim header rs) = header @ concat (map (\<lambda>(n, r). fst (row n r)) (kept_of row lim 0 rs))"
    "rn_rendered (render_rows row lim header rs) = map fst (kept_of row lim 0 rs)"
    using s by (simp_all add: render_rows_def)
  have ends: "es \<noteq> [] \<Longrightarrow> (case es of [] \<Rightarrow> None | k # _ \<Rightarrow> Some k) = Some (hd es)"
    "es \<noteq> [] \<Longrightarrow> (case rev es of [] \<Rightarrow> old | k # _ \<Rightarrow> Some k) = Some (last es)" for es :: "nat list" and old
    by (cases es, simp_all) (cases es rule: rev_cases, simp_all)
  show "elided_range_of (render_rows row lim header rs)
     = (if elided_of row lim 0 rs = [] then None else Some \<lparr>lr_start = hd (elided_of row lim 0 rs), lr_end = last (elided_of row lim 0 rs)\<rparr>)"
    using s ends [of "elided_of row lim 0 rs"]
    by (cases "elided_of row lim 0 rs = []") (simp_all add: render_rows_def elided_range_of_def)
qed

lemma kept_of_subset: "set (kept_of row lim b rs) \<subseteq> set rs"
  by (induction row lim b rs rule: kept_of.induct) (auto simp: Let_def split: if_splits)

lemma kept_or_elided: "set (map fst rs) = set (map fst (kept_of row lim b rs)) \<union> set (elided_of row lim b rs)"
  by (induction row lim b rs rule: kept_of.induct) (auto simp: Let_def)

lemma elided_of_subset: "k \<in> set (elided_of row lim b rs) \<Longrightarrow> \<exists>r. (k, r) \<in> set rs"
  by (induction row lim b rs rule: elided_of.induct) (auto simp: Let_def split: if_splits)

lemma kept_of_sorted: "bt_inv rs \<Longrightarrow> bt_inv (kept_of row lim b rs)"
proof (induction row lim b rs rule: kept_of.induct)
  case (2 row lim b n r rs)
  have "bt_inv rs" using 2(3) by (simp add: bt_inv_def)
  moreover have "\<forall>k \<in> set (map fst (kept_of row lim c rs)). n < k" for c
    using 2(3) kept_of_subset [of row lim c rs] by (fastforce simp: bt_inv_def)
  ultimately show ?case using 2(1,2) by (auto simp: Let_def bt_inv_def)
qed simp

lemma elided_of_sorted: "bt_inv rs \<Longrightarrow> sorted_wrt (<) (elided_of row lim b rs)"
proof (induction row lim b rs rule: elided_of.induct)
  case (2 row lim b n r rs)
  have "bt_inv rs" using 2(3) by (simp add: bt_inv_def)
  moreover have "\<forall>k \<in> set (elided_of row lim c rs). n < k" for c
    using 2(3) by (fastforce simp: bt_inv_def dest: elided_of_subset)
  ultimately show ?case using 2(1,2) by (auto simp: Let_def)
qed simp

section \<open>The output budget\<close>

lemma str_len_append [simp]: "str_len (s @ t) = str_len s + str_len t"
  by (simp add: str_len_def)

lemma kept_of_budget:
  "lim < usize_max \<Longrightarrow> b \<le> lim \<Longrightarrow> b + str_len (concat (map (\<lambda>(n, r). fst (row n r)) (kept_of row lim b rs))) \<le> lim"
proof (induction row lim b rs rule: kept_of.induct)
  case (2 row lim b n r rs)
  show ?case
  proof (cases "saturating_add b (str_len (fst (row n r))) > lim")
    case False
    then have "saturating_add b (str_len (fst (row n r))) = b + str_len (fst (row n r))"
      using 2(3) by (simp add: saturating_add_def split: if_splits)
    then show ?thesis using 2(2) [OF refl False 2(3)] False by simp
  qed (use 2 in simp)
qed (simp add: str_len_def)

lemma str_len_show_nat: "str_len (show_nat n) = length (show_nat n)"
proof -
  have "utf8_len c = 1" if "is_ascii_digit c" for c using that by (simp add: is_ascii_digit_def utf8_len_def)
  then have "list_all is_ascii_digit ds \<Longrightarrow> str_len ds = length ds" for ds by (induction ds) (simp_all add: str_len_def)
  then show ?thesis using show_nat_digits by blast
qed

lemma length_show_nat_mono: "m \<le> n \<Longrightarrow> length (show_nat m) \<le> length (show_nat n)"
proof (induction n arbitrary: m rule: less_induct)
  case (less n)
  show ?case
  proof (cases "m < 10")
    case True
    then have "length (show_nat m) = 1" by (simp add: show_nat.simps [of m])
    then show ?thesis using show_nat_digits [of n] by (cases "show_nat n") auto
  next
    case False
    then have "length (show_nat (m div 10)) \<le> length (show_nat (n div 10))"
      using less.prems by (intro less.IH) (auto intro: div_le_mono)
    then show ?thesis using False less.prems by (simp add: show_nat.simps [of m] show_nat.simps [of n])
  qed
qed

lemma elision_notice_mono: "a \<le> n \<Longrightarrow> b \<le> n \<Longrightarrow> str_len (elision_notice k a b) \<le> str_len (elision_notice k n n)"
  using length_show_nat_mono [of a n] length_show_nat_mono [of b n] by (simp add: elision_notice_def str_len_show_nat)

text \<open>C38. When room is reserved for later notices, a tagged read never outgrows its output limit: the header, the rows
  and the notice on elided rows leave the reserved bytes free, whatever the file is, as long as the reserve, the header and the
  notice fit the limit at all.\<close>

theorem tagged_rendering_within_budget:
  assumes "reserved_bytes options \<noteq> 0" "max_output_bytes options < usize_max"
    and "list_all (\<lambda>(n, _). n \<le> total_lines s) (records s)"
    and "reserved_bytes options + str_len (tagged_header path (sn_tag s))
      + str_len (elision_notice (max_output_bytes options) (total_lines s) (total_lines s)) \<le> max_output_bytes options"
  shows "str_len (rd_text (render_tagged_snapshot_with_options s path options)) + reserved_bytes options \<le> max_output_bytes options"
proof -
  let ?header = "tagged_header path (sn_tag s)" and ?row = "tagged_row options"
  let ?lim = "read_body_limit options (str_len ?header) (total_lines s)"
  let ?notice = "elision_notice (max_output_bytes options)"
  let ?elided = "elided_of ?row ?lim 0 (records s)"
  have lim: "?lim + reserved_bytes options + str_len ?header + str_len (?notice (total_lines s) (total_lines s)) = max_output_bytes options"
    using assms(1,4) by (simp add: read_body_limit_def)
  have body: "str_len (concat (map (\<lambda>(n, r). fst (?row n r)) (kept_of ?row ?lim 0 (records s)))) \<le> ?lim"
    using kept_of_budget [of ?lim 0 ?row "records s"] lim assms(2) by simp
  have "n \<le> total_lines s" if "n \<in> set ?elided" for n
    using elided_of_subset [OF that] assms(3) by (auto simp: list_all_iff)
  then have notice: "str_len (?notice (hd ?elided) (last ?elided)) \<le> str_len (?notice (total_lines s) (total_lines s))" if "?elided \<noteq> []"
    using that by (intro elision_notice_mono) auto
  show ?thesis
  proof (cases "?elided = []")
    case True
    then show ?thesis
      using body lim by (simp add: render_tagged_snapshot_with_options_def Let_def with_notice_def render_rows_spec str_len_def [of "[]"])
  next
    case False
    then show ?thesis
      using body lim notice by (simp add: render_tagged_snapshot_with_options_def Let_def with_notice_def render_rows_spec)
  qed
qed

theorem tagged_rendering_within_budget_witness:
  "str_len (rd_text (render_tagged_snapshot_with_options (sample_snapshot 97) (lit ''f'')
     \<lparr>max_output_bytes = 200, max_line_length = 10, reserved_bytes = 5\<rparr>)) + 5 \<le> 200"
  using tagged_rendering_within_budget [of "\<lparr>max_output_bytes = 200, max_line_length = 10, reserved_bytes = 5\<rparr>" "sample_snapshot 97" "lit ''f''"]
  by simp code_simp

section \<open>UTF-8 rows\<close>

lemma unat_of_nat_byte: "unat (of_nat n :: byte) = n mod 256"
  by (simp add: unat_of_nat)

lemma byte_ge: "128 \<le> n \<Longrightarrow> n < 256 \<Longrightarrow> 128 \<le> unat (of_nat n :: byte)"
  by (simp add: unat_byte)

lemma utf8_char_bytes: "is_scalar c \<Longrightarrow> 128 \<le> c \<Longrightarrow> b \<in> set (utf8_char c) \<Longrightarrow> 128 \<le> unat b"
  by (auto simp: utf8_char_def is_scalar_def simp del: of_nat_add intro!: byte_ge split: if_splits)

lemma utf8_char_single: "c < 128 \<Longrightarrow> utf8_char c = [of_nat c]"
  by (simp add: utf8_char_def)

lemma utf8_char_has: "is_scalar c \<Longrightarrow> (of_nat d :: byte) \<in> set (utf8_char c) \<Longrightarrow> d < 128 \<Longrightarrow> c = d"
  using utf8_char_bytes [of c "of_nat d"] by (cases "c < 128") (auto simp: utf8_char_single unat_of_nat_byte dest: arg_cong [of _ _ unat])

lemma split_on_prefix: "d \<notin> set p \<Longrightarrow> split_on d (p @ s) = (p @ hd (split_on d s)) # tl (split_on d s)"
  by (induction p) (auto split: list.splits)

lemma split_on_as_bytes: "list_all is_scalar t \<Longrightarrow> split_on 10 (as_bytes t) = map as_bytes (split_on LF t)"
proof (induction t)
  case (Cons c t)
  show ?case
  proof (cases "c = LF")
    case True
    then show ?thesis using Cons by (simp add: utf8_char_single)
  next
    case False
    then have "10 \<notin> set (utf8_char c)" using utf8_char_has [of c 10] Cons.prems by auto
    moreover have "split_on LF (c # t) = (c # hd (split_on LF t)) # tl (split_on LF t)"
      using False split_on_prefix [of LF "[c]" t] by simp
    ultimately show ?thesis using Cons split_on_prefix [of 10 "utf8_char c" "as_bytes t"] by (simp add: hd_map map_tl)
  qed
qed simp

lemma as_bytes_strip_cr:
  assumes "list_all is_scalar l" "as_bytes l \<noteq> []" "last (as_bytes l) = 13"
  shows "\<exists>l'. l = l' @ [13]"
proof (cases l rule: rev_cases)
  case (snoc l' c)
  have "utf8_char c \<noteq> []" by (simp add: utf8_char_def)
  then have "(of_nat 13 :: byte) \<in> set (utf8_char c)" using assms(3) snoc by (metis as_bytes_simps(1-3) append_Nil2 last_appendR last_in_set of_nat_numeral)
  then show ?thesis using utf8_char_has [of c 13] assms(1) snoc by auto
qed (use assms in simp)

lemma set_split_on: "l \<in> set (split_on d s) \<Longrightarrow> set l \<subseteq> set s"
proof (induction s arbitrary: l)
  case (Cons x s)
  obtain p ps where "split_on d s = p # ps" by (meson neq_Nil_conv split_on_not_Nil)
  then show ?case using Cons.IH [of p] Cons.IH [of l] Cons.prems by (cases "x = d") auto
qed simp

lemma line_records_utf8:
  assumes "from_utf8 bs = Some t" "r \<in> set (line_records bs)"
  shows "\<exists>l. from_utf8 (rl_content r) = Some l"
proof -
  have t: "list_all is_scalar t" "bs = as_bytes t" using assms(1) by (simp_all add: from_utf8_iff)
  have sc: "list_all is_scalar l" if "l \<in> set (split_on LF t)" for l
    using set_split_on [OF that] t(1) by (auto simp: list_all_iff)
  have piece: "\<exists>l. p = as_bytes l \<and> list_all is_scalar l" if "p \<in> set (split_on 10 bs)" for p
    using that sc unfolding t(2) split_on_as_bytes [OF t(1)] by auto
  consider p where "p \<in> set (split_on 10 bs)" "r = terminated p" | "r = \<lparr>rl_content = open_line bs, rl_terminator = NoTerm\<rparr>"
    using assms(2) by (auto simp: line_records_def complete_records_def line_pieces_def dest: in_set_butlastD split: if_splits)
  then show ?thesis
  proof cases
    case 1
    then obtain l where l: "p = as_bytes l" "list_all is_scalar l" using piece by blast
    show ?thesis
    proof (cases "p \<noteq> [] \<and> last p = 13")
      case True
      then obtain l' where "l = l' @ [13]" using as_bytes_strip_cr l by blast
      then show ?thesis using True l 1(2) by (auto simp: terminated_def from_utf8_iff utf8_char_single butlast_append)
    qed (use l 1(2) in \<open>auto simp: terminated_def from_utf8_iff\<close>)
  next
    case 2
    then show ?thesis using piece [of "open_line bs"] by (auto simp: open_line_def from_utf8_iff)
  qed
qed

lemma from_utf8_lossy_valid: "from_utf8 bs = Some s \<Longrightarrow> from_utf8_lossy bs = s"
proof (induction bs arbitrary: s rule: from_utf8.induct)
  case (2 a r)
  let ?x = "unat a"
  consider "?x < 128" | "\<not> ?x < 128" "?x < 194" | "\<not> ?x < 194" "?x < 224" | "\<not> ?x < 224" "?x < 240" | "\<not> ?x < 240" "?x < 245" | "\<not> ?x < 245"
    by linarith
  then show ?case
  proof cases
    case 1
    then show ?thesis using 2 by auto
  next
    case 3
    then obtain b r' y t where *: "r = b # r'" "cont_bits b = Some y" "from_utf8 r' = Some t" "s = ((?x - 192) * 64 + y) # t"
      using "2.prems" by (auto simp: Let_def split: list.splits option.splits)
    then have "from_utf8_lossy r' = t" using "2.IH"(2) 3 by auto
    then show ?thesis using * 3 by simp
  next
    case 4
    then obtain b c r' y z t where *: "r = b # c # r'" "cont_bits b = Some y" "cont_bits c = Some z"
      "from_utf8 r' = Some t" "s = ((?x - 224) * 4096 + y * 64 + z) # t"
      "0x800 \<le> (?x - 224) * 4096 + y * 64 + z" "is_scalar ((?x - 224) * 4096 + y * 64 + z)"
      using "2.prems" by (auto simp: Let_def split: list.splits option.splits if_splits)
    have yz: "y < 64" "z < 64" using *(2,3) by (simp_all add: cont_bits_Some)
    have "second_of_three ?x b = Some y" using *(2,6,7) yz by (auto simp: second_of_three_def is_scalar_def)
    moreover have "from_utf8_lossy r' = t" using "2.IH"(3) 4 * by auto
    ultimately show ?thesis using * 4 by simp
  next
    case 5
    then obtain b c d r' y z w t where *: "r = b # c # d # r'" "cont_bits b = Some y"
      "cont_bits c = Some z" "cont_bits d = Some w" "from_utf8 r' = Some t"
      "s = ((?x - 240) * 262144 + y * 4096 + z * 64 + w) # t"
      "0x10000 \<le> (?x - 240) * 262144 + y * 4096 + z * 64 + w" "is_scalar ((?x - 240) * 262144 + y * 4096 + z * 64 + w)"
      using "2.prems" by (auto simp: Let_def split: list.splits option.splits if_splits)
    have yz: "y < 64" "z < 64" "w < 64" using *(2-4) by (simp_all add: cont_bits_Some)
    have "second_of_four ?x b = Some y" using *(2,7,8) yz by (auto simp: second_of_four_def is_scalar_def)
    moreover have "from_utf8_lossy r' = t" using "2.IH"(4) 5 * by auto
    ultimately show ?thesis using * 5 by simp
  qed (use "2.prems" in auto)
qed simp

section \<open>Selected rows\<close>

lemma scan_selection:
  "Option.bind (scan_bytes_with_request bytes (selection_scan_request sel)) sr_snapshot
     = scan_bytes_with_coverage bytes (rq_coverage (selection_scan_request sel))"
  by (cases sel) (simp_all add: scan_bytes_with_coverage_def request_whole_file_def request_new_def)

lemma scan_whole_request: "Option.bind (scan_bytes_with_request bytes request_whole_file) sr_snapshot = scan_bytes_with_coverage bytes coverage_whole_file"
  by (simp add: scan_bytes_with_coverage_def request_whole_file_def)

lemma selected_retained:
  "n \<in> set (selected_lines sel k) \<Longrightarrow> retains (rq_coverage (selection_scan_request sel)) n \<and> 0 < n \<and> n \<le> k"
  by (cases sel) (auto simp: retains_def request_new_def request_whole_file_def coverage_whole_file_def coverage_range_def coverage_lines_def
      Let_def saturating_add_def usize_max_def simp del: upt_Suc split: if_splits)

lemma selected_sorted: "sorted_wrt (<) (selected_lines sel k)"
  by (cases sel) (simp_all add: collect_set_sorted Let_def del: upt_Suc)

lemma bt_get_filter: "bt_get (filter (\<lambda>(k, _). k \<in> A) m) n = (if n \<in> A then bt_get m n else None)"
  by (induction m) (auto simp: bt_get_def)

lemma bt_inv_filter: "bt_inv m \<Longrightarrow> bt_inv (filter P m)"
  by (induction m) (auto simp: bt_inv_def)

lemma snapshot_for_lines_simps [simp]:
  "sn_tag (snapshot_for_lines s ls) = sn_tag s" "total_lines (snapshot_for_lines s ls) = total_lines s"
  "sc_seen_lines (coverage (snapshot_for_lines s ls)) = ls" "normalized_bytes (snapshot_for_lines s ls) = normalized_bytes s"
  "byte_count (snapshot_for_lines s ls) = byte_count s"
  "records (snapshot_for_lines s ls) = filter (\<lambda>(line, _). line \<in> set ls) (records s)"
  "sn_retained_lines (snapshot_for_lines s ls) = filter (\<lambda>(line, _). line \<in> set ls) (sn_retained_lines s)"
  by (simp_all add: snapshot_for_lines_def)

lemma snapshot_for_lines_wf: "snapshot_wf s \<Longrightarrow> snapshot_wf (snapshot_for_lines s ls)"
  by (simp add: snapshot_wf_def bt_inv_filter)

text \<open>The snapshot that a scan with a coverage gives, row by row.\<close>

lemma scan_coverage_rows:
  obtains s where "scan_bytes_with_coverage bs cov = Some s" "snapshot_wf s" "sn_tag s = tag_for bs" "total_lines s = length (line_records bs)"
    "normalized_bytes s = normalize_for_tag bs" "byte_count s = length bs"
    "bt_get (records s) = (\<lambda>n. if retains cov n \<and> 0 < n \<and> n \<le> length (line_records bs) then Some (line_records bs ! (n - 1)) else None)"
proof -
  obtain s where s: "scan_bytes_with_coverage bs cov = Some s" "sn_tag s = tag_for bs" "total_lines s = length (line_records bs)"
    "byte_count s = length bs" "sn_retained_lines s = retained_of (retains cov) 1 0 (line_records bs)"
    "records s = map (\<lambda>(n, r). (n, rt_record r)) (sn_retained_lines s)" "normalized_bytes s = normalize_for_tag bs"
    by (rule scan_bytes_with_coverage_spec)
  have "bt_inv (records s)" using retained_of_inv [of "retains cov" 1 0 "line_records bs"] s(5,6) by (simp add: bt_inv_def split_beta comp_def)
  then have "snapshot_wf s" using retained_of_inv s(5) by (simp add: snapshot_wf_def)
  moreover have "bt_get (records s) = (\<lambda>n. if retains cov n \<and> 0 < n \<and> n \<le> length (line_records bs) then Some (line_records bs ! (n - 1)) else None)"
    by (intro ext) (auto simp: s(5,6) bt_get_map_values retained_of_get Let_def)
  ultimately show thesis using s that by blast
qed

lemma publish_snapshot:
  "publish env st path s = Some (st', out) \<Longrightarrow> po_status out = Stored \<Longrightarrow> po_snapshot out = Some (s\<lparr>normalized_bytes := []\<rparr>)"
  by (auto simp: publish_def publish_coalesced_def publish_new_def Let_def split: option.splits if_splits prod.splits Option.bind_splits)

lemma sorted_between: "sorted_wrt (<) xs \<Longrightarrow> n \<in> set xs \<Longrightarrow> hd xs \<le> n \<and> n \<le> last xs" for n :: nat
proof
  assume "sorted_wrt (<) xs" "n \<in> set xs"
  then show "hd xs \<le> n" "n \<le> last xs"
    by (cases xs, auto) (cases xs rule: rev_cases, auto simp: sorted_wrt_append)
qed

lemma tagged_row_valid:
  "from_utf8 (rl_content r) = Some l \<Longrightarrow> fst (tagged_row options n r)
     = show_nat n @ lit '':'' @ (if length l \<le> max_line_length options then l else take (max_line_length options) l @ lit ''... (truncated)'') @ [LF]"
  by (simp add: tagged_row_def truncate_display_line_def from_utf8_lossy_valid)

section \<open>Reads\<close>

text \<open>The one way to a tagged read.\<close>

lemma capture_tagged_cases:
  assumes "capture_taggable_source_with_options env inspect st can req sel options src = Some (Tagged s rend, st')"
  obtains source where "fm_is_file (src_metadata src)" "from_utf8 (src_bytes src) \<noteq> None" "is_write_eligible (src_metadata src)"
    "scan_bytes_with_coverage (src_bytes src) (rq_coverage (selection_scan_request sel)) = Some source"
    "rend = render_tagged_snapshot_with_options (snapshot_for_lines source (selected_lines sel (total_lines source))) req options"
    "\<exists>out. publish env st can (snapshot_for_lines (snapshot_for_lines source (selected_lines sel (total_lines source))) (rd_rendered_lines rend))
       = Some (st', out) \<and> po_status out = Stored \<and> po_snapshot out = Some s"
  using assms
  by (auto simp: capture_taggable_source_with_options_def untagged_def Let_def scan_selection
      split: if_splits option.splits publish_status.splits)

lemma rendered_rows:
  fixes req :: rstr and options :: render_options
  assumes "scan_bytes_with_coverage bs (rq_coverage (selection_scan_request sel)) = Some source"
  defines "selected \<equiv> snapshot_for_lines source (selected_lines sel (total_lines source))"
    and "rows \<equiv> line_records bs"
  defines "rend \<equiv> render_tagged_snapshot_with_options selected req options"
  shows "set (rd_rendered_lines rend) \<subseteq> set (selected_lines sel (length rows))"
    and "rd_text rend = tagged_header req (tag_for bs) @ concat (map (\<lambda>n. fst (tagged_row options n (rows ! (n - 1)))) (rd_rendered_lines rend))
      @ (case rd_elided_range rend of None \<Rightarrow> [] | Some r \<Rightarrow> elision_notice (max_output_bytes options) (lr_start r) (lr_end r))"
    and "\<forall>n \<in> set (selected_lines sel (length rows)) - set (rd_rendered_lines rend). \<exists>r. rd_elided_range rend = Some r \<and> lr_start r \<le> n \<and> n \<le> lr_end r"
proof -
  obtain s where s: "scan_bytes_with_coverage bs (rq_coverage (selection_scan_request sel)) = Some s" "snapshot_wf s" "sn_tag s = tag_for bs"
    "total_lines s = length rows"
    "bt_get (records s) = (\<lambda>n. if retains (rq_coverage (selection_scan_request sel)) n \<and> 0 < n \<and> n \<le> length rows then Some (rows ! (n - 1)) else None)"
    unfolding rows_def by (rule scan_coverage_rows)
  have [simp]: "source = s" using assms(1) s(1) by simp
  let ?sel = "selected_lines sel (length rows)"
  have get: "bt_get (records selected) n = (if n \<in> set ?sel then Some (rows ! (n - 1)) else None)" for n
    using selected_retained [of n sel "length rows"] by (simp add: selected_def bt_get_filter s(4,5))
  have inv: "bt_inv (records selected)" using snapshot_for_lines_wf [OF s(2)] by (simp add: selected_def snapshot_wf_def)
  then have mem: "(n, r) \<in> set (records selected) \<longleftrightarrow> n \<in> set ?sel \<and> r = rows ! (n - 1)" for n r
    using get [of n] by (auto simp: bt_get_set [OF inv, symmetric] split: if_splits)
  let ?lim = "read_body_limit options (str_len (tagged_header req (sn_tag selected))) (total_lines selected)"
  let ?kept = "kept_of (tagged_row options) ?lim 0 (records selected)" and ?gone = "elided_of (tagged_row options) ?lim 0 (records selected)"
  have rend: "rd_rendered_lines rend = map fst ?kept" "rd_elided_range rend = (if ?gone = [] then None else Some \<lparr>lr_start = hd ?gone, lr_end = last ?gone\<rparr>)"
    by (simp_all add: rend_def render_tagged_snapshot_with_options_def Let_def render_rows_spec)
  show "set (rd_rendered_lines rend) \<subseteq> set ?sel"
    using kept_of_subset [of "tagged_row options" ?lim 0 "records selected"] mem by (auto simp: rend(1))
  have rows: "map (\<lambda>(n, r). fst (tagged_row options n r)) ?kept = map (\<lambda>n. fst (tagged_row options n (rows ! (n - 1)))) (map fst ?kept)"
    using kept_of_subset [of "tagged_row options" ?lim 0 "records selected"] mem by (auto simp: comp_def)
  have tag: "sn_tag selected = tag_for bs" by (simp add: selected_def s(3))
  have "rd_text rend = tagged_header req (sn_tag selected) @ concat (map (\<lambda>(n, r). fst (tagged_row options n r)) ?kept)
      @ (case rd_elided_range rend of None \<Rightarrow> [] | Some r \<Rightarrow> elision_notice (max_output_bytes options) (lr_start r) (lr_end r))"
    unfolding rend(2) by (simp add: rend_def render_tagged_snapshot_with_options_def Let_def with_notice_def render_rows_spec)
  then show "rd_text rend = tagged_header req (tag_for bs) @ concat (map (\<lambda>n. fst (tagged_row options n (rows ! (n - 1)))) (rd_rendered_lines rend))
      @ (case rd_elided_range rend of None \<Rightarrow> [] | Some r \<Rightarrow> elision_notice (max_output_bytes options) (lr_start r) (lr_end r))"
    unfolding rend(1) tag [symmetric] rows .
  show "\<forall>n \<in> set ?sel - set (rd_rendered_lines rend). \<exists>r. rd_elided_range rend = Some r \<and> lr_start r \<le> n \<and> n \<le> lr_end r"
  proof
    fix n assume n: "n \<in> set ?sel - set (rd_rendered_lines rend)"
    then have "n \<in> set (map fst (records selected))" using mem by force
    then have "n \<in> set ?gone" using n kept_or_elided [of "records selected" "tagged_row options" ?lim 0] rend(1) by auto
    moreover have "sorted_wrt (<) ?gone" by (rule elided_of_sorted [OF inv])
    ultimately have "hd ?gone \<le> n \<and> n \<le> last ?gone \<and> ?gone \<noteq> []" using sorted_between [of ?gone n] by auto
    then show "\<exists>r. rd_elided_range rend = Some r \<and> lr_start r \<le> n \<and> n \<le> lr_end r" by (simp add: rend(2))
  qed
qed


lemma publish_fits:
  assumes "snapshot_wf s" "byte_count s \<le> MAX_FILE_READ_BYTES" "residency_bytes s + length (normalized_bytes s) \<le> MAX_SNAPSHOT_TOTAL_BYTES"
  shows "\<exists>st' out. publish env store_new path s = Some (st', out) \<and> po_status out = Stored \<and> po_snapshot out = Some (s\<lparr>normalized_bytes := []\<rparr>)"
proof -
  obtain st' out where p: "publish env store_new path s = Some (st', out)" using publish_spec [OF store_inv_new assms(1)] by metis
  have none: "find_coalesced store_new k x b = None" for k x b by (simp add: find_coalesced_def store_new_def bt_empty_def bt_get_def)
  have "residency_bytes (s\<lparr>normalized_bytes := []\<rparr>) = residency_bytes s" by (simp add: residency_bytes_def)
  then have "po_status out = Stored"
    using p assms(2,3) by (auto simp: publish_def none Let_def publish_new_def saturating_add_def split: if_splits prod.splits Option.bind_splits)
  then show ?thesis using p publish_snapshot [OF p] by blast
qed

lemma retained_residency:
  "sum_list (map (length \<circ> to_bytes) (map (\<lambda>x. rt_record (snd x)) (retained_of P n off rs))) \<le> length (concat (map to_bytes rs))"
  by (induction rs arbitrary: n off) (auto intro: le_trans trans_le_add2)

lemma residency_filter: "sum_list (map (length \<circ> to_bytes) (map snd (filter P m))) \<le> sum_list (map (length \<circ> to_bytes) (map snd m))"
  by (induction m) auto

lemma residency_for_lines: "residency_bytes (snapshot_for_lines s ls) \<le> residency_bytes s"
  using residency_filter [of "\<lambda>(line, _). line \<in> set ls" "records s"] by (simp add: residency_bytes_def bt_values_def)

lemma scan_residency:
  assumes "scan_bytes_with_coverage bs cov = Some s"
  shows "residency_bytes s \<le> length bs"
proof -
  obtain s' where s': "scan_bytes_with_coverage bs cov = Some s'" "sn_retained_lines s' = retained_of (retains cov) 1 0 (line_records bs)"
    "records s' = map (\<lambda>(n, r). (n, rt_record r)) (sn_retained_lines s')"
    by (rule scan_bytes_with_coverage_spec)
  have "residency_bytes s' \<le> length (concat (map to_bytes (line_records bs)))"
    using retained_residency [of "retains cov" 1 0 "line_records bs"] by (simp add: residency_bytes_def bt_values_def s'(2,3) split_beta comp_def)
  then show ?thesis using s'(1) assms by (simp add: line_records_bytes)
qed

text \<open>A read never panics and never leaves the session's store out of its bounds: from every reachable store it answers with a
  tagged or a tagless read, and a tagless answer changes nothing.\<close>

theorem tagged_read_returns:
  assumes "store_reachable st"
  shows "\<exists>p st'. capture_taggable_source_with_options env inspect st can req sel options src = Some (p, st') \<and> store_inv st'
    \<and> ((\<exists>r reason. p = Tagless r reason) \<longrightarrow> st' = st)"
proof -
  have inv: "store_inv st" by (rule store_reachable_inv [OF assms])
  obtain s where s: "scan_bytes_with_coverage (src_bytes src) (rq_coverage (selection_scan_request sel)) = Some s" "snapshot_wf s"
    by (rule scan_coverage_rows)
  let ?sel = "snapshot_for_lines s (selected_lines sel (total_lines s))"
  let ?pub = "snapshot_for_lines ?sel (rd_rendered_lines (render_tagged_snapshot_with_options ?sel req options))"
  have "snapshot_wf ?pub" by (intro snapshot_for_lines_wf s(2))
  then obtain st' out where p: "publish env st can ?pub = Some (st', out)"
    "stored_as env st can ?pub st' out \<or> (\<exists>n limit. po_status out = Oversize n limit \<and> st' = st)"
    using publish_spec [OF inv] by metis
  then show ?thesis
    using inv s(1) by (auto simp: capture_taggable_source_with_options_def Let_def scan_selection untagged_def stored_as_def)
qed

text \<open>A writable file of two rows, for the witnesses.\<close>

definition sample_source :: read_source where
  "sample_source = \<lparr>src_bytes = [97, 10, 98, 10], src_metadata = \<lparr>fm_is_file = True, fm_len = 4, fm_dev = 1, fm_ino = 2, fm_mode = 0x1A4,
     fm_modified = None, fm_readonly = False\<rparr>\<rparr>"

theorem tagged_read_returns_witness:
  "\<exists>p st'. capture_taggable_source_with_options sample_env (\<lambda>_. False) sample_store (lit ''f'') (lit ''f'') (SelectTail 1) render_options_default sample_source
      = Some (p, st') \<and> store_inv st'"
  using tagged_read_returns [OF store_reachable.step [OF store_reachable.start sample_step],
      of sample_env "\<lambda>_. False" "lit ''f''" "lit ''f''" "SelectTail 1" render_options_default sample_source] by blast


section \<open>Edit responses\<close>

text \<open>A row is near a range when it is in it or next to it.\<close>

definition near :: "nat \<Rightarrow> line_range \<Rightarrow> bool" where
  "near n r \<longleftrightarrow> \<not> range_is_empty r \<and> lr_start r \<le> n + 1 \<and> n \<le> lr_end r + 1"

lemma coalesce_step_near:
  assumes "\<not> range_is_empty r" "\<forall>q \<in> set (result @ [r]). \<not> range_is_empty q \<and> lr_start q \<le> lr_start r"
  shows "list_ex (near n) (coalesce_step result r) \<longleftrightarrow> list_ex (near n) result \<or> near n r"
    and "\<forall>q \<in> set (coalesce_step result r). \<not> range_is_empty q \<and> lr_start q \<le> lr_start r"
proof -
  have "(list_ex (near n) (coalesce_step result r) \<longleftrightarrow> list_ex (near n) result \<or> near n r)
    \<and> (\<forall>q \<in> set (coalesce_step result r). \<not> range_is_empty q \<and> lr_start q \<le> lr_start r)"
  proof (cases "result \<noteq> [] \<and> lr_start r \<le> saturating_add (lr_end (last result)) 1")
    case True
    then obtain pre l where res: "result = pre @ [l]" by (cases result rule: rev_cases) auto
    have l: "lr_start l \<le> lr_start r" "\<not> range_is_empty l" "lr_start r \<le> lr_end l + 1"
      using True assms(2) by (auto simp: res saturating_add_def)
    have "near n (l\<lparr>lr_end := max (lr_end l) (lr_end r)\<rparr>) \<longleftrightarrow> near n l \<or> near n r"
      using l assms(1) by (auto simp: near_def range_is_empty_def)
    then show ?thesis using True assms(2) by (auto simp: coalesce_step_def res range_is_empty_def)
  next
    case False
    then show ?thesis using assms by (auto simp: coalesce_step_def)
  qed
  then show "list_ex (near n) (coalesce_step result r) \<longleftrightarrow> list_ex (near n) result \<or> near n r"
    "\<forall>q \<in> set (coalesce_step result r). \<not> range_is_empty q \<and> lr_start q \<le> lr_start r" by blast+
qed

lemma coalesce_foldl_near:
  assumes "sorted (map lr_start rs)" "\<forall>r \<in> set rs. \<not> range_is_empty r"
    and "\<forall>q \<in> set result. \<not> range_is_empty q \<and> (\<forall>r \<in> set rs. lr_start q \<le> lr_start r)"
  shows "list_ex (near n) (foldl coalesce_step result rs) \<longleftrightarrow> list_ex (near n) result \<or> list_ex (near n) rs"
    and "\<forall>q \<in> set (foldl coalesce_step result rs). \<not> range_is_empty q"
proof -
  have "(list_ex (near n) (foldl coalesce_step result rs) \<longleftrightarrow> list_ex (near n) result \<or> list_ex (near n) rs)
    \<and> (\<forall>q \<in> set (foldl coalesce_step result rs). \<not> range_is_empty q)"
    using assms
  proof (induction rs arbitrary: result)
    case (Cons r rs)
    have pre: "\<not> range_is_empty r" "\<forall>q \<in> set (result @ [r]). \<not> range_is_empty q \<and> lr_start q \<le> lr_start r"
      using Cons.prems(2,3) by simp_all
    note step = coalesce_step_near(1) [OF pre, of n] coalesce_step_near(2) [OF pre]
    have le: "\<forall>r' \<in> set rs. lr_start r \<le> lr_start r'" using Cons.prems(1) by simp
    have "\<forall>q \<in> set (coalesce_step result r). \<not> range_is_empty q \<and> (\<forall>r' \<in> set rs. lr_start q \<le> lr_start r')"
      using step(2) le by (meson le_trans)
    then show ?case using Cons.IH [of "coalesce_step result r"] Cons.prems(1,2) step(1) by simp
  qed simp
  then show "list_ex (near n) (foldl coalesce_step result rs) \<longleftrightarrow> list_ex (near n) result \<or> list_ex (near n) rs"
    "\<forall>q \<in> set (foldl coalesce_step result rs). \<not> range_is_empty q" by blast+
qed

lemma sorted_fst: "sorted ps \<Longrightarrow> sorted (map fst ps)" for ps :: "(nat \<times> nat) list"
  by (induction ps) (fastforce simp: less_eq_prod_def)+

lemma coalesce_ranges_near:
  "list_ex (near n) (coalesce_ranges rs) \<longleftrightarrow> list_ex (near n) rs" "\<forall>q \<in> set (coalesce_ranges rs). \<not> range_is_empty q"
proof -
  let ?rs = "sort_key (\<lambda>r. (lr_start r, lr_end r)) (filter (\<lambda>r. \<not> range_is_empty r) rs)"
  have "sorted (map (\<lambda>r. (lr_start r, lr_end r)) ?rs)" by simp
  then have "sorted (map fst (map (\<lambda>r. (lr_start r, lr_end r)) ?rs))" by (rule sorted_fst)
  then have sorted: "sorted (map lr_start ?rs)" by (simp add: comp_def)
  have ok: "\<forall>r \<in> set ?rs. \<not> range_is_empty r" by simp
  have start: "\<forall>q \<in> set []. \<not> range_is_empty q \<and> (\<forall>r \<in> set ?rs. lr_start q \<le> lr_start r)" by simp
  have "list_ex (near n) ?rs \<longleftrightarrow> list_ex (near n) rs" by (simp add: list_ex_iff near_def) blast
  then show "list_ex (near n) (coalesce_ranges rs) \<longleftrightarrow> list_ex (near n) rs"
    using coalesce_foldl_near(1) [OF sorted ok start, of n] by (simp add: coalesce_ranges_def)
  show "\<forall>q \<in> set (coalesce_ranges rs). \<not> range_is_empty q"
    using coalesce_foldl_near(2) [OF sorted ok start] by (simp only: coalesce_ranges_def)
qed

lemma output_lines_near:
  "\<not> range_is_empty r \<Longrightarrow> k \<le> usize_max \<Longrightarrow> (n \<in> set (output_lines_of k r) \<and> 0 < n \<and> n \<le> k) \<longleftrightarrow> (near n r \<and> 0 < n \<and> n \<le> k)"
  by (auto simp: output_lines_of_def near_def range_is_empty_def saturating_add_def Let_def simp del: upt_Suc)

lemma line_records_length: "length (line_records bs) \<le> length bs"
proof -
  have pos: "1 \<le> length (to_bytes r)" if "wf_record r" for r using that by (cases "rl_terminator r") (auto simp: wf_record_def to_bytes_def Suc_le_eq)
  have "list_all wf_record rs \<Longrightarrow> length rs \<le> length (concat (map to_bytes rs))" for rs
  proof (induction rs)
    case (Cons r rs)
    then show ?case using add_le_mono [OF pos [of r], of "length rs"] by simp
  qed simp
  from this [of "line_records bs"] show ?thesis using line_records_wf [of bs] by (simp add: wf_records_def line_records_bytes)
qed

text \<open>C39. After an edit, the snapshot under the new tag makes addressable exactly the affected rows and their nearest neighbours, with
  the bytes the file now has: every row that is in an affected range or next to one, and no other.\<close>

theorem edit_response_shows_region:
  assumes "publish_edit_response_snapshot env inspect st can req bytes affected = Some (es, st')" "es_snapshot es = Some s"
  defines "rows \<equiv> line_records bytes"
  shows "(is_seen s n \<longleftrightarrow> 0 < n \<and> n \<le> length rows \<and> (\<exists>r \<in> set (ranges affected). near n r))
    \<and> raw_record s n = (if is_seen s n then Some (rows ! (n - 1)) else None)
    \<and> sn_tag s = tag_for bytes \<and> edit_response_tag es = Some (to_ascii_uppercase (tag_for bytes)) \<and> es_notice es = None"
proof -
  obtain w where w: "scan_bytes_with_coverage bytes coverage_whole_file = Some w" "sn_tag w = tag_for bytes" "total_lines w = length rows"
    "bt_get (records w) = (\<lambda>n. if retains coverage_whole_file n \<and> 0 < n \<and> n \<le> length rows then Some (rows ! (n - 1)) else None)"
    unfolding rows_def by (rule scan_coverage_rows)
  have small: "length bytes \<le> MAX_FILE_READ_BYTES"
    and p: "\<exists>out. publish env st can (snapshot_for_lines w (affected_output_lines w affected)) = Some (st', out) \<and> po_status out = Stored \<and> po_snapshot out = Some s"
    and es: "es = \<lparr>es_snapshot = Some s, es_rendering = Some (render_tagged_snapshot s req), es_requested_path = req, es_notice = None\<rparr>"
    using assms(1,2) w(1) by (auto simp: publish_edit_response_snapshot_def edit_response_unavailable_def scan_whole_request
        split: if_splits option.splits publish_status.splits)
  have s: "s = (snapshot_for_lines w (affected_output_lines w affected))\<lparr>normalized_bytes := []\<rparr>" using p publish_snapshot by auto
  have "length rows \<le> length bytes" unfolding rows_def by (rule line_records_length)
  then have k: "length rows \<le> usize_max" using small by (simp add: MAX_FILE_READ_BYTES_def usize_max_def)
  have "n \<in> set (affected_output_lines w affected) \<longleftrightarrow> 0 < n \<and> n \<le> length rows \<and> list_ex (near n) (ranges affected)"
  proof -
    have "n \<in> set (affected_output_lines w affected)
        \<longleftrightarrow> (\<exists>r \<in> set (coalesce_ranges (ranges affected)). n \<in> set (output_lines_of (length rows) r)) \<and> 0 < n \<and> n \<le> length rows"
      by (auto simp: affected_output_lines_def Let_def w(3,4) retains_whole)
    also have "\<dots> \<longleftrightarrow> list_ex (near n) (coalesce_ranges (ranges affected)) \<and> 0 < n \<and> n \<le> length rows"
      unfolding list_ex_iff using output_lines_near [OF _ k, of _ n] coalesce_ranges_near(2) [of "ranges affected"] by metis
    finally show ?thesis using coalesce_ranges_near(1) by auto
  qed
  then show ?thesis
    by (auto simp: s es is_seen_def coverage_is_seen_def raw_record_def bt_get_filter w retains_whole list_ex_iff
        edit_response_tag_def render_tagged_snapshot_def render_tagged_snapshot_with_options_def Let_def)
qed

theorem edit_response_shows_region_witness:
  "\<exists>es st' s. publish_edit_response_snapshot sample_env (\<lambda>_. False) store_new (lit ''f'') (lit ''f'') [97, 10, 98, 10, 99, 10] (region_insertion 1 1)
      = Some (es, st') \<and> es_snapshot es = Some s \<and> is_seen s 2 \<and> \<not> is_seen s 3"
proof -
  let ?bs = "[97, 10, 98, 10, 99, 10] :: byte list"
  obtain w where w: "scan_bytes_with_coverage ?bs coverage_whole_file = Some w" "snapshot_wf w"
    "normalized_bytes w = normalize_for_tag ?bs" "byte_count w = length ?bs"
    by (rule scan_coverage_rows)
  have l: "length (normalize_for_tag ?bs) = 6" "length (line_records ?bs) = 3" "from_utf8 ?bs = Some [97, 10, 98, 10, 99, 10]"
    "ranges (region_insertion 1 1) = [\<lparr>lr_start = 1, lr_end = 1\<rparr>]" by code_simp+
  let ?pub = "snapshot_for_lines w (affected_output_lines w (region_insertion 1 1))"
  have "residency_bytes ?pub \<le> 6" using residency_for_lines [of w "affected_output_lines w (region_insertion 1 1)"] scan_residency [OF w(1)] by simp
  then obtain st' out where p: "publish sample_env store_new (lit ''f'') ?pub = Some (st', out)" "po_status out = Stored"
      "po_snapshot out = Some (?pub\<lparr>normalized_bytes := []\<rparr>)"
    using publish_fits [of ?pub sample_env "lit ''f''"] w(2-4) l(1) snapshot_for_lines_wf by (auto simp: MAX_FILE_READ_BYTES_def MAX_SNAPSHOT_TOTAL_BYTES_def)
  let ?s = "?pub\<lparr>normalized_bytes := []\<rparr>"
  let ?es = "\<lparr>es_snapshot = Some ?s, es_rendering = Some (render_tagged_snapshot ?s (lit ''f'')), es_requested_path = lit ''f'', es_notice = None\<rparr>"
  have run: "publish_edit_response_snapshot sample_env (\<lambda>_. False) store_new (lit ''f'') (lit ''f'') ?bs (region_insertion 1 1) = Some (?es, st')"
    using p w(1) l(3) by (simp add: publish_edit_response_snapshot_def is_binary_def MAX_FILE_READ_BYTES_def scan_whole_request)
  have "is_seen ?s 2" "\<not> is_seen ?s 3"
    using edit_response_shows_region [OF run, of ?s 2] edit_response_shows_region [OF run, of ?s 3] l(2,4) by (simp_all add: near_def range_is_empty_def)
  then show ?thesis using run by (intro exI [of _ ?es] exI [of _ st'] exI [of _ ?s]) simp
qed

definition sample_long_rows :: snapshot where
  "sample_long_rows = (sample_snapshot 97)\<lparr>total_lines := 4,
     records := zip [1..<5] (map (\<lambda>c. \<lparr>rl_content = c, rl_terminator = Lf\<rparr>) [[97], replicate 9 98, [99], replicate 9 100])\<rparr>"


end
