(* ===== verification/Spec2Isabelle.thy ===== *)
theory Spec2Isabelle
  imports Patch_Apply Hashline_Recovery Hashline_Plan_Facts Hashline_Read
begin

text \<open>A verification library of the edit engines of AFT.\<close>

end
